(* ===== verification/Prelude.thy ===== *)
theory Prelude
  imports Main "HOL-Library.Word"
begin

text \<open>
  Shared vocabulary of the development: the machine integers of the kernel
  (\<^verbatim>\<open>kernel/include/common/types.h\<close>), the ways an operation can stop
  without returning, the error numbers of \<^verbatim>\<open>kernel/include/common/errno.h\<close>,
  the rounding macros of \<^verbatim>\<open>kernel/include/common/macro.h\<close>, and the generic
  lemmas on results, lists and powers of two that the components share.
\<close>

unbundle bit_operations_syntax

type_synonym u64 = "64 word"
type_synonym u32 = "32 word"
type_synonym s32 = int

section \<open>Results\<close>

text \<open>
  A C function either returns or never comes back. \<open>Bug_On\<close> is the endless loop behind
  \<^verbatim>\<open>BUG_ON\<close> and \<^verbatim>\<open>BUG\<close>, \<open>Deadlock\<close> is a spin on a lock that
  nobody will release, and \<open>Bad_Access\<close> is an access outside an object: through a
  null or dangling pointer or beyond an array; \<open>No_Return\<close> is a loop that runs round a
  cyclic chain of pointers. Error codes that the code returns are
  ordinary values.
\<close>

datatype kfail = Bug_On | Deadlock | Bad_Access | No_Return

type_synonym 'a res = "kfail + 'a"

fun bind_res :: "'a res \<Rightarrow> ('a \<Rightarrow> 'b res) \<Rightarrow> 'b res" where
  "bind_res (Inl e) f = Inl e"
| "bind_res (Inr x) f = f x"

definition bug_on :: "bool \<Rightarrow> 'a res \<Rightarrow> 'a res" where
  "bug_on b r = (if b then Inl Bug_On else r)"

definition deref :: "('k \<rightharpoonup> 'v) \<Rightarrow> 'k \<Rightarrow> 'v res" where
  "deref m p = (case m p of None \<Rightarrow> Inl Bad_Access | Some v \<Rightarrow> Inr v)"

definition nth_res :: "'a list \<Rightarrow> nat \<Rightarrow> 'a res" where
  "nth_res xs i = (if i < length xs then Inr (xs ! i) else Inl Bad_Access)"

definition upd_res :: "'a list \<Rightarrow> nat \<Rightarrow> 'a \<Rightarrow> 'a list res" where
  "upd_res xs i v = (if i < length xs then Inr (xs[i := v]) else Inl Bad_Access)"

named_theorems res_simps \<open>evaluation of results\<close>

lemma bind_res_eq_Inr [res_simps]:
  "bind_res m f = Inr y \<longleftrightarrow> (\<exists>x. m = Inr x \<and> f x = Inr y)"
  by (cases m) auto

lemma bind_res_eq_Inl [res_simps]:
  "bind_res m f = Inl e \<longleftrightarrow> m = Inl e \<or> (\<exists>x. m = Inr x \<and> f x = Inl e)"
  by (cases m) auto

lemma bind_res_assoc: "bind_res (bind_res m f) g = bind_res m (\<lambda>x. bind_res (f x) g)"
  by (cases m) auto

lemma bind_res_cong [fundef_cong]:
  "m = m' \<Longrightarrow> (\<And>x. m' = Inr x \<Longrightarrow> f x = f' x) \<Longrightarrow> bind_res m f = bind_res m' f'"
  by (cases m') auto

lemma bug_on_eq_Inr [res_simps]: "bug_on b r = Inr y \<longleftrightarrow> \<not> b \<and> r = Inr y"
  by (simp add: bug_on_def)

lemma bug_on_False [simp]: "bug_on False r = r"
  by (simp add: bug_on_def)

lemma bug_on_True [simp]: "bug_on True r = Inl Bug_On"
  by (simp add: bug_on_def)

lemma deref_eq_Inr [res_simps]: "deref m p = Inr v \<longleftrightarrow> m p = Some v"
  by (simp add: deref_def split: option.splits)

lemma deref_Some [simp]: "m p = Some v \<Longrightarrow> deref m p = Inr v"
  by (simp add: deref_def)

lemma deref_None [simp]: "m p = None \<Longrightarrow> deref m p = Inl Bad_Access"
  by (simp add: deref_def)

lemma nth_res_eq_Inr [res_simps]: "nth_res xs i = Inr v \<longleftrightarrow> i < length xs \<and> xs ! i = v"
  by (auto simp: nth_res_def)

lemma nth_res_in [simp]: "i < length xs \<Longrightarrow> nth_res xs i = Inr (xs ! i)"
  by (simp add: nth_res_def)

lemma upd_res_eq_Inr [res_simps]: "upd_res xs i v = Inr ys \<longleftrightarrow> i < length xs \<and> xs[i := v] = ys"
  by (auto simp: upd_res_def)

lemma upd_res_in [simp]: "i < length xs \<Longrightarrow> upd_res xs i v = Inr (xs[i := v])"
  by (simp add: upd_res_def)

lemma find_append: "find P (xs @ ys) = (case find P xs of None \<Rightarrow> find P ys | Some x \<Rightarrow> Some x)"
  by (induction xs) auto

section \<open>Error numbers\<close>

definition EPERM :: s32 where "EPERM = 1"
definition EAGAIN :: s32 where "EAGAIN = 11"
definition ENOMEM :: s32 where "ENOMEM = 12"
definition EINVAL :: s32 where "EINVAL = 22"
definition ECAPBILITY :: s32 where "ECAPBILITY = 200"
definition ENOMAPPING :: s32 where "ENOMAPPING = 203"

lemmas errno_defs = EPERM_def EAGAIN_def ENOMEM_def EINVAL_def ECAPBILITY_def ENOMAPPING_def

section \<open>Rounding macros\<close>

definition ROUND_UP :: "u64 \<Rightarrow> u64 \<Rightarrow> u64" where
  "ROUND_UP x n = (x + n - 1) AND NOT (n - 1)"

definition ROUND_DOWN :: "u64 \<Rightarrow> u64 \<Rightarrow> u64" where
  "ROUND_DOWN x n = x AND NOT (n - 1)"

definition DIV_ROUND_UP :: "nat \<Rightarrow> nat \<Rightarrow> nat" where
  "DIV_ROUND_UP n d = (n + d - 1) div d"

lemma DIV_ROUND_UP_mult [simp]: "0 < d \<Longrightarrow> DIV_ROUND_UP (k * d) d = k"
  unfolding DIV_ROUND_UP_def
  by (metis Nat.add_diff_assoc One_nat_def Suc_leI add.commute diff_less div_less div_mult_self3
      less_irrefl_nat add_0 zero_less_one)

text \<open>Rounding to a power of two, read on natural numbers.\<close>

lemma ROUND_DOWN_bits: "ROUND_DOWN x (2 ^ k) = push_bit k (drop_bit k x)"
proof -
  have "NOT (2 ^ k - 1) = (NOT (mask k) :: u64)"
    by (simp add: mask_eq_exp_minus_1)
  then show ?thesis
    unfolding ROUND_DOWN_def
    by (intro bit_eqI) (auto simp: bit_simps)
qed

lemma ROUND_UP_DOWN: "ROUND_UP x n = ROUND_DOWN (x + (n - 1)) n"
  by (simp add: ROUND_UP_def ROUND_DOWN_def algebra_simps)

lemma unat_ROUND_DOWN: "unat (ROUND_DOWN x (2 ^ k)) = unat x div 2 ^ k * 2 ^ k"
proof -
  have "unat x < 2 ^ 64" using unsigned_less [of x, where ?'a = nat] by simp
  moreover have "unat x div 2 ^ k * 2 ^ k \<le> unat x" by simp
  ultimately have lt: "unat x div 2 ^ k * 2 ^ k < 2 ^ 64" by linarith
  have "unat (ROUND_DOWN x (2 ^ k)) = take_bit 64 (unat x div 2 ^ k * 2 ^ k)"
    unfolding ROUND_DOWN_bits unsigned_push_bit_eq unat_drop_bit_eq by (simp add: push_bit_eq_mult drop_bit_eq_div)
  also have "\<dots> = unat x div 2 ^ k * 2 ^ k"
    using lt by (simp add: take_bit_nat_eq_self)
  finally show ?thesis .
qed

lemma unat_add_lt: "unat x + unat y < 2 ^ 64 \<Longrightarrow> unat (x + y :: u64) = unat x + unat y"
  by (simp add: unat_word_ariths)

lemma unat_plus_one:
  assumes "x \<noteq> (-1 :: u64)"
  shows "unat (x + 1) = Suc (unat x)"
proof -
  have "unat x \<noteq> unat (-1 :: u64)" using assms by (simp only: word_unat_eq_iff simp_thms)
  moreover have "unat (-1 :: u64) = 2 ^ 64 - 1" by (simp add: unsigned_minus_1_eq_mask mask_eq_exp_minus_1)
  moreover have "unat x < 2 ^ 64" using unsigned_less [of x, where ?'a = nat] by simp
  ultimately have "unat x + unat (1 :: u64) < 2 ^ 64" by simp
  then show ?thesis using unat_add_lt [of x 1] by simp
qed

lemma unat_mult_lt: "unat x * unat y < 2 ^ 64 \<Longrightarrow> unat (x * y :: u64) = unat x * unat y"
  by (simp add: unat_word_ariths)

lemma unat_ROUND_UP_4096:
  assumes "unat x + 4095 < 2 ^ 64"
  shows "unat (ROUND_UP x 4096) = (unat x + 4095) div 4096 * 4096"
proof -
  have "ROUND_UP x (2 ^ 12) = ROUND_DOWN (x + 4095) (2 ^ 12)" by (simp add: ROUND_UP_DOWN)
  moreover have "unat (x + 4095) = unat x + 4095" using unat_add_lt [of x 4095] assms by simp
  ultimately show ?thesis using unat_ROUND_DOWN [of "x + 4095" 12] by simp
qed

end
