(* ===== verification/Kernel_List.thy ===== *)
theory Kernel_List
  imports Prelude
begin

text \<open>
  The intrusive lists of \<^verbatim>\<open>kernel/include/common/list.h\<close>, on an explicit heap of
  link cells. Every node carries a \<open>prv\<close> and a \<open>nxt\<close> pointer; a list is the ring
  through a head node. Each operation writes the pointers in the order of the C code.
  The lemmas show that on a well-formed ring the pointer operations are the list
  operations the other components use: \<^verbatim>\<open>list_add\<close> puts a node right after
  another, \<^verbatim>\<open>list_append\<close> right before it, \<^verbatim>\<open>list_del\<close> takes a node out,
  other rings stay as they are, and \<^verbatim>\<open>for_each_in_list\<close> visits the elements in
  ring order. The last section has the chains that end in a null pointer, which the
  slab allocator and the hash lists use.
\<close>

section \<open>Doubly linked rings\<close>

record 'n link =
  prv :: 'n
  nxt :: 'n

type_synonym 'n lheap = "'n \<Rightarrow> 'n link"

definition set_nxt :: "'n \<Rightarrow> 'n \<Rightarrow> 'n lheap \<Rightarrow> 'n lheap" where
  "set_nxt p v h = h(p := (h p)\<lparr>nxt := v\<rparr>)"

definition set_prv :: "'n \<Rightarrow> 'n \<Rightarrow> 'n lheap \<Rightarrow> 'n lheap" where
  "set_prv p v h = h(p := (h p)\<lparr>prv := v\<rparr>)"

definition init_list_head :: "'n \<Rightarrow> 'n lheap \<Rightarrow> 'n lheap" where
  "init_list_head l h = set_prv l l (set_nxt l l h)"

definition list_add :: "'n \<Rightarrow> 'n \<Rightarrow> 'n lheap \<Rightarrow> 'n lheap" where
  "list_add new head h =
     (let h1 = set_nxt new (nxt (h head)) h;
          h2 = set_prv new head h1;
          h3 = set_prv (nxt (h2 head)) new h2
      in set_nxt head new h3)"

definition list_append :: "'n \<Rightarrow> 'n \<Rightarrow> 'n lheap \<Rightarrow> 'n lheap" where
  "list_append new head h = (let tail = prv (h head) in list_add new tail h)"

definition list_del :: "'n \<Rightarrow> 'n lheap \<Rightarrow> 'n lheap" where
  "list_del node h =
     (let h1 = set_nxt (prv (h node)) (nxt (h node)) h
      in set_prv (nxt (h1 node)) (prv (h1 node)) h1)"

definition list_empty :: "'n \<Rightarrow> 'n lheap \<Rightarrow> bool" where
  "list_empty head h \<longleftrightarrow> nxt (h head) = head"

text \<open>
  \<^verbatim>\<open>for_each_in_list\<close>: start at the successor of the head and follow \<open>nxt\<close> until
  the head comes round again. The fuel bounds the number of iterations.
\<close>

fun walk_from :: "nat \<Rightarrow> 'n \<Rightarrow> 'n \<Rightarrow> 'n lheap \<Rightarrow> 'n list option" where
  "walk_from 0 head elem h = None"
| "walk_from (Suc fuel) head elem h =
     (if elem = head then Some []
      else map_option (\<lambda>xs. elem # xs) (walk_from fuel head (nxt (h elem)) h))"

definition for_each_in_list :: "nat \<Rightarrow> 'n \<Rightarrow> 'n lheap \<Rightarrow> 'n list option" where
  "for_each_in_list fuel head h = walk_from fuel head (nxt (h head)) h"

text \<open>\<open>links h xs\<close>: neighbours in \<open>xs\<close> point at each other.\<close>

fun links :: "'n lheap \<Rightarrow> 'n list \<Rightarrow> bool" where
  "links h (a # b # xs) \<longleftrightarrow> nxt (h a) = b \<and> prv (h b) = a \<and> links h (b # xs)"
| "links h _ \<longleftrightarrow> True"

definition ring :: "'n lheap \<Rightarrow> 'n \<Rightarrow> 'n list \<Rightarrow> bool" where
  "ring h head xs \<longleftrightarrow> distinct (head # xs) \<and> links h (head # xs @ [head])"

lemma set_nxt_simps [simp]:
  "nxt (set_nxt p v h q) = (if q = p then v else nxt (h q))"
  "prv (set_nxt p v h q) = prv (h q)"
  by (auto simp: set_nxt_def)

lemma set_prv_simps [simp]:
  "prv (set_prv p v h q) = (if q = p then v else prv (h q))"
  "nxt (set_prv p v h q) = nxt (h q)"
  by (auto simp: set_prv_def)

lemma list_add_fields:
  assumes "new \<noteq> head"
  shows "nxt (list_add new head h q) = (if q = head then new else if q = new then nxt (h head) else nxt (h q))"
    and "prv (list_add new head h q) =
           (if q = nxt (h head) then new else if q = new then head else prv (h q))"
  using assms by (auto simp: list_add_def Let_def)

lemma list_del_fields:
  assumes "nxt (h node) \<noteq> node" "prv (h node) \<noteq> node"
  shows "nxt (list_del node h q) = (if q = prv (h node) then nxt (h node) else nxt (h q))"
    and "prv (list_del node h q) = (if q = nxt (h node) then prv (h node) else prv (h q))"
  using assms by (auto simp: list_del_def Let_def)

lemma links_append:
  "links h (xs @ a # ys) \<longleftrightarrow> links h (xs @ [a]) \<and> links h (a # ys)"
proof (induction xs)
  case Nil
  then show ?case by (cases ys) auto
next
  case (Cons x xs)
  then show ?case by (cases xs) auto
qed

lemma links_Cons_append:
  "links h (a # xs @ b # ys) \<longleftrightarrow> links h (a # xs @ [b]) \<and> links h (b # ys)"
  using links_append [of h "a # xs" b ys] by simp

lemma links_cong:
  assumes "\<And>q. q \<in> set (butlast xs) \<Longrightarrow> nxt (h' q) = nxt (h q)"
    and "\<And>q. q \<in> set (tl xs) \<Longrightarrow> prv (h' q) = prv (h q)"
  shows "links h' xs \<longleftrightarrow> links h xs"
  using assms
proof (induction xs rule: links.induct)
  case (1 h a b xs)
  then show ?case by (cases xs) auto
qed auto

lemma ring_nodes:
  assumes "ring h head xs"
  shows "nxt (h head) = (case xs of [] \<Rightarrow> head | x # _ \<Rightarrow> x)"
    and "prv (h head) = last (head # xs)"
proof -
  show "nxt (h head) = (case xs of [] \<Rightarrow> head | x # _ \<Rightarrow> x)"
    using assms by (cases xs) (auto simp: ring_def)
  show "prv (h head) = last (head # xs)"
  proof (cases xs rule: rev_cases)
    case Nil
    with assms show ?thesis by (simp add: ring_def)
  next
    case (snoc us l)
    with assms show ?thesis
      using links_Cons_append [of h head us l "[head]"] by (simp add: ring_def)
  qed
qed

lemma ring_init: "ring (init_list_head l h) l []"
  by (simp add: ring_def init_list_head_def)

lemma ring_empty: "ring h head xs \<Longrightarrow> list_empty head h \<longleftrightarrow> xs = []"
  by (cases xs) (auto simp: ring_def list_empty_def)

lemma ring_unique: "ring h head xs \<Longrightarrow> ring h head ys \<Longrightarrow> xs = ys"
proof -
  have aux: "links h (a # xs @ [head]) \<Longrightarrow> links h (a # ys @ [head]) \<Longrightarrow>
      head \<notin> set xs \<Longrightarrow> head \<notin> set ys \<Longrightarrow> xs = ys" for a
  proof (induction xs arbitrary: ys a)
    case Nil
    then show ?case by (cases ys) auto
  next
    case (Cons x xs)
    then show ?case by (cases ys) auto
  qed
  assume "ring h head xs" "ring h head ys"
  then show ?thesis using aux by (auto simp: ring_def)
qed

text \<open>A ring can be read from any of its nodes.\<close>

lemma ring_rotate: "ring h head (ys @ x # zs) \<Longrightarrow> ring h x (zs @ head # ys)"
  unfolding ring_def
  using links_Cons_append [of h head ys x "zs @ [head]"]
    links_Cons_append [of h x zs head "ys @ [x]"]
  by auto

lemma ring_list_add:
  assumes r: "ring h head xs" and new: "new \<noteq> head" "new \<notin> set xs"
  shows "ring (list_add new head h) head (new # xs)"
proof (cases xs)
  case Nil
  with r new show ?thesis by (auto simp: ring_def list_add_fields)
next
  case (Cons x ys)
  have x: "nxt (h head) = x" using ring_nodes [OF r] Cons by simp
  have "links (list_add new head h) (x # ys @ [head]) \<longleftrightarrow> links h (x # ys @ [head])"
    using r new x Cons
    by (intro links_cong) (auto simp: ring_def list_add_fields butlast_append)
  then show ?thesis
    using r new x Cons by (auto simp: ring_def list_add_fields)
qed

lemma ring_list_del_head:
  assumes r: "ring h x (w # ws)"
  shows "ring (list_del x h) w ws"
proof -
  have n: "nxt (h x) = w" and p: "prv (h x) = last (w # ws)"
    using ring_nodes [OF r] by auto
  have ne: "w \<noteq> x" "last (w # ws) \<noteq> x"
    using r by (auto simp: ring_def)
  have f: "nxt (list_del x h q) = (if q = last (w # ws) then w else nxt (h q))"
    "prv (list_del x h q) = (if q = w then last (w # ws) else prv (h q))" for q
    using list_del_fields [of h x] n p ne by auto
  show ?thesis
  proof (cases ws rule: rev_cases)
    case Nil
    then show ?thesis by (simp add: ring_def f)
  next
    case (snoc us l)
    have "links (list_del x h) (w # us @ [l]) \<longleftrightarrow> links h (w # us @ [l])"
      using r snoc by (intro links_cong) (auto simp: f ring_def butlast_append)
    moreover have "links h (w # us @ [l])"
      using r snoc links_Cons_append [of h w us l "[x]"] by (auto simp: ring_def)
    ultimately show ?thesis
      using r snoc links_Cons_append [of "list_del x h" w us l "[w]"]
      by (auto simp: ring_def f)
  qed
qed

text \<open>The operations at any position of a ring.\<close>

theorem list_add_after:
  assumes r: "ring h head (ys @ p # zs)" and new: "new \<noteq> head" "new \<notin> set (ys @ p # zs)"
  shows "ring (list_add new p h) head (ys @ p # new # zs)"
proof -
  have "ring (list_add new p h) p ((new # zs) @ head # ys)"
    using ring_list_add [OF ring_rotate [OF r], of new] new by simp
  from ring_rotate [OF this] show ?thesis by simp
qed

theorem list_append_last:
  assumes r: "ring h head xs" and new: "new \<noteq> head" "new \<notin> set xs"
  shows "ring (list_append new head h) head (xs @ [new])"
proof (cases xs rule: rev_cases)
  case Nil
  then show ?thesis
    using ring_list_add [OF r new] ring_nodes(2) [OF r] by (simp add: list_append_def)
next
  case (snoc us l)
  then have "prv (h head) = l" using ring_nodes(2) [OF r] by simp
  then show ?thesis
    using list_add_after [of h head us l "[]" new] r new snoc by (simp add: list_append_def)
qed

theorem list_append_before:
  assumes r: "ring h head (ys @ p # zs)" and new: "new \<noteq> head" "new \<notin> set (ys @ p # zs)"
  shows "ring (list_append new p h) head (ys @ new # p # zs)"
proof -
  have "ring (list_append new p h) p (zs @ head # ys @ [new])"
    using list_append_last [OF ring_rotate [OF r], of new] new by simp
  from ring_rotate [OF this] show ?thesis by simp
qed

theorem list_del_ring:
  assumes "ring h head (ys @ x # zs)"
  shows "ring (list_del x h) head (ys @ zs)"
proof (cases zs)
  case Nil
  then show ?thesis
    using ring_list_del_head [of h x head ys] ring_rotate [OF assms] by simp
next
  case (Cons z zs')
  then have "ring (list_del x h) z (zs' @ head # ys)"
    using ring_list_del_head [of h x z "zs' @ head # ys"] ring_rotate [OF assms] by simp
  from ring_rotate [OF this] show ?thesis using Cons by simp
qed

text \<open>An operation on one ring leaves a disjoint ring alone.\<close>

lemma list_add_frame: "q \<noteq> new \<Longrightarrow> q \<noteq> head \<Longrightarrow> q \<noteq> nxt (h head) \<Longrightarrow> list_add new head h q = h q"
  by (auto simp: list_add_def Let_def set_nxt_def set_prv_def)

lemma list_del_frame: "q \<noteq> prv (h x) \<Longrightarrow> q \<noteq> nxt (h x) \<Longrightarrow> x \<noteq> prv (h x) \<Longrightarrow> list_del x h q = h q"
  by (auto simp: list_del_def Let_def set_nxt_def set_prv_def)

lemma ring_next_in: "ring h head (ys @ x # zs) \<Longrightarrow> nxt (h x) \<in> insert head (set (ys @ x # zs))"
  using ring_nodes(1) [OF ring_rotate, of h head ys x zs] by (cases zs) auto

lemma ring_prev_in: "ring h head (ys @ x # zs) \<Longrightarrow> prv (h x) \<in> insert head (set (ys @ zs))"
  using ring_nodes(2) [OF ring_rotate, of h head ys x zs]
  by (cases ys rule: rev_cases) auto

theorem list_add_other_ring:
  assumes "ring h head xs" "ring h head' ys" "new \<noteq> head'" "new \<notin> set ys"
    and "insert head (set xs) \<inter> insert head' (set ys) = {}"
  shows "ring (list_add new head h) head' ys"
proof -
  have "nxt (h head) \<in> insert head (set xs)"
    using ring_nodes(1) [OF assms(1)] by (auto split: list.splits)
  then have "list_add new head h q = h q" if "q \<in> insert head' (set ys)" for q
    using assms(3-5) that by (intro list_add_frame) auto
  then show ?thesis
    using assms(2) unfolding ring_def
    by (subst links_cong [where h = h]) (auto dest: in_set_butlastD)
qed

theorem list_del_other_ring:
  assumes "ring h head (xs @ x # zs)" "ring h head' ys"
    and "insert head (set (xs @ x # zs)) \<inter> insert head' (set ys) = {}"
  shows "ring (list_del x h) head' ys"
proof -
  have p: "prv (h x) \<in> insert head (set (xs @ zs))" by (rule ring_prev_in [OF assms(1)])
  have n: "nxt (h x) \<in> insert head (set (xs @ x # zs))" by (rule ring_next_in [OF assms(1)])
  have "x \<notin> insert head (set (xs @ zs))" using assms(1) by (auto simp: ring_def)
  then have x: "x \<noteq> prv (h x)" using p by metis
  have "list_del x h q = h q" if q: "q \<in> insert head' (set ys)" for q
  proof -
    have "q \<notin> insert head (set (xs @ x # zs))" using assms(3) q by blast
    then have "q \<noteq> prv (h x)" "q \<noteq> nxt (h x)" using p n by auto
    then show ?thesis using x by (rule list_del_frame)
  qed
  then have same: "nxt (list_del x h q) = nxt (h q)" "prv (list_del x h q) = prv (h q)"
    if "q \<in> insert head' (set ys)" for q
    using that by simp_all
  have "links (list_del x h) (head' # ys @ [head']) \<longleftrightarrow> links h (head' # ys @ [head'])"
    by (rule links_cong) (rule same, auto dest: in_set_butlastD)+
  then show ?thesis
    using assms(2) by (simp add: ring_def)
qed

text \<open>Iteration visits the elements in order and needs one round per element.\<close>

lemma walk_links:
  "links h (x # xs @ [head]) \<Longrightarrow> head \<notin> set (x # xs) \<Longrightarrow> length xs + 1 < fuel \<Longrightarrow>
   walk_from fuel head x h = Some (x # xs)"
proof (induction xs arbitrary: x fuel)
  case Nil
  then obtain f where "fuel = Suc (Suc f)"
    by (cases fuel; cases "fuel - 1") auto
  with Nil show ?case by simp
next
  case (Cons y ys)
  then obtain f where "fuel = Suc f" by (cases fuel) auto
  with Cons show ?case by auto
qed

theorem for_each_in_list_ring:
  assumes "ring h head xs" and "length xs < fuel"
  shows "for_each_in_list fuel head h = Some xs"
proof (cases xs)
  case Nil
  with assms show ?thesis by (cases fuel) (auto simp: for_each_in_list_def ring_def)
next
  case (Cons x ys)
  with assms show ?thesis
    using walk_links [of h x ys head fuel] by (auto simp: for_each_in_list_def ring_def)
qed

section \<open>Chains that end in a null pointer\<close>

fun chain :: "'n \<Rightarrow> ('n \<Rightarrow> 'n) \<Rightarrow> 'n \<Rightarrow> 'n list \<Rightarrow> bool" where
  "chain null nx p [] \<longleftrightarrow> p = null"
| "chain null nx p (x # xs) \<longleftrightarrow> p = x \<and> x \<noteq> null \<and> chain null nx (nx x) xs"

lemma chain_null [simp]: "chain null nx null xs \<longleftrightarrow> xs = []"
  by (cases xs) auto

lemma chain_nonnull: "p \<noteq> null \<Longrightarrow> chain null nx p xs \<longleftrightarrow> (\<exists>ys. xs = p # ys \<and> chain null nx (nx p) ys)"
  by (cases xs) auto

lemma chain_not_null: "chain null nx p xs \<Longrightarrow> null \<notin> set xs"
  by (induction xs arbitrary: p) auto

lemma chain_unique: "chain null nx p xs \<Longrightarrow> chain null nx p ys \<Longrightarrow> xs = ys"
proof (induction xs arbitrary: p ys)
  case (Cons x xs)
  then show ?case by (cases ys) auto
qed (cases ys, auto)

lemma chain_split: "chain null nx p (xs @ y # ys) \<Longrightarrow> chain null nx y (y # ys)"
  by (induction xs arbitrary: p) auto

lemma chain_distinct: "chain null nx p xs \<Longrightarrow> distinct xs"
proof (induction xs arbitrary: p)
  case (Cons x xs)
  have "x \<notin> set xs"
  proof
    assume "x \<in> set xs"
    then obtain us vs where xs: "xs = us @ x # vs" by (auto simp: in_set_conv_decomp)
    have "chain null nx x (x # xs)" using Cons.prems by simp
    moreover have "chain null nx x (x # vs)"
      using Cons.prems chain_split [of null nx "nx x" us x vs] xs by simp
    ultimately have "x # xs = x # vs" by (rule chain_unique)
    then show False using xs by simp
  qed
  then show ?case using Cons by auto
qed simp

lemma chain_cong: "(\<And>x. x \<in> set xs \<Longrightarrow> nx' x = nx x) \<Longrightarrow> chain null nx' p xs = chain null nx p xs"
  by (induction xs arbitrary: p) auto

lemma chain_upd: "x \<notin> set xs \<Longrightarrow> chain null (nx(x := v)) p xs = chain null nx p xs"
  by (rule chain_cong) auto

lemma chain_push:
  "chain null nx p xs \<Longrightarrow> x \<notin> set xs \<Longrightarrow> x \<noteq> null \<Longrightarrow> chain null (nx(x := p)) x (x # xs)"
  by (simp add: chain_upd)

end
