(* ===== verification/Bitops.thy ===== *)
theory Bitops
  imports Prelude
begin

text \<open>
  The bitmaps of \<^verbatim>\<open>kernel/include/common/bitops.h\<close>: arrays of 64-bit words, set,
  read and searched word by word. An index beyond the array is a \<open>Bad_Access\<close>. The
  search of \<^verbatim>\<open>__find_next_bit\<close>, which masks the first word, skips zero words
  and counts trailing zeros in the first other one, is shown to return the least matching
  bit, or the size when there is none.
\<close>

type_synonym bitmap = "u64 list"

definition BITS_PER_LONG :: nat where
  "BITS_PER_LONG = 64"

definition BITS_TO_LONGS :: "nat \<Rightarrow> nat" where
  "BITS_TO_LONGS nr = DIV_ROUND_UP nr BITS_PER_LONG"

definition set_bit_c :: "nat \<Rightarrow> bitmap \<Rightarrow> bitmap res" where
  "set_bit_c nr p =
     (let nlongs = nr div BITS_PER_LONG; ilongs = nr mod BITS_PER_LONG
      in bind_res (nth_res p nlongs) (\<lambda>w. upd_res p nlongs (w OR push_bit ilongs 1)))"

definition get_bit :: "nat \<Rightarrow> bitmap \<Rightarrow> bool res" where
  "get_bit nr p =
     (let nlongs = nr div BITS_PER_LONG; ilongs = nr mod BITS_PER_LONG
      in bind_res (nth_res p nlongs) (\<lambda>w. Inr (drop_bit ilongs w AND 1 \<noteq> 0)))"

definition clear_bit :: "nat \<Rightarrow> bitmap \<Rightarrow> bitmap res" where
  "clear_bit nr p =
     (let nlongs = nr div BITS_PER_LONG; ilongs = nr mod BITS_PER_LONG
      in bind_res (nth_res p nlongs) (\<lambda>w. upd_res p nlongs (w AND NOT (push_bit ilongs 1))))"

text \<open>
  \<^verbatim>\<open>ctzl\<close>: the number of trailing zero bits, and (as in the source) the byte size of a
  word for zero.
\<close>

definition ctzl :: "u64 \<Rightarrow> nat" where
  "ctzl x = (if x = 0 then 8 else length (takeWhile (\<lambda>i. \<not> bit x i) [0..<64]))"

function find_next_loop :: "bitmap \<Rightarrow> nat \<Rightarrow> nat \<Rightarrow> u64 \<Rightarrow> u64 \<Rightarrow> nat res" where
  "find_next_loop p sz start invert tmp =
     (if tmp = 0 then
        (let start' = start + BITS_PER_LONG
         in if sz \<le> start' then Inr sz
            else bind_res (nth_res p (start' div BITS_PER_LONG))
                   (\<lambda>w. find_next_loop p sz start' invert (w XOR invert)))
      else Inr (min (start + ctzl tmp) sz))"
  by pat_completeness auto
termination
  by (relation "measure (\<lambda>(p, sz, start, invert, tmp). sz - start)")
     (auto simp: BITS_PER_LONG_def)

declare find_next_loop.simps [simp del]

definition find_next_bit_inv :: "bitmap \<Rightarrow> nat \<Rightarrow> nat \<Rightarrow> u64 \<Rightarrow> nat res" where
  "find_next_bit_inv p sz start invert =
     (if sz \<le> start then Inr sz
      else bind_res (nth_res p (start div BITS_PER_LONG))
             (\<lambda>w. let tmp = (w XOR invert) AND NOT (push_bit (start mod BITS_PER_LONG) 1 - 1)
                  in find_next_loop p sz (start div BITS_PER_LONG * BITS_PER_LONG) invert tmp))"

definition find_next_zero_bit :: "bitmap \<Rightarrow> nat \<Rightarrow> nat \<Rightarrow> nat res" where
  "find_next_zero_bit p sz start = find_next_bit_inv p sz start (NOT 0)"

definition find_next_bit :: "bitmap \<Rightarrow> nat \<Rightarrow> nat \<Rightarrow> nat res" where
  "find_next_bit p sz start = find_next_bit_inv p sz start 0"

text \<open>The bit a bitmap holds at an index.\<close>

definition bmp :: "bitmap \<Rightarrow> nat \<Rightarrow> bool" where
  "bmp p i \<longleftrightarrow> bit (p ! (i div 64)) (i mod 64)"

lemma word_index: "64 * k \<le> i \<Longrightarrow> i < 64 * k + 64 \<Longrightarrow> i div 64 = k \<and> i mod 64 = i - 64 * k"
  for i k :: nat
proof -
  assume "64 * k \<le> i" "i < 64 * k + 64"
  then have "i div 64 = k" by (intro div_nat_eqI) simp_all
  then show ?thesis using minus_mult_div_eq_mod [of i 64] by simp
qed

lemma set_bit_c_in:
  assumes "nr < 64 * length p"
  shows "\<exists>q. set_bit_c nr p = Inr q \<and> length q = length p \<and>
             (\<forall>i < 64 * length p. bmp q i \<longleftrightarrow> i = nr \<or> bmp p i)"
proof -
  have n: "nr div 64 < length p" using assms by auto
  have "i div 64 = nr div 64 \<Longrightarrow> i mod 64 = nr mod 64 \<longleftrightarrow> i = nr" for i
    by (metis div_mult_mod_eq)
  then show ?thesis
    using n by (auto simp: set_bit_c_def BITS_PER_LONG_def Let_def bmp_def bit_simps nth_list_update)
qed

lemma clear_bit_in:
  assumes "nr < 64 * length p"
  shows "\<exists>q. clear_bit nr p = Inr q \<and> length q = length p \<and>
             (\<forall>i < 64 * length p. bmp q i \<longleftrightarrow> i \<noteq> nr \<and> bmp p i)"
proof -
  have n: "nr div 64 < length p" using assms by auto
  have "i div 64 = nr div 64 \<Longrightarrow> i mod 64 = nr mod 64 \<longleftrightarrow> i = nr" for i
    by (metis div_mult_mod_eq)
  then show ?thesis
    using n by (auto simp: clear_bit_def BITS_PER_LONG_def Let_def bmp_def bit_simps nth_list_update)
qed

lemma get_bit_in [simp]: "nr < 64 * length p \<Longrightarrow> get_bit nr p = Inr (bmp p nr)"
proof -
  assume "nr < 64 * length p"
  then have n: "nr div 64 < length p" by auto
  have "drop_bit k w AND 1 \<noteq> 0 \<longleftrightarrow> bit w k" for k and w :: u64
    by (simp add: and_one_eq bit_iff_odd_drop_bit odd_iff_mod_2_eq_one)
  with n show ?thesis by (simp add: get_bit_def BITS_PER_LONG_def Let_def bmp_def)
qed

lemma ctzl_least:
  assumes "x \<noteq> 0"
  shows "bit x (ctzl x)" "ctzl x < 64" "j < ctzl x \<Longrightarrow> \<not> bit x j"
proof -
  let ?t = "takeWhile (\<lambda>i. \<not> bit x i) [0..<64]"
  obtain n where n: "bit x n" using assms by (auto simp: bit_eq_iff)
  then have "n < 64" using bit_imp_le_length [of x n] by simp
  with n have "0 < length (dropWhile (\<lambda>i. \<not> bit x i) [0..<64])"
    by (auto simp: dropWhile_eq_Nil_conv simp flip: length_greater_0_conv)
  moreover have "length ?t + length (dropWhile (\<lambda>i. \<not> bit x i) [0..<64]) = 64"
    by (metis diff_zero length_append length_upt takeWhile_dropWhile_id)
  ultimately have lt: "length ?t < length [0..<64]"
    by (metis diff_zero length_upt less_add_same_cancel1)
  then have "bit x ([0..<64] ! length ?t)" using nth_length_takeWhile [OF lt] by simp
  with lt show "bit x (ctzl x)" "ctzl x < 64" using assms by (auto simp: ctzl_def)
  assume "j < ctzl x"
  then have j: "j < length ?t" using assms by (simp add: ctzl_def)
  then have "?t ! j = j" using lt by (subst takeWhile_nth) auto
  with j show "\<not> bit x j" using set_takeWhileD [OF nth_mem [OF j]] by metis
qed


text \<open>
  The loop: starting at a word boundary, with \<open>tmp\<close> in place of the word at that
  boundary, it finds the first set bit of \<open>tmp\<close> or of a later word.
\<close>

definition scan_bit :: "bitmap \<Rightarrow> u64 \<Rightarrow> nat \<Rightarrow> u64 \<Rightarrow> nat \<Rightarrow> bool" where
  "scan_bit p invert start tmp i \<longleftrightarrow>
     (if i < start + 64 then bit tmp (i - start)
      else bit (p ! (i div 64) XOR invert) (i mod 64))"

lemma find_next_loop_correct:
  assumes "64 dvd start" "start < sz" "sz \<le> 64 * length p"
  shows "\<exists>r. find_next_loop p sz start invert tmp = Inr r \<and> start \<le> r \<and> r \<le> sz \<and>
           (\<forall>i. start \<le> i \<and> i < r \<longrightarrow> \<not> scan_bit p invert start tmp i) \<and>
           (r < sz \<longrightarrow> scan_bit p invert start tmp r)"
  using assms
proof (induction p sz start invert tmp rule: find_next_loop.induct)
  case (1 p sz start invert tmp)
  show ?case
  proof (cases "tmp = 0")
    case False
    note c = ctzl_least [OF False]
    let ?r = "min (start + ctzl tmp) sz"
    have "find_next_loop p sz start invert tmp = Inr ?r"
      using False by (subst find_next_loop.simps) simp
    moreover have "\<not> scan_bit p invert start tmp i" if "start \<le> i" "i < ?r" for i
    proof -
      have "i - start < ctzl tmp" using that by auto
      with c(2,3) show ?thesis by (auto simp: scan_bit_def)
    qed
    ultimately show ?thesis using c 1(3) by (auto simp: scan_bit_def min_def)
  next
    case True
    show ?thesis
    proof (cases "sz \<le> start + 64")
      case big: True
      then have "find_next_loop p sz start invert tmp = Inr sz"
        using True by (subst find_next_loop.simps) (simp add: BITS_PER_LONG_def)
      then show ?thesis using True big 1(3) by (auto simp: scan_bit_def)
    next
      case False
      then have n: "(start + 64) div 64 < length p" using 1(2,4) by auto
      let ?w = "p ! ((start + 64) div 64) XOR invert"
      have "\<exists>r. find_next_loop p sz (start + 64) invert ?w = Inr r \<and> start + 64 \<le> r \<and> r \<le> sz \<and>
          (\<forall>i. start + 64 \<le> i \<and> i < r \<longrightarrow> \<not> scan_bit p invert (start + 64) ?w i) \<and>
          (r < sz \<longrightarrow> scan_bit p invert (start + 64) ?w r)"
        using False n 1(2,4)
        by (intro 1(1) [OF True]) (simp_all add: BITS_PER_LONG_def)
      then obtain r where r: "find_next_loop p sz (start + 64) invert ?w = Inr r"
        "start + 64 \<le> r" "r \<le> sz"
        "\<And>i. start + 64 \<le> i \<Longrightarrow> i < r \<Longrightarrow> \<not> scan_bit p invert (start + 64) ?w i"
        "r < sz \<Longrightarrow> scan_bit p invert (start + 64) ?w r"
        by blast
      have w: "bit ?w (i - (start + 64)) \<longleftrightarrow> bit (p ! (i div 64) XOR invert) (i mod 64)"
        if "start + 64 \<le> i" "i < start + 64 + 64" for i
      proof -
        from 1(2) obtain k where k: "start = 64 * k" ..
        with that have "i div 64 = (start + 64) div 64" "i mod 64 = i - (start + 64)"
          using word_index [of "k + 1" i] by simp_all
        then show ?thesis by simp
      qed
      have s: "scan_bit p invert (start + 64) ?w i \<longleftrightarrow> scan_bit p invert start tmp i"
        if "start + 64 \<le> i" for i
        using w [of i] that by (auto simp: scan_bit_def)
      have "find_next_loop p sz start invert tmp = Inr r"
        using r(1) True False n by (subst find_next_loop.simps) (simp add: BITS_PER_LONG_def)
      moreover have "\<not> scan_bit p invert start tmp i" if "start \<le> i" "i < r" for i
        using that r(4) s [of i] True by (cases "start + 64 \<le> i") (auto simp: scan_bit_def)
      ultimately show ?thesis using r s by auto
    qed
  qed
qed

lemma find_next_bit_inv_correct:
  assumes "sz \<le> 64 * length p"
  shows "\<exists>r. find_next_bit_inv p sz start invert = Inr r \<and> min start sz \<le> r \<and> r \<le> sz \<and>
           (\<forall>i. start \<le> i \<and> i < r \<longrightarrow> \<not> bit (p ! (i div 64) XOR invert) (i mod 64)) \<and>
           (r < sz \<longrightarrow> bit (p ! (r div 64) XOR invert) (r mod 64))"
proof (cases "sz \<le> start")
  case True
  then show ?thesis by (auto simp: find_next_bit_inv_def)
next
  case False
  let ?s = "start div 64 * 64"
  let ?t = "(p ! (start div 64) XOR invert) AND NOT (push_bit (start mod 64) 1 - 1)"
  have n: "start div 64 < length p" using False assms by auto
  have t: "bit ?t j \<longleftrightarrow> start mod 64 \<le> j \<and> j < 64 \<and> bit (p ! (start div 64) XOR invert) j" for j
  proof -
    have "push_bit (start mod 64) 1 - 1 = (mask (start mod 64) :: u64)"
      by (simp add: mask_eq_exp_minus_1 push_bit_eq_mult)
    then show ?thesis by (auto simp: bit_simps dest: bit_imp_le_length)
  qed
  have le: "?s \<le> start" by simp
  with False have lt: "?s < sz" by linarith
  have dv: "64 dvd ?s" by simp
  from find_next_loop_correct [OF dv lt assms, of invert ?t]
  obtain r where r: "find_next_loop p sz ?s invert ?t = Inr r" "?s \<le> r" "r \<le> sz"
      "\<And>i. ?s \<le> i \<Longrightarrow> i < r \<Longrightarrow> \<not> scan_bit p invert ?s ?t i"
      "r < sz \<Longrightarrow> scan_bit p invert ?s ?t r"
    by blast
  have s: "scan_bit p invert ?s ?t i \<longleftrightarrow>
      start \<le> i \<and> bit (p ! (i div 64) XOR invert) (i mod 64)" if "?s \<le> i" for i
  proof (cases "i < ?s + 64")
    case True
    with that have "i div 64 = start div 64" "i mod 64 = i - ?s"
      using word_index [of "start div 64" i] by (simp_all add: mult.commute)
    moreover have "start mod 64 \<le> i - ?s \<longleftrightarrow> start \<le> i"
      using that div_mult_mod_eq [of start 64] by linarith
    ultimately show ?thesis using True t [of "i - ?s"] that by (auto simp: scan_bit_def)
  next
    case False
    then show ?thesis by (auto simp: scan_bit_def)
  qed
  have "find_next_bit_inv p sz start invert = Inr r"
    using r(1) False n by (simp add: find_next_bit_inv_def BITS_PER_LONG_def)
  moreover have "min start sz \<le> r"
    using r(2,3,5) s [OF r(2)] by (cases "r < sz") auto
  moreover have "\<not> bit (p ! (i div 64) XOR invert) (i mod 64)" if "start \<le> i" "i < r" for i
    using r(4) [of i] s [of i] that le by simp
  moreover have "bit (p ! (r div 64) XOR invert) (r mod 64)" if "r < sz"
    using r(5) [OF that] s [OF r(2)] by simp
  ultimately show ?thesis using r(3) by blast
qed

lemma bmp_invert: "bit (NOT (p ! (i div 64))) (i mod 64) \<longleftrightarrow> \<not> bmp p i"
  by (auto simp: bmp_def bit_simps)

lemma find_next_zero_bit_correct:
  assumes "sz \<le> 64 * length p"
  shows "\<exists>r. find_next_zero_bit p sz start = Inr r \<and> min start sz \<le> r \<and> r \<le> sz \<and>
           (\<forall>i. start \<le> i \<and> i < r \<longrightarrow> bmp p i) \<and> (r < sz \<longrightarrow> \<not> bmp p r)"
  using find_next_bit_inv_correct [OF assms, of start "NOT 0"] assms
  unfolding find_next_zero_bit_def by (auto simp: bmp_invert)

lemma find_next_bit_correct:
  assumes "sz \<le> 64 * length p"
  shows "\<exists>r. find_next_bit p sz start = Inr r \<and> min start sz \<le> r \<and> r \<le> sz \<and>
           (\<forall>i. start \<le> i \<and> i < r \<longrightarrow> \<not> bmp p i) \<and> (r < sz \<longrightarrow> bmp p r)"
  using find_next_bit_inv_correct [OF assms, of start 0]
  unfolding find_next_bit_def bmp_def by auto

text \<open>The obvious search, bit by bit.\<close>

definition first_zero_bit :: "bitmap \<Rightarrow> nat \<Rightarrow> nat \<Rightarrow> nat" where
  "first_zero_bit p sz start = (case find (\<lambda>i. \<not> bmp p i) [start..<sz] of None \<Rightarrow> sz | Some i \<Rightarrow> i)"

lemma find_upt_Some:
  assumes "start \<le> r" "r < sz" "P r" "\<forall>i. start \<le> i \<and> i < r \<longrightarrow> \<not> P i"
  shows "find P [start..<sz] = Some r"
proof -
  have "[start..<sz] = [start..<r] @ r # [Suc r..<sz]"
    using assms(1,2) by (metis le_Suc_ex less_imp_le_nat upt_add_eq_append upt_conv_Cons)
  moreover have "find P [start..<r] = None" using assms(4) by (auto simp: find_None_iff)
  ultimately show ?thesis using assms(3) by (simp add: find_append)
qed



end
