(* ===== verification/Buddy.thy ===== *)
theory Buddy
  imports Prelude Kernel_List
begin

text \<open>
  The buddy page-frame allocator of \<^verbatim>\<open>kernel/mm/buddy.c\<close>.

  A \<^verbatim>\<open>struct page\<close> pointer is its index in the metadata array \<^verbatim>\<open>first_page\<close>;
  the array is a function from indices, so that the cells past \<open>page_num\<close> are there to
  be read, as they are in memory. The intrusive free lists are lists of indices: adding at
  the head is \<open>#\<close>, and unlinking a node takes it out of the list it is on (see the
  ring lemmas of \<^verbatim>\<open>Kernel_List\<close>). \<^verbatim>\<open>buddy_lock\<close> is taken and released
  inside each operation, so an operation is one step of the model.
\<close>

section \<open>Data\<close>

definition BUDDY_PAGE_SHIFT :: nat where "BUDDY_PAGE_SHIFT = 12"
definition BUDDY_PAGE_SIZE :: u64 where "BUDDY_PAGE_SIZE = push_bit BUDDY_PAGE_SHIFT 1"
definition BUDDY_MAX_ORDER :: nat where "BUDDY_MAX_ORDER = 14"

definition PG_head :: nat where "PG_head = 0"
definition PG_buddy :: nat where "PG_buddy = 1"

record page =
  pg_flags :: u64
  pg_order :: nat
  pg_slab :: u64

record free_list =
  fl_list :: "nat list"
  nr_free :: u64

record global_mem =
  page_num :: nat
  page_size :: u64
  start_addr :: u64
  end_addr :: u64
  free_lists :: "nat \<Rightarrow> free_list"
  pages :: "nat \<Rightarrow> page"

section \<open>Operations\<close>

definition set_page_order_buddy :: "nat \<Rightarrow> page \<Rightarrow> page" where
  "set_page_order_buddy ord p =
     p\<lparr>pg_order := ord, pg_flags := pg_flags p OR push_bit PG_buddy 1\<rparr>"

definition clear_page_order_buddy :: "page \<Rightarrow> page" where
  "clear_page_order_buddy p =
     p\<lparr>pg_order := 0, pg_flags := pg_flags p AND NOT (push_bit PG_buddy 1)\<rparr>"

definition get_buddy_page :: "nat \<Rightarrow> nat \<Rightarrow> nat" where
  "get_buddy_page page_idx ord = page_idx XOR push_bit ord 1"

definition get_merge_page :: "nat \<Rightarrow> nat \<Rightarrow> nat" where
  "get_merge_page page_idx ord = unset_bit ord page_idx"

definition check_buddy :: "page \<Rightarrow> nat \<Rightarrow> bool" where
  "check_buddy p ord \<longleftrightarrow> pg_flags p AND push_bit PG_buddy 1 \<noteq> 0 \<and> pg_order p = ord"

text \<open>
  The two list steps that the operations repeat: put a page on the free list of an order,
  counting it and marking it, and take it off again.
\<close>

definition upd_page :: "nat \<Rightarrow> (page \<Rightarrow> page) \<Rightarrow> global_mem \<Rightarrow> global_mem" where
  "upd_page i f z = z\<lparr>pages := (pages z)(i := f (pages z i))\<rparr>"

definition zone_link :: "nat \<Rightarrow> nat \<Rightarrow> global_mem \<Rightarrow> global_mem" where
  "zone_link i ord z =
     (let l = free_lists z ord;
          z1 = z\<lparr>free_lists := (free_lists z)
                   (ord := l\<lparr>fl_list := i # fl_list l, nr_free := nr_free l + 1\<rparr>)\<rparr>
      in upd_page i (set_page_order_buddy ord) z1)"

definition zone_unlink :: "nat \<Rightarrow> nat \<Rightarrow> global_mem \<Rightarrow> global_mem" where
  "zone_unlink i ord z =
     (let ls = (\<lambda>k. (free_lists z k)\<lparr>fl_list := remove1 i (fl_list (free_lists z k))\<rparr>);
          z1 = z\<lparr>free_lists := ls(ord := (ls ord)\<lparr>nr_free := nr_free (ls ord) - 1\<rparr>)\<rparr>
      in upd_page i clear_page_order_buddy z1)"

fun split_block :: "nat \<Rightarrow> nat \<Rightarrow> nat \<Rightarrow> nat \<Rightarrow> global_mem \<Rightarrow> global_mem" where
  "split_block page low_order high_order sz z =
     (if low_order < high_order
      then split_block page low_order (high_order - 1) (drop_bit 1 sz)
             (zone_link (page + drop_bit 1 sz) (high_order - 1) z)
      else z)"

declare split_block.simps [simp del]

function alloc_page_from :: "nat \<Rightarrow> nat \<Rightarrow> global_mem \<Rightarrow> nat option \<times> global_mem" where
  "alloc_page_from ord current_order z =
     (if current_order < BUDDY_MAX_ORDER
      then (case fl_list (free_lists z current_order) of
              [] \<Rightarrow> alloc_page_from ord (current_order + 1) z
            | page # _ \<Rightarrow>
                (let z1 = zone_unlink page current_order z;
                     z2 = split_block page ord current_order (push_bit current_order 1) z1
                 in (Some page,
                     upd_page page (\<lambda>p. p\<lparr>pg_order := ord,
                                          pg_flags := pg_flags p OR push_bit PG_head 1\<rparr>) z2)))
      else (None, z))"
  by pat_completeness auto
termination
  by (relation "measure (\<lambda>(ord, cur, z). BUDDY_MAX_ORDER - cur)") auto

declare alloc_page_from.simps [simp del]

definition alloc_page :: "nat \<Rightarrow> global_mem \<Rightarrow> nat option \<times> global_mem" where
  "alloc_page ord z = alloc_page_from ord ord z"

definition buddy_get_pages :: "nat \<Rightarrow> global_mem \<Rightarrow> (nat option \<times> global_mem) res" where
  "buddy_get_pages ord z = bug_on (BUDDY_MAX_ORDER \<le> ord) (Inr (alloc_page ord z))"

text \<open>
  The merge loop of \<^verbatim>\<open>buddy_free_pages\<close>. The metadata it tests may lie behind the last
  page of the zone; \<^verbatim>\<open>list_del\<close> of a node that is on no free list writes through
  stray pointers.
\<close>

function merge_buddies :: "nat \<Rightarrow> nat \<Rightarrow> global_mem \<Rightarrow> (nat \<times> nat \<times> global_mem) res" where
  "merge_buddies page ord z =
     (if ord < BUDDY_MAX_ORDER - 1
      then (let buddy = get_buddy_page page ord
            in if \<not> check_buddy (pages z buddy) ord then Inr (page, ord, z)
               else if buddy \<notin> set (fl_list (free_lists z ord)) then Inl Bad_Access
               else merge_buddies (get_merge_page page ord) (ord + 1) (zone_unlink buddy ord z))
      else Inr (page, ord, z))"
  by pat_completeness auto
termination
  by (relation "measure (\<lambda>(page, ord, z). BUDDY_MAX_ORDER - ord)") auto

declare merge_buddies.simps [simp del]

definition buddy_free_pages :: "nat \<Rightarrow> global_mem \<Rightarrow> global_mem res" where
  "buddy_free_pages page z =
     (let ord = pg_order (pages z page);
          z1 = upd_page page (\<lambda>p. p\<lparr>pg_flags := pg_flags p AND NOT (push_bit PG_head 1)\<rparr>) z
      in bind_res (merge_buddies page ord z1) (\<lambda>(page', ord', z2).
           if BUDDY_MAX_ORDER \<le> ord' then Inl Bad_Access
           else Inr (zone_link page' ord' z2)))"

definition zero_page :: page where
  "zero_page = \<lparr>pg_flags = 0, pg_order = 0, pg_slab = 0\<rparr>"

fun free_each :: "nat list \<Rightarrow> global_mem \<Rightarrow> global_mem res" where
  "free_each [] z = Inr z"
| "free_each (i # is) z = bind_res (buddy_free_pages i z) (free_each is)"

text \<open>
  \<open>mem\<close> is what the metadata area and the memory behind it hold before the zone is set
  up: the loop clears the first \<open>n\<close> cells only.
\<close>

definition init_buddy :: "(nat \<Rightarrow> page) \<Rightarrow> u64 \<Rightarrow> nat \<Rightarrow> global_mem res" where
  "init_buddy mem first_page_vaddr n =
     free_each [0..<n]
       \<lparr>page_num = n, page_size = BUDDY_PAGE_SIZE,
        start_addr = first_page_vaddr,
        end_addr = first_page_vaddr + of_nat n * BUDDY_PAGE_SIZE,
        free_lists = (\<lambda>_. \<lparr>fl_list = [], nr_free = 0\<rparr>),
        pages = (\<lambda>i. if i < n then zero_page else mem i)\<rparr>"

definition page_to_virt :: "global_mem \<Rightarrow> nat option \<Rightarrow> u64" where
  "page_to_virt z pg =
     (case pg of None \<Rightarrow> 0 | Some page_idx \<Rightarrow> start_addr z + of_nat page_idx * BUDDY_PAGE_SIZE)"

definition virt_to_page :: "global_mem \<Rightarrow> u64 \<Rightarrow> nat res" where
  "virt_to_page z address =
     bug_on (address < start_addr z \<or> end_addr z < address)
       (Inr (unat (drop_bit BUDDY_PAGE_SHIFT (address - start_addr z))))"

section \<open>Blocks and the allocator invariant\<close>

definition frames :: "nat \<Rightarrow> nat \<Rightarrow> nat set" where
  "frames i ord = {i ..< i + 2 ^ ord}"

definition free_blk :: "global_mem \<Rightarrow> nat \<Rightarrow> nat \<Rightarrow> bool" where
  "free_blk z i ord \<longleftrightarrow> ord < BUDDY_MAX_ORDER \<and> i \<in> set (fl_list (free_lists z ord))"

definition alloc_blk :: "global_mem \<Rightarrow> nat \<Rightarrow> nat \<Rightarrow> bool" where
  "alloc_blk z i ord \<longleftrightarrow>
     i < page_num z \<and> bit (pg_flags (pages z i)) PG_head \<and> pg_order (pages z i) = ord"

definition aligned_blk :: "global_mem \<Rightarrow> nat \<Rightarrow> nat \<Rightarrow> bool" where
  "aligned_blk z i ord \<longleftrightarrow> ord < BUDDY_MAX_ORDER \<and> 2 ^ ord dvd i \<and> i + 2 ^ ord \<le> page_num z"

definition blk :: "global_mem \<Rightarrow> nat \<Rightarrow> nat \<Rightarrow> bool" where
  "blk z i ord \<longleftrightarrow> free_blk z i ord \<or> alloc_blk z i ord"

definition free_frames :: "global_mem \<Rightarrow> nat set" where
  "free_frames z = (\<Union>(i, ord) \<in> {(i, ord). free_blk z i ord}. frames i ord)"

text \<open>
  The merge loop does not compare an index with \<open>page_num\<close>. It is safe when the zone is a
  whole number of largest blocks, as no buddy then lies outside, or when the memory behind
  the metadata array does not hold the flag.
\<close>

definition no_stray :: "global_mem \<Rightarrow> bool" where
  "no_stray z \<longleftrightarrow> 2 ^ (BUDDY_MAX_ORDER - 1) dvd page_num z \<or>
     (\<forall>i \<ge> page_num z. \<not> bit (pg_flags (pages z i)) PG_buddy)"

text \<open>
  Every list member is the flagged head of an aligned block inside the zone, every flagged
  page is on the list of its order, the counters count, and no frame is in two blocks.
\<close>

definition buddy_inv :: "global_mem \<Rightarrow> bool" where
  "buddy_inv z \<longleftrightarrow>
     (\<forall>i ord. free_blk z i ord \<longrightarrow>
        bit (pg_flags (pages z i)) PG_buddy \<and> \<not> bit (pg_flags (pages z i)) PG_head
        \<and> pg_order (pages z i) = ord) \<and>
     (\<forall>i < page_num z. bit (pg_flags (pages z i)) PG_buddy \<longrightarrow> free_blk z i (pg_order (pages z i))) \<and>
     no_stray z \<and>
     (\<forall>ord < BUDDY_MAX_ORDER. distinct (fl_list (free_lists z ord)) \<and>
        nr_free (free_lists z ord) = of_nat (length (fl_list (free_lists z ord)))) \<and>
     (\<forall>i ord. blk z i ord \<longrightarrow> aligned_blk z i ord) \<and>
     (\<forall>i p j q. blk z i p \<longrightarrow> blk z j q \<longrightarrow> (i, p) \<noteq> (j, q) \<longrightarrow>
        frames i p \<inter> frames j q = {})"

text \<open>No block shares its buddy's order on the free lists: freed pairs are always merged.\<close>

definition coalesced :: "global_mem \<Rightarrow> bool" where
  "coalesced z \<longleftrightarrow>
     (\<forall>i ord. ord < BUDDY_MAX_ORDER - 1 \<longrightarrow> free_blk z i ord \<longrightarrow>
        \<not> free_blk z (get_buddy_page i ord) ord)"

text \<open>An aligned block of frames that no block of the zone touches.\<close>

definition hole :: "global_mem \<Rightarrow> nat \<Rightarrow> nat \<Rightarrow> bool" where
  "hole z i ord \<longleftrightarrow> aligned_blk z i ord \<and>
     (\<forall>j q. blk z j q \<longrightarrow> frames i ord \<inter> frames j q = {})"

section \<open>Index arithmetic\<close>

lemma unset_bit_nat: "unset_bit n (a::nat) = (if bit a n then a - 2 ^ n else a)"
proof (cases "bit a n")
  case True
  have "set_bit n (unset_bit n a) = a"
    using True by (intro bit_eqI) (auto simp: bit_set_bit_iff bit_unset_bit_iff)
  moreover have "set_bit n (unset_bit n a) = unset_bit n a + 2 ^ n"
    by (simp add: set_bit_eq bit_unset_bit_iff)
  ultimately show ?thesis using True by simp
next
  case False
  then have "unset_bit n a = a"
    by (intro bit_eqI) (auto simp: bit_unset_bit_iff)
  then show ?thesis using False by simp
qed

lemma bit_nat_le: "bit (a::nat) n \<Longrightarrow> 2 ^ n \<le> a"
  by (metis bit_iff_odd div_less even_zero not_le)

lemma get_merge_page_eq:
  "get_merge_page i ord = (if bit i ord then i - 2 ^ ord else i)"
  by (simp add: get_merge_page_def unset_bit_nat)

lemma get_buddy_page_eq:
  "get_buddy_page i ord = (if bit i ord then i - 2 ^ ord else i + 2 ^ ord)"
proof -
  have "get_buddy_page i ord = flip_bit ord i"
    by (simp add: get_buddy_page_def flip_bit_eq_xor push_bit_eq_mult)
  also have "\<dots> = (if bit i ord then unset_bit ord i else set_bit ord i)"
    by (simp add: flip_bit_eq_if)
  finally show ?thesis
    by (simp add: unset_bit_nat set_bit_eq)
qed

lemma get_buddy_page_invol [simp]: "get_buddy_page (get_buddy_page i ord) ord = i"
  by (simp add: get_buddy_page_def xor.assoc)

lemma aligned_Suc:
  fixes i :: nat
  assumes "2 ^ ord dvd i"
  shows "2 ^ Suc ord dvd (if bit i ord then i - 2 ^ ord else i)"
proof -
  obtain k where k: "i = 2 ^ ord * k" using assms by blast
  have b: "bit i ord \<longleftrightarrow> odd k" by (simp add: k bit_iff_odd)
  show ?thesis
  proof (cases "odd k")
    case True
    then obtain m where m: "k = 2 * m + 1" by (rule oddE)
    have "i - 2 ^ ord = 2 ^ Suc ord * m" by (simp add: k m algebra_simps)
    then show ?thesis using True b by simp
  next
    case False
    then show ?thesis using b by (auto simp: k elim!: evenE)
  qed
qed

lemma aligned_merge:
  assumes "2 ^ ord dvd i"
  shows "2 ^ Suc ord dvd get_merge_page i ord"
  using aligned_Suc [OF assms] by (simp only: get_merge_page_eq)

lemma aligned_not_bit:
  fixes i :: nat
  shows "2 ^ Suc ord dvd i \<Longrightarrow> \<not> bit i ord"
  by (auto simp: bit_iff_odd)

lemma frames_merge:
  "frames (get_merge_page i ord) (Suc ord) = frames i ord \<union> frames (get_buddy_page i ord) ord"
proof (cases "bit i ord")
  case True
  then show ?thesis
    using bit_nat_le [OF True] by (auto simp: frames_def get_merge_page_eq get_buddy_page_eq)
next
  case False
  then show ?thesis
    by (auto simp: frames_def get_merge_page_eq get_buddy_page_eq)
qed

lemma frames_Suc: "frames i (Suc ord) = frames i ord \<union> frames (i + 2 ^ ord) ord"
  by (auto simp: frames_def)

lemma frames_halves: "frames i ord \<inter> frames (i + 2 ^ ord) ord = {}"
  by (auto simp: frames_def)

lemma frames_self [simp]: "i \<in> frames i ord"
  by (simp add: frames_def)

lemma frames_nonempty: "frames i ord \<inter> frames i p \<noteq> {}"
  using frames_self by fastforce

lemma dyadic_nested:
  assumes al: "2 ^ p dvd i" "2 ^ q dvd j" and le: "p \<le> q"
    and meet: "frames i p \<inter> frames j q \<noteq> {}"
  shows "frames i p \<subseteq> frames j q"
proof -
  obtain d where q: "q = p + d" using le nat_le_iff_add by blast
  obtain a where a: "i = 2 ^ p * a" using al by blast
  obtain b where b: "j = 2 ^ q * b" using al by blast
  define c where "c = 2 ^ d * b"
  have j: "j = 2 ^ p * c" by (simp add: b q c_def power_add)
  have jq: "j + 2 ^ q = 2 ^ p * (c + 2 ^ d)" by (simp add: j q power_add distrib_left)
  have ip: "i + 2 ^ p = 2 ^ p * (a + 1)" by (simp add: a)
  obtain x where "x \<in> frames i p \<inter> frames j q" using meet by blast
  then have x: "i \<le> x" "x < i + 2 ^ p" "j \<le> x" "x < j + 2 ^ q"
    by (simp_all add: frames_def)
  have "2 ^ p * a < 2 ^ p * (c + 2 ^ d)" using x a jq by linarith
  then have 1: "a + 1 \<le> c + 2 ^ d" by simp
  have "2 ^ p * c < 2 ^ p * (a + 1)" using x j ip by linarith
  then have 2: "c \<le> a" by (simp only: mult_less_cancel1) simp
  have "j \<le> i" using 2 by (simp add: j a)
  moreover have "i + 2 ^ p \<le> j + 2 ^ q"
    unfolding ip jq using 1 by (rule mult_le_mono2)
  ultimately show ?thesis by (auto simp: frames_def)
qed

section \<open>The list steps on blocks\<close>

lemmas zone_link_simps = zone_link_def upd_page_def Let_def set_page_order_buddy_def
lemmas zone_unlink_simps = zone_unlink_def upd_page_def Let_def clear_page_order_buddy_def

lemma flag_bits [simp]:
  fixes w :: u64
  shows "bit (w OR 2 ^ k) n \<longleftrightarrow> bit w n \<or> n = k \<and> k < 64"
    and "bit (w AND NOT (2 ^ k)) n \<longleftrightarrow> bit w n \<and> n \<noteq> k"
  by (auto simp: bit_or_iff bit_and_iff bit_not_iff bit_exp_iff possible_bit_word dest: bit_imp_le_length)

lemma flag_numbers [simp]: "PG_head \<noteq> PG_buddy" "PG_buddy \<noteq> PG_head" "PG_head < 64" "PG_buddy < 64"
  by (simp_all add: PG_head_def PG_buddy_def)

lemma check_buddy_iff:
  "check_buddy p ord \<longleftrightarrow> bit (pg_flags p) PG_buddy \<and> pg_order p = ord"
  by (simp add: check_buddy_def and_exp_eq_0_iff_not_bit)

lemma zone_fields [simp]:
  "page_num (upd_page i f z) = page_num z" "free_lists (upd_page i f z) = free_lists z"
  "pages (upd_page i f z) = (pages z)(i := f (pages z i))"
  "start_addr (upd_page i f z) = start_addr z" "end_addr (upd_page i f z) = end_addr z"
  "page_num (zone_link i ord z) = page_num z" "page_num (zone_unlink i ord z) = page_num z"
  "start_addr (zone_link i ord z) = start_addr z" "start_addr (zone_unlink i ord z) = start_addr z"
  "end_addr (zone_link i ord z) = end_addr z" "end_addr (zone_unlink i ord z) = end_addr z"
  "pages (zone_link i ord z) = (pages z)(i := set_page_order_buddy ord (pages z i))"
  "pages (zone_unlink i ord z) = (pages z)(i := clear_page_order_buddy (pages z i))"
  by (simp_all add: upd_page_def zone_link_def zone_unlink_def Let_def)

text \<open>What no operation touches: the zone's extent and the slab back pointers.\<close>

definition zone_geo :: "global_mem \<Rightarrow> nat \<times> u64 \<times> u64 \<times> u64 \<times> (nat \<Rightarrow> u64)" where
  "zone_geo z = (page_num z, page_size z, start_addr z, end_addr z, \<lambda>i. pg_slab (pages z i))"

lemma zone_geo_steps [simp]:
  "zone_geo (zone_link i ord z) = zone_geo z"
  "zone_geo (zone_unlink i ord z) = zone_geo z"
  "(\<And>p. pg_slab (f p) = pg_slab p) \<Longrightarrow> zone_geo (upd_page i f z) = zone_geo z"
  by (auto simp: zone_geo_def upd_page_def zone_link_def zone_unlink_def Let_def
      set_page_order_buddy_def clear_page_order_buddy_def fun_eq_iff)

lemma page_ops_fields [simp]:
  "pg_order (set_page_order_buddy ord p) = ord"
  "bit (pg_flags (set_page_order_buddy ord p)) n \<longleftrightarrow> bit (pg_flags p) n \<or> n = PG_buddy"
  "pg_order (clear_page_order_buddy p) = 0"
  "bit (pg_flags (clear_page_order_buddy p)) n \<longleftrightarrow> bit (pg_flags p) n \<and> n \<noteq> PG_buddy"
  by (simp_all add: set_page_order_buddy_def clear_page_order_buddy_def)

lemma aligned_blk_cong: "page_num z' = page_num z \<Longrightarrow> aligned_blk z' = aligned_blk z"
  by (auto simp: fun_eq_iff aligned_blk_def)

lemma inv_freeD:
  assumes "buddy_inv z" "free_blk z i ord"
  shows "bit (pg_flags (pages z i)) PG_buddy" "\<not> bit (pg_flags (pages z i)) PG_head"
    "pg_order (pages z i) = ord"
  using assms by (simp_all add: buddy_inv_def)

lemma inv_flagD:
  "buddy_inv z \<Longrightarrow> i < page_num z \<Longrightarrow> bit (pg_flags (pages z i)) PG_buddy \<Longrightarrow>
   free_blk z i (pg_order (pages z i))"
  by (simp add: buddy_inv_def)

lemma inv_stray: "buddy_inv z \<Longrightarrow> no_stray z"
  by (simp add: buddy_inv_def)

lemma no_stray_mono:
  "no_stray z \<Longrightarrow> page_num z' = page_num z \<Longrightarrow>
   (\<And>i. page_num z \<le> i \<Longrightarrow> pg_flags (pages z' i) = pg_flags (pages z i)) \<Longrightarrow> no_stray z'"
  by (auto simp: no_stray_def)

lemma aligned_blk_lt: "aligned_blk z i ord \<Longrightarrow> i < page_num z"
  using less_le_trans [of i "i + 2 ^ ord" "page_num z"] by (simp add: aligned_blk_def)

lemma hole_lt: "hole z i ord \<Longrightarrow> i < page_num z"
  using aligned_blk_lt unfolding hole_def by blast

lemma inv_listD:
  assumes "buddy_inv z" "ord < BUDDY_MAX_ORDER"
  shows "distinct (fl_list (free_lists z ord))"
    "nr_free (free_lists z ord) = of_nat (length (fl_list (free_lists z ord)))"
  using assms by (simp_all add: buddy_inv_def)

lemma inv_alignedD: "buddy_inv z \<Longrightarrow> blk z i ord \<Longrightarrow> aligned_blk z i ord"
  by (simp add: buddy_inv_def)

lemma inv_disjD:
  "buddy_inv z \<Longrightarrow> blk z i p \<Longrightarrow> blk z j q \<Longrightarrow> (i, p) \<noteq> (j, q) \<Longrightarrow> frames i p \<inter> frames j q = {}"
  by (simp add: buddy_inv_def)

lemma inv_same_start:
  "buddy_inv z \<Longrightarrow> blk z i p \<Longrightarrow> blk z i q \<Longrightarrow> p = q"
  using inv_disjD [of z i p i q] frames_nonempty by blast

lemma hole_no_blk: "hole z i ord \<Longrightarrow> \<not> blk z i q"
  using frames_nonempty by (fastforce simp: hole_def)

lemma hole_flags:
  assumes inv: "buddy_inv z" and h: "hole z i ord"
  shows "\<not> bit (pg_flags (pages z i)) PG_buddy" "\<not> bit (pg_flags (pages z i)) PG_head"
proof -
  have n: "i < page_num z"
    using h less_le_trans [of i "i + 2 ^ ord"] by (simp add: hole_def aligned_blk_def)
  show "\<not> bit (pg_flags (pages z i)) PG_buddy"
    using inv_flagD [OF inv n] hole_no_blk [OF h] by (auto simp: blk_def)
  show "\<not> bit (pg_flags (pages z i)) PG_head"
    using hole_no_blk [OF h] n by (auto simp: blk_def alloc_blk_def)
qed

lemma free_blk_link:
  "ord < BUDDY_MAX_ORDER \<Longrightarrow>
   free_blk (zone_link i ord z) j q \<longleftrightarrow> free_blk z j q \<or> (j, q) = (i, ord)"
  by (auto simp: free_blk_def zone_link_simps)

lemma alloc_blk_link:
  assumes "buddy_inv z" "hole z i ord"
  shows "alloc_blk (zone_link i ord z) j q \<longleftrightarrow> alloc_blk z j q"
  using hole_flags [OF assms] by (auto simp: alloc_blk_def)

lemma free_blk_unlink:
  assumes "buddy_inv z" "free_blk z i ord"
  shows "free_blk (zone_unlink i ord z) j q \<longleftrightarrow> free_blk z j q \<and> (j, q) \<noteq> (i, ord)"
proof -
  show ?thesis
  proof (cases "free_blk z j q")
    case True
    then have "distinct (fl_list (free_lists z q))"
      using inv_listD(1) [OF assms(1), of q] by (simp add: free_blk_def)
    moreover have "j = i \<Longrightarrow> q = ord"
      using True inv_same_start [OF assms(1), of i q ord] assms(2) by (simp add: blk_def)
    ultimately show ?thesis
      using True by (auto simp: free_blk_def zone_unlink_simps)
  next
    case False
    then show ?thesis
      by (auto simp: free_blk_def zone_unlink_simps split: if_splits dest: notin_set_remove1 [rotated])
  qed
qed

lemma alloc_blk_unlink:
  assumes "buddy_inv z" "free_blk z i ord"
  shows "alloc_blk (zone_unlink i ord z) j q \<longleftrightarrow> alloc_blk z j q"
  using inv_freeD [OF assms] by (auto simp: alloc_blk_def)

lemma blk_link:
  assumes "buddy_inv z" "hole z i ord"
  shows "blk (zone_link i ord z) j q \<longleftrightarrow> blk z j q \<or> (j, q) = (i, ord)"
proof -
  have "ord < BUDDY_MAX_ORDER" using assms(2) by (simp add: hole_def aligned_blk_def)
  then show ?thesis
    by (auto simp: blk_def free_blk_link alloc_blk_link [OF assms])
qed

lemma blk_unlink:
  assumes "buddy_inv z" "free_blk z i ord"
  shows "blk (zone_unlink i ord z) j q \<longleftrightarrow> blk z j q \<and> (j, q) \<noteq> (i, ord)"
proof -
  have "\<not> alloc_blk z i ord"
    using inv_freeD [OF assms] by (auto simp: alloc_blk_def)
  then show ?thesis
    by (auto simp: blk_def free_blk_unlink [OF assms] alloc_blk_unlink [OF assms])
qed

text \<open>Adding a hole to the set of blocks keeps the blocks apart; so does dropping a block.\<close>

lemma blocks_insert:
  assumes "buddy_inv z" "hole z i ord" "page_num z' = page_num z"
    and b: "\<And>j q. blk z' j q \<longleftrightarrow> blk z j q \<or> (j, q) = (i, ord)"
  shows "blk z' j q \<Longrightarrow> aligned_blk z' j q"
    and "blk z' j p \<Longrightarrow> blk z' k q \<Longrightarrow> (j, p) \<noteq> (k, q) \<Longrightarrow> frames j p \<inter> frames k q = {}"
proof -
  show "blk z' j q \<Longrightarrow> aligned_blk z' j q"
    using assms inv_alignedD by (auto simp: aligned_blk_cong [OF assms(3)] hole_def)
  show "blk z' j p \<Longrightarrow> blk z' k q \<Longrightarrow> (j, p) \<noteq> (k, q) \<Longrightarrow> frames j p \<inter> frames k q = {}"
    using inv_disjD [OF assms(1), of j p k q] assms(2) unfolding b hole_def by blast
qed

lemma inv_link:
  assumes inv: "buddy_inv z" and h: "hole z i ord"
  shows "buddy_inv (zone_link i ord z)"
proof -
  have o: "ord < BUDDY_MAX_ORDER" using h by (simp add: hole_def aligned_blk_def)
  note ins = blocks_insert [OF inv h, of "zone_link i ord z", OF _ blk_link [OF inv h]]
  have new: "\<not> free_blk z i q" for q using hole_no_blk [OF h] by (auto simp: blk_def)
  have lists: "distinct (fl_list (free_lists (zone_link i ord z) q)) \<and>
      nr_free (free_lists (zone_link i ord z) q)
        = of_nat (length (fl_list (free_lists (zone_link i ord z) q)))"
    if "q < BUDDY_MAX_ORDER" for q
    using inv_listD [OF inv that] new [of q] that by (auto simp: zone_link_simps free_blk_def)
  have "bit (pg_flags (pages (zone_link i ord z) j)) PG_buddy
      \<and> \<not> bit (pg_flags (pages (zone_link i ord z) j)) PG_head
      \<and> pg_order (pages (zone_link i ord z) j) = q"
    if "free_blk (zone_link i ord z) j q" for j q
    using that inv_freeD [OF inv, of j q] new [of q] hole_flags [OF inv h]
    by (auto simp: free_blk_link [OF o])
  moreover have "free_blk (zone_link i ord z) j (pg_order (pages (zone_link i ord z) j))"
    if "j < page_num z" "bit (pg_flags (pages (zone_link i ord z) j)) PG_buddy" for j
    using that inv_flagD [OF inv, of j] by (auto simp: free_blk_link [OF o])
  moreover have "no_stray (zone_link i ord z)"
    using hole_lt [OF h] by (intro no_stray_mono [OF inv_stray [OF inv]]) auto
  ultimately show ?thesis
    using lists ins unfolding buddy_inv_def by simp
qed

lemma inv_unlink:
  assumes inv: "buddy_inv z" and f: "free_blk z i ord"
  shows "buddy_inv (zone_unlink i ord z)"
proof -
  have o: "ord < BUDDY_MAX_ORDER" using f by (simp add: free_blk_def)
  have u: "free_blk z i q \<Longrightarrow> q = ord" for q
    using inv_same_start [OF inv] f by (auto simp: blk_def)
  have lists: "distinct (fl_list (free_lists (zone_unlink i ord z) q)) \<and>
      nr_free (free_lists (zone_unlink i ord z) q)
        = of_nat (length (fl_list (free_lists (zone_unlink i ord z) q)))"
    if "q < BUDDY_MAX_ORDER" for q
  proof (cases "q = ord")
    case True
    then have "i \<in> set (fl_list (free_lists z q))"
      using f by (simp add: free_blk_def)
    then have "length (fl_list (free_lists z q)) = Suc (length (remove1 i (fl_list (free_lists z q))))"
      by (metis One_nat_def Suc_pred length_pos_if_in_set length_remove1)
    then show ?thesis
      using inv_listD [OF inv that] True by (simp add: zone_unlink_simps)
  next
    case False
    then have "i \<notin> set (fl_list (free_lists z q))" using u [of q] that by (auto simp: free_blk_def)
    then show ?thesis
      using inv_listD [OF inv that] False by (auto simp: zone_unlink_simps remove1_idem)
  qed
  have "bit (pg_flags (pages (zone_unlink i ord z) j)) PG_buddy
      \<and> \<not> bit (pg_flags (pages (zone_unlink i ord z) j)) PG_head
      \<and> pg_order (pages (zone_unlink i ord z) j) = q"
    if "free_blk (zone_unlink i ord z) j q" for j q
    using that inv_freeD [OF inv, of j q] u [of q] by (auto simp: free_blk_unlink [OF inv f])
  moreover have "free_blk (zone_unlink i ord z) j (pg_order (pages (zone_unlink i ord z) j))"
    if "j < page_num z" "bit (pg_flags (pages (zone_unlink i ord z) j)) PG_buddy" for j
    using that inv_flagD [OF inv, of j] by (auto simp: free_blk_unlink [OF inv f] split: if_splits)
  moreover have "aligned_blk (zone_unlink i ord z) j q" if "blk (zone_unlink i ord z) j q" for j q
    using that inv_alignedD [OF inv, of j q] by (simp add: blk_unlink [OF inv f] aligned_blk_def)
  moreover have "frames j p \<inter> frames k q = {}"
    if "blk (zone_unlink i ord z) j p" "blk (zone_unlink i ord z) k q" "(j, p) \<noteq> (k, q)" for j p k q
    using that inv_disjD [OF inv, of j p k q] unfolding blk_unlink [OF inv f] by blast
  moreover have "i < page_num z"
    using inv_alignedD [OF inv, of i ord] f by (auto simp: blk_def intro: aligned_blk_lt)
  then have "no_stray (zone_unlink i ord z)"
    by (intro no_stray_mono [OF inv_stray [OF inv]]) auto
  ultimately show ?thesis
    using lists unfolding buddy_inv_def by simp
qed

lemma hole_unlink:
  assumes inv: "buddy_inv z" and f: "free_blk z i ord"
  shows "hole (zone_unlink i ord z) i ord"
proof -
  have b: "blk z i ord" using f by (simp add: blk_def)
  have "aligned_blk (zone_unlink i ord z) i ord"
    using inv_alignedD [OF inv b] by (simp add: aligned_blk_def)
  moreover have "frames i ord \<inter> frames j q = {}" if "blk (zone_unlink i ord z) j q" for j q
    using that inv_disjD [OF inv b, of j q] by (auto simp only: blk_unlink [OF inv f])
  ultimately show ?thesis by (simp add: hole_def)
qed

subsection \<open>Marking and clearing allocated blocks\<close>

lemma mark_head:
  fixes z :: global_mem
  assumes inv: "buddy_inv z" and h: "hole z i ord"
  defines "z' \<equiv> upd_page i (\<lambda>p. p\<lparr>pg_order := ord, pg_flags := pg_flags p OR push_bit PG_head 1\<rparr>) z"
  shows "buddy_inv z'" and "free_blk z' = free_blk z"
    and "alloc_blk z' j q \<longleftrightarrow> alloc_blk z j q \<or> (j, q) = (i, ord)"
proof -
  have n: "i < page_num z"
    using h less_le_trans [of i "i + 2 ^ ord"] by (simp add: hole_def aligned_blk_def)
  note fl = hole_flags [OF inv h]
  show free: "free_blk z' = free_blk z" by (simp add: z'_def free_blk_def fun_eq_iff)
  have alloc: "alloc_blk z' j q \<longleftrightarrow> alloc_blk z j q \<or> (j, q) = (i, ord)" for j q
    using n fl by (auto simp: z'_def alloc_blk_def)
  then show "alloc_blk z' j q \<longleftrightarrow> alloc_blk z j q \<or> (j, q) = (i, ord)" .
  have b: "blk z' j q \<longleftrightarrow> blk z j q \<or> (j, q) = (i, ord)" for j q
    using alloc by (auto simp: blk_def free)
  note ins = blocks_insert [OF inv h, of z', OF _ b]
  have nf: "\<not> free_blk z i q" for q
    using hole_no_blk [OF h] by (auto simp: blk_def)
  have fb: "bit (pg_flags (pages z' j)) PG_buddy \<and> \<not> bit (pg_flags (pages z' j)) PG_head
      \<and> pg_order (pages z' j) = q" if "free_blk z' j q" for j q
  proof -
    have "free_blk z j q" using that free by simp
    moreover from this have "j \<noteq> i" using nf by auto
    ultimately show ?thesis using inv_freeD [OF inv, of j q] by (simp add: z'_def)
  qed
  have bf: "free_blk z' j (pg_order (pages z' j))"
    if "j < page_num z" "bit (pg_flags (pages z' j)) PG_buddy" for j
  proof (cases "j = i")
    case True
    then show ?thesis using that fl by (simp add: z'_def)
  next
    case False
    then show ?thesis using that inv_flagD [OF inv, of j] by (simp add: free) (simp add: z'_def)
  qed
  have st: "no_stray z'"
    using n by (intro no_stray_mono [OF inv_stray [OF inv]]) (auto simp: z'_def)
  show "buddy_inv z'"
    using inv_listD [OF inv] ins fb bf st unfolding buddy_inv_def by (simp add: z'_def)
qed

lemma clear_head:
  fixes z :: global_mem
  assumes inv: "buddy_inv z" and a: "alloc_blk z i ord"
  defines "z' \<equiv> upd_page i (\<lambda>p. p\<lparr>pg_flags := pg_flags p AND NOT (push_bit PG_head 1)\<rparr>) z"
  shows "buddy_inv z'" and "free_blk z' = free_blk z"
    and "alloc_blk z' j q \<longleftrightarrow> alloc_blk z j q \<and> (j, q) \<noteq> (i, ord)"
    and "hole z' i ord"
proof -
  show free: "free_blk z' = free_blk z" by (simp add: z'_def free_blk_def fun_eq_iff)
  have alloc: "alloc_blk z' j q \<longleftrightarrow> alloc_blk z j q \<and> (j, q) \<noteq> (i, ord)" for j q
    using a by (auto simp: z'_def alloc_blk_def)
  then show "alloc_blk z' j q \<longleftrightarrow> alloc_blk z j q \<and> (j, q) \<noteq> (i, ord)" .
  have nf: "\<not> free_blk z i q" for q
    using inv_freeD(2) [OF inv, of i q] a by (auto simp: alloc_blk_def)
  have b: "blk z' j q \<longleftrightarrow> blk z j q \<and> (j, q) \<noteq> (i, ord)" for j q
    using alloc nf by (auto simp: blk_def free)
  have fb: "bit (pg_flags (pages z' j)) PG_buddy \<and> \<not> bit (pg_flags (pages z' j)) PG_head
      \<and> pg_order (pages z' j) = q" if "free_blk z' j q" for j q
    using that inv_freeD [OF inv, of j q] unfolding free by (auto simp: z'_def)
  have bf: "free_blk z' j (pg_order (pages z' j))"
    if "j < page_num z" "bit (pg_flags (pages z' j)) PG_buddy" for j
    using that inv_flagD [OF inv, of j] unfolding free by (simp add: z'_def split: if_splits)
  have al: "aligned_blk z' j q" if "blk z j q" for j q
    using inv_alignedD [OF inv that] by (simp add: z'_def aligned_blk_def)
  have dj: "frames j p \<inter> frames k q = {}"
    if "blk z' j p" "blk z' k q" "(j, p) \<noteq> (k, q)" for j p k q
    using that inv_disjD [OF inv, of j p k q] unfolding b by blast
  have st: "no_stray z'"
    using a by (intro no_stray_mono [OF inv_stray [OF inv]]) (auto simp: z'_def alloc_blk_def)
  show "buddy_inv z'"
    using inv_listD [OF inv] fb bf al dj b st unfolding buddy_inv_def by (simp add: z'_def)
  have "frames i ord \<inter> frames j q = {}" if "blk z' j q" for j q
    using that inv_disjD [OF inv, of i ord j q] a unfolding b by (auto simp: blk_def)
  then show "hole z' i ord"
    using al [of i ord] a by (simp add: hole_def blk_def)
qed

subsection \<open>Free frames and coalescing\<close>

lemma in_free_frames: "x \<in> free_frames z \<longleftrightarrow> (\<exists>i ord. free_blk z i ord \<and> x \<in> frames i ord)"
  by (auto simp: free_frames_def)

lemma free_frames_cong: "free_blk z' = free_blk z \<Longrightarrow> free_frames z' = free_frames z"
  by (simp add: free_frames_def)

lemma free_frames_link:
  "ord < BUDDY_MAX_ORDER \<Longrightarrow> free_frames (zone_link i ord z) = free_frames z \<union> frames i ord"
  by (rule set_eqI, unfold Un_iff in_free_frames) (simp add: free_blk_link, blast)

lemma free_frames_unlink:
  assumes "buddy_inv z" "free_blk z i ord"
  shows "free_frames (zone_unlink i ord z) \<union> frames i ord = free_frames z"
proof (rule set_eqI)
  fix x
  show "x \<in> free_frames (zone_unlink i ord z) \<union> frames i ord \<longleftrightarrow> x \<in> free_frames z"
    unfolding Un_iff in_free_frames free_blk_unlink [OF assms] using assms(2) by blast
qed

lemma hole_free_frames: "hole z i ord \<Longrightarrow> frames i ord \<inter> free_frames z = {}"
  unfolding hole_def blk_def free_frames_def by blast

lemma coalesced_link:
  assumes "coalesced z" "ord < BUDDY_MAX_ORDER" "2 ^ ord dvd i"
    and b: "ord < BUDDY_MAX_ORDER - 1 \<Longrightarrow> \<not> free_blk z (get_buddy_page i ord) ord"
  shows "coalesced (zone_link i ord z)"
proof -
  have self: "get_buddy_page i ord \<noteq> i"
  proof (cases "bit i ord")
    case True
    moreover have "i - 2 ^ ord < i" by (rule diff_less) (use bit_nat_le [OF True] in \<open>auto intro: Nat.gr0I\<close>)
    ultimately show ?thesis by (simp add: get_buddy_page_eq)
  qed (simp add: get_buddy_page_eq)
  have "\<not> free_blk (zone_link i ord z) (get_buddy_page j q) q"
    if q: "q < BUDDY_MAX_ORDER - 1" and f: "free_blk (zone_link i ord z) j q" for j q
  proof
    assume g: "free_blk (zone_link i ord z) (get_buddy_page j q) q"
    have c: "\<not> (free_blk z j q \<and> free_blk z (get_buddy_page j q) q)"
      using assms(1) q by (auto simp: coalesced_def)
    from f g c consider "j = i" "q = ord" | "get_buddy_page j q = i" "q = ord" "free_blk z j q"
      by (auto simp: free_blk_link [OF assms(2)])
    then show False
    proof cases
      case 1
      then show False using g b q self by (simp add: free_blk_link [OF assms(2)])
    next
      case 2
      then have "j = get_buddy_page i ord" using get_buddy_page_invol [of j q] by simp
      then show False using 2 b q by simp
    qed
  qed
  then show ?thesis by (simp add: coalesced_def)
qed

lemma coalesced_unlink:
  assumes "buddy_inv z" "free_blk z i ord" "coalesced z"
  shows "coalesced (zone_unlink i ord z)"
  using assms(3) by (auto simp: coalesced_def free_blk_unlink [OF assms(1,2)])

lemma coalesced_cong: "free_blk z' = free_blk z \<Longrightarrow> coalesced z' = coalesced z"
  by (simp add: coalesced_def)

section \<open>Splitting and merging\<close>

lemma hole_halves:
  assumes inv: "buddy_inv z" and h: "hole z p (Suc ord)"
  shows "hole z (p + 2 ^ ord) ord" and "hole (zone_link (p + 2 ^ ord) ord z) p ord"
proof -
  have "2 ^ ord dvd p"
    using h by (auto simp: hole_def aligned_blk_def intro: power_le_dvd)
  then have al: "aligned_blk z p ord" "aligned_blk z (p + 2 ^ ord) ord"
    using h by (simp_all add: hole_def aligned_blk_def)
  have dj: "frames p ord \<inter> frames j q = {} \<and> frames (p + 2 ^ ord) ord \<inter> frames j q = {}"
    if "blk z j q" for j q
    using h that unfolding hole_def frames_Suc by blast
  show hi: "hole z (p + 2 ^ ord) ord" using al dj by (simp add: hole_def)
  have "frames p ord \<inter> frames j q = {}" if "blk (zone_link (p + 2 ^ ord) ord z) j q" for j q
    using that dj [of j q] frames_halves [of p ord] unfolding blk_link [OF inv hi] by auto
  then show "hole (zone_link (p + 2 ^ ord) ord z) p ord"
    using al by (simp add: hole_def aligned_blk_def)
qed

lemma split_block_correct:
  assumes "buddy_inv z" "hole z p high" "low \<le> high"
  shows "buddy_inv (split_block p low high (2 ^ high) z) \<and>
    hole (split_block p low high (2 ^ high) z) p low \<and>
    alloc_blk (split_block p low high (2 ^ high) z) = alloc_blk z \<and>
    free_frames (split_block p low high (2 ^ high) z) \<union> frames p low
      = free_frames z \<union> frames p high \<and>
    (coalesced z \<longrightarrow> coalesced (split_block p low high (2 ^ high) z)) \<and>
    zone_geo (split_block p low high (2 ^ high) z) = zone_geo z"
  using assms
proof (induction high arbitrary: z)
  case 0
  then show ?case by (subst (1 2 3 4 5 6) split_block.simps) simp
next
  case (Suc high)
  show ?case
  proof (cases "low \<le> high")
    case False
    then have "low = Suc high" using Suc.prems by simp
    then show ?thesis using Suc.prems by (subst (1 2 3 4 5 6) split_block.simps) simp
  next
    case True
    define z1 where "z1 = zone_link (p + 2 ^ high) high z"
    have eq: "split_block p low (Suc high) (2 ^ Suc high) z = split_block p low high (2 ^ high) z1"
      using True by (subst split_block.simps) (simp add: z1_def drop_bit_Suc)
    note hs = hole_halves [OF Suc.prems(1,2)]
    have o: "high < BUDDY_MAX_ORDER" using hs by (simp add: hole_def aligned_blk_def)
    have i1: "buddy_inv z1" unfolding z1_def by (rule inv_link [OF Suc.prems(1) hs(1)])
    note IH = Suc.IH [OF i1 hs(2) [folded z1_def] True]
    have "alloc_blk z1 = alloc_blk z"
      unfolding z1_def fun_eq_iff using alloc_blk_link [OF Suc.prems(1) hs(1)] by blast
    moreover have "zone_geo z1 = zone_geo z" by (simp add: z1_def)
    moreover have "free_frames z1 = free_frames z \<union> frames (p + 2 ^ high) high"
      unfolding z1_def by (rule free_frames_link [OF o])
    moreover have "coalesced z1" if "coalesced z"
      unfolding z1_def
    proof (rule coalesced_link [OF that o])
      have al: "2 ^ Suc high dvd p" using Suc.prems(2) by (simp add: hole_def aligned_blk_def)
      then have "2 ^ high dvd p" by (rule power_le_dvd) simp
      then show "2 ^ high dvd p + 2 ^ high" by simp
      have "get_buddy_page p high = p + 2 ^ high"
        using aligned_not_bit [OF al] by (simp add: get_buddy_page_eq)
      then have "get_buddy_page (p + 2 ^ high) high = p" by (metis get_buddy_page_invol)
      then show "\<not> free_blk z (get_buddy_page (p + 2 ^ high) high) high"
        using hole_no_blk [OF Suc.prems(2)] by (auto simp: blk_def)
    qed
    ultimately show ?thesis
      using IH unfolding eq frames_Suc by auto
  qed
qed

lemma hole_merge:
  assumes inv: "buddy_inv z" and h: "hole z p ord"
    and f: "free_blk z (get_buddy_page p ord) ord" and o: "ord < BUDDY_MAX_ORDER - 1"
  shows "hole (zone_unlink (get_buddy_page p ord) ord z) (get_merge_page p ord) (Suc ord)"
proof -
  let ?b = "get_buddy_page p ord"
  have p: "2 ^ ord dvd p" "p + 2 ^ ord \<le> page_num z"
    using h by (simp_all add: hole_def aligned_blk_def)
  have "?b + 2 ^ ord \<le> page_num z"
    using inv_alignedD [OF inv] f by (simp add: blk_def aligned_blk_def)
  then have "get_merge_page p ord + 2 ^ Suc ord \<le> page_num z"
    using p bit_nat_le [of p ord] by (auto simp: get_merge_page_eq get_buddy_page_eq split: if_splits)
  then have "aligned_blk (zone_unlink ?b ord z) (get_merge_page p ord) (Suc ord)"
    using aligned_merge [OF p(1)] o by (simp add: aligned_blk_def)
  moreover have "frames (get_merge_page p ord) (Suc ord) \<inter> frames j q = {}"
    if "blk (zone_unlink ?b ord z) j q" for j q
  proof -
    have 1: "frames p ord \<inter> frames j q = {}"
      using that h by (simp add: blk_unlink [OF inv f] hole_def)
    have 2: "frames ?b ord \<inter> frames j q = {}"
      using that hole_unlink [OF inv f] by (simp add: hole_def)
    show ?thesis using 1 2 unfolding frames_merge by blast
  qed
  ultimately show ?thesis by (simp add: hole_def)
qed

lemma buddy_in_zone:
  assumes inv: "buddy_inv z" and h: "hole z p ord"
    and b: "bit (pg_flags (pages z (get_buddy_page p ord))) PG_buddy" "ord < BUDDY_MAX_ORDER - 1"
  shows "get_buddy_page p ord < page_num z"
proof (cases "bit p ord")
  case True
  then show ?thesis using hole_lt [OF h] by (auto simp: get_buddy_page_eq)
next
  case False
  have p: "2 ^ ord dvd p" "p + 2 ^ ord \<le> page_num z" using h by (simp_all add: hole_def aligned_blk_def)
  have al: "2 ^ Suc ord dvd p" using aligned_Suc [OF p(1)] False by simp
  from inv_stray [OF inv] consider "2 ^ (BUDDY_MAX_ORDER - 1) dvd page_num z"
    | "\<forall>i \<ge> page_num z. \<not> bit (pg_flags (pages z i)) PG_buddy"
    by (auto simp: no_stray_def)
  then show ?thesis
  proof cases
    case 1
    have "(2::nat) ^ Suc ord dvd 2 ^ (BUDDY_MAX_ORDER - 1)" using b(2) by (intro le_imp_power_dvd) simp
    then have "2 ^ Suc ord dvd page_num z" using 1 dvd_trans by blast
    moreover have "p < page_num z" by (rule hole_lt [OF h])
    ultimately have "p + 2 ^ Suc ord \<le> page_num z" using al
      by (metis (no_types, lifting) dvd_diff_nat dvd_imp_le le_add_diff_inverse less_imp_le_nat nat_add_left_cancel_le zero_less_diff)
    moreover have "(0::nat) < 2 ^ ord" by simp
    ultimately have "p + 2 ^ ord < page_num z" unfolding power_Suc by linarith
    then show ?thesis using False by (simp add: get_buddy_page_eq)
  next
    case 2
    then show ?thesis using b(1) by (meson not_le)
  qed
qed

lemma merge_buddies_correct:
  assumes "buddy_inv z" "hole z p ord"
  shows "\<exists>p' ord' z'. merge_buddies p ord z = Inr (p', ord', z') \<and>
    buddy_inv z' \<and> hole z' p' ord' \<and> alloc_blk z' = alloc_blk z \<and>
    free_frames z' \<union> frames p' ord' = free_frames z \<union> frames p ord \<and>
    (coalesced z \<longrightarrow> coalesced z') \<and>
    (ord' < BUDDY_MAX_ORDER - 1 \<longrightarrow> \<not> free_blk z' (get_buddy_page p' ord') ord') \<and>
    zone_geo z' = zone_geo z \<and>
    (\<forall>j. j \<notin> free_frames z \<union> frames p ord \<longrightarrow> pages z' j = pages z j)"
  using assms
proof (induction p ord z rule: merge_buddies.induct)
  case (1 p ord z)
  let ?b = "get_buddy_page p ord"
  show ?case
  proof (cases "ord < BUDDY_MAX_ORDER - 1 \<and> check_buddy (pages z ?b) ord")
    case False
    then have "merge_buddies p ord z = Inr (p, ord, z)"
      by (subst merge_buddies.simps) (auto simp: Let_def)
    moreover have "\<not> free_blk z ?b ord" if "ord < BUDDY_MAX_ORDER - 1"
      using that False inv_freeD [OF 1(2), of ?b ord] by (auto simp: check_buddy_iff)
    ultimately show ?thesis using 1(2,3) by auto
  next
    case True
    then have "?b < page_num z"
      using buddy_in_zone [OF 1(2,3)] by (simp add: check_buddy_iff)
    then have f: "free_blk z ?b ord"
      using inv_flagD [OF 1(2), of ?b] True by (auto simp: check_buddy_iff)
    let ?z = "zone_unlink ?b ord z"
    have eq: "merge_buddies p ord z = merge_buddies (get_merge_page p ord) (ord + 1) ?z"
      using True f by (subst merge_buddies.simps) (simp add: Let_def free_blk_def)
    have a: "alloc_blk ?z = alloc_blk z"
      unfolding fun_eq_iff using alloc_blk_unlink [OF 1(2) f] by blast
    have h: "hole ?z (get_merge_page p ord) (ord + 1)"
      using hole_merge [OF 1(2,3) f] True by simp
    have ff: "free_frames ?z \<union> frames (get_merge_page p ord) (ord + 1) = free_frames z \<union> frames p ord"
      using free_frames_unlink [OF 1(2) f] by (auto simp: frames_merge)
    have IH: "\<exists>p' ord' z'. merge_buddies (get_merge_page p ord) (ord + 1) ?z = Inr (p', ord', z') \<and>
      buddy_inv z' \<and> hole z' p' ord' \<and> alloc_blk z' = alloc_blk ?z \<and>
      free_frames z' \<union> frames p' ord' = free_frames ?z \<union> frames (get_merge_page p ord) (ord + 1) \<and>
      (coalesced ?z \<longrightarrow> coalesced z') \<and>
      (ord' < BUDDY_MAX_ORDER - 1 \<longrightarrow> \<not> free_blk z' (get_buddy_page p' ord') ord') \<and>
      zone_geo z' = zone_geo ?z \<and>
      (\<forall>j. j \<notin> free_frames ?z \<union> frames (get_merge_page p ord) (ord + 1) \<longrightarrow> pages z' j = pages ?z j)"
      using True f by (intro 1(1) [OF _ refl] inv_unlink [OF 1(2) f] h) (auto simp: free_blk_def)
    have "?b \<in> free_frames z"
      using f frames_self unfolding in_free_frames by blast
    then have pg: "pages ?z j = pages z j" if "j \<notin> free_frames z \<union> frames p ord" for j
      using that by auto
    obtain p' ord' z' where "merge_buddies p ord z = Inr (p', ord', z')"
      "buddy_inv z'" "hole z' p' ord'" "alloc_blk z' = alloc_blk z"
      "free_frames z' \<union> frames p' ord' = free_frames z \<union> frames p ord"
      "coalesced ?z \<longrightarrow> coalesced z'"
      "ord' < BUDDY_MAX_ORDER - 1 \<longrightarrow> \<not> free_blk z' (get_buddy_page p' ord') ord'"
      "zone_geo z' = zone_geo z"
      "\<forall>j. j \<notin> free_frames z \<union> frames p ord \<longrightarrow> pages z' j = pages ?z j"
      using IH unfolding eq a ff zone_geo_steps by blast
    then show ?thesis
      using coalesced_unlink [OF 1(2) f] pg by fastforce
  qed
qed

section \<open>The abstract allocator and the refinement\<close>

text \<open>
  What a page allocator promises: a set of free frames and a set of blocks handed out.
  Allocation picks any aligned run of free frames; freeing gives back exactly the frames of
  one block.
\<close>

record abs_zone =
  az_free :: "nat set"
  az_alloc :: "(nat \<times> nat) set"

definition abs_zone_of :: "global_mem \<Rightarrow> abs_zone" where
  "abs_zone_of z = \<lparr>az_free = free_frames z, az_alloc = {(i, ord). alloc_blk z i ord}\<rparr>"

definition spec_get_pages :: "nat \<Rightarrow> nat \<Rightarrow> abs_zone \<Rightarrow> abs_zone \<Rightarrow> bool" where
  "spec_get_pages ord p a a' \<longleftrightarrow>
     2 ^ ord dvd p \<and> frames p ord \<subseteq> az_free a \<and>
     a' = \<lparr>az_free = az_free a - frames p ord, az_alloc = insert (p, ord) (az_alloc a)\<rparr>"

definition spec_free_pages :: "nat \<Rightarrow> nat \<Rightarrow> abs_zone \<Rightarrow> abs_zone" where
  "spec_free_pages p ord a =
     \<lparr>az_free = az_free a \<union> frames p ord, az_alloc = az_alloc a - {(p, ord)}\<rparr>"

lemma alloc_page_from_correct:
  assumes inv: "buddy_inv z" and "ord \<le> cur" "ord < BUDDY_MAX_ORDER"
  shows "(alloc_page_from ord cur z = (None, z) \<and> (\<forall>q i. cur \<le> q \<longrightarrow> \<not> free_blk z i q)) \<or>
    (\<exists>p z'. alloc_page_from ord cur z = (Some p, z') \<and> buddy_inv z' \<and>
       spec_get_pages ord p (abs_zone_of z) (abs_zone_of z') \<and>
       (coalesced z \<longrightarrow> coalesced z') \<and> zone_geo z' = zone_geo z \<and>
       (\<exists>q i. ord \<le> q \<and> free_blk z i q))"
  using assms(2)
proof (induction "BUDDY_MAX_ORDER - cur" arbitrary: cur)
  case 0
  then have "alloc_page_from ord cur z = (None, z)"
    by (subst alloc_page_from.simps) simp
  then show ?case using 0 by (auto simp: free_blk_def)
next
  case (Suc d)
  then have o: "cur < BUDDY_MAX_ORDER" by simp
  show ?case
  proof (cases "fl_list (free_lists z cur)")
    case Nil
    then have eq: "alloc_page_from ord cur z = alloc_page_from ord (cur + 1) z"
      using o by (subst alloc_page_from.simps) simp
    have "\<not> free_blk z i cur" for i using Nil by (simp add: free_blk_def)
    then have up: "(\<forall>q i. cur + 1 \<le> q \<longrightarrow> \<not> free_blk z i q) \<Longrightarrow> (\<forall>q i. cur \<le> q \<longrightarrow> \<not> free_blk z i q)"
      by (metis Suc_eq_plus1 Suc_leI le_neq_implies_less)
    have "d = BUDDY_MAX_ORDER - (cur + 1)" "ord \<le> cur + 1" using Suc.hyps(2) Suc.prems by simp_all
    from Suc.hyps(1) [OF this] show ?thesis
      unfolding eq using up by (elim disjE) blast+
  next
    case (Cons p rest)
    let ?z1 = "zone_unlink p cur z"
    let ?z2 = "split_block p ord cur (2 ^ cur) ?z1"
    let ?z3 = "upd_page p (\<lambda>p. p\<lparr>pg_order := ord, pg_flags := pg_flags p OR push_bit PG_head 1\<rparr>) ?z2"
    have f: "free_blk z p cur" using Cons o by (simp add: free_blk_def)
    have eq: "alloc_page_from ord cur z = (Some p, ?z3)"
      using o Cons by (subst alloc_page_from.simps) (simp add: Let_def)
    note h1 = hole_unlink [OF inv f]
    note i1 = inv_unlink [OF inv f]
    note sp = split_block_correct [OF i1 h1 Suc.prems]
    have i2: "buddy_inv ?z2" and h2: "hole ?z2 p ord" using sp by blast+
    note mk = mark_head [OF i2 h2]
    have "alloc_blk ?z2 = alloc_blk z"
      using sp alloc_blk_unlink [OF inv f] by (simp add: fun_eq_iff)
    then have al: "az_alloc (abs_zone_of ?z3) = insert (p, ord) (az_alloc (abs_zone_of z))"
      using mk(3) by (auto simp: abs_zone_of_def)
    have "free_frames ?z2 \<union> frames p ord = free_frames z"
      using sp free_frames_unlink [OF inv f] by blast
    then have "free_frames ?z3 = free_frames z - frames p ord" "frames p ord \<subseteq> free_frames z"
      using hole_free_frames [OF h2] unfolding free_frames_cong [OF mk(2)] by blast+
    then have "spec_get_pages ord p (abs_zone_of z) (abs_zone_of ?z3)"
      using h2 al by (simp add: spec_get_pages_def abs_zone_of_def hole_def aligned_blk_def)
    moreover have "coalesced z \<longrightarrow> coalesced ?z3"
      using sp coalesced_unlink [OF inv f] unfolding coalesced_cong [OF mk(2)] by blast
    moreover have "zone_geo ?z3 = zone_geo z" using sp by simp
    ultimately show ?thesis using eq mk(1) f Suc.prems by blast
  qed
qed

lemma free_hole_correct:
  assumes inv: "buddy_inv z" and h: "hole z p ord"
  shows "\<exists>p' ord' z2. merge_buddies p ord z = Inr (p', ord', z2) \<and> ord' < BUDDY_MAX_ORDER \<and>
    buddy_inv (zone_link p' ord' z2) \<and> alloc_blk (zone_link p' ord' z2) = alloc_blk z \<and>
    free_frames (zone_link p' ord' z2) = free_frames z \<union> frames p ord \<and>
    (coalesced z \<longrightarrow> coalesced (zone_link p' ord' z2)) \<and>
    zone_geo (zone_link p' ord' z2) = zone_geo z \<and>
    (\<forall>j. j \<notin> free_frames z \<union> frames p ord \<longrightarrow> pages (zone_link p' ord' z2) j = pages z j)"
proof -
  obtain p' ord' z2 where m: "merge_buddies p ord z = Inr (p', ord', z2)"
    and i: "buddy_inv z2" and h': "hole z2 p' ord'" and a: "alloc_blk z2 = alloc_blk z"
    and ff: "free_frames z2 \<union> frames p' ord' = free_frames z \<union> frames p ord"
    and c: "coalesced z \<longrightarrow> coalesced z2"
    and nb: "ord' < BUDDY_MAX_ORDER - 1 \<longrightarrow> \<not> free_blk z2 (get_buddy_page p' ord') ord'"
    and g: "zone_geo z2 = zone_geo z"
    and pg: "\<forall>j. j \<notin> free_frames z \<union> frames p ord \<longrightarrow> pages z2 j = pages z j"
    using merge_buddies_correct [OF assms] by blast
  have o: "ord' < BUDDY_MAX_ORDER" "2 ^ ord' dvd p'" using h' by (simp_all add: hole_def aligned_blk_def)
  have "alloc_blk (zone_link p' ord' z2) = alloc_blk z"
    unfolding fun_eq_iff using alloc_blk_link [OF i h'] a by simp
  moreover have "coalesced z \<longrightarrow> coalesced (zone_link p' ord' z2)"
    using c nb coalesced_link [of z2 ord' p'] o by blast
  moreover have "p' \<in> free_frames z \<union> frames p ord" using ff frames_self by blast
  ultimately show ?thesis
    using m o inv_link [OF i h'] free_frames_link [OF o(1)] ff g pg
    by (intro exI [of _ p'] exI [of _ ord'] exI [of _ z2]) auto
qed

lemma buddy_free_pages_correct:
  assumes inv: "buddy_inv z" and a: "alloc_blk z p ord"
  shows "\<exists>z'. buddy_free_pages p z = Inr z' \<and> buddy_inv z' \<and>
    abs_zone_of z' = spec_free_pages p ord (abs_zone_of z) \<and>
    (coalesced z \<longrightarrow> coalesced z') \<and> zone_geo z' = zone_geo z"
proof -
  let ?z = "upd_page p (\<lambda>q. q\<lparr>pg_flags := pg_flags q AND NOT (push_bit PG_head 1)\<rparr>) z"
  note c = clear_head [OF inv a]
  obtain p' ord' z2 where m: "merge_buddies p ord ?z = Inr (p', ord', z2)" "ord' < BUDDY_MAX_ORDER"
    and i: "buddy_inv (zone_link p' ord' z2)" and al: "alloc_blk (zone_link p' ord' z2) = alloc_blk ?z"
    and ff: "free_frames (zone_link p' ord' z2) = free_frames ?z \<union> frames p ord"
    and co: "coalesced ?z \<longrightarrow> coalesced (zone_link p' ord' z2)"
    and g: "zone_geo (zone_link p' ord' z2) = zone_geo ?z"
    using free_hole_correct [OF c(1) c(4)] by blast
  have "pg_order (pages z p) = ord" using a by (simp add: alloc_blk_def)
  then have "buddy_free_pages p z = Inr (zone_link p' ord' z2)"
    using m by (simp add: buddy_free_pages_def)
  moreover have "abs_zone_of (zone_link p' ord' z2) = spec_free_pages p ord (abs_zone_of z)"
    using al ff c(3) free_frames_cong [OF c(2)] by (auto simp: abs_zone_of_def spec_free_pages_def)
  ultimately show ?thesis
    using i co g coalesced_cong [OF c(2)] by auto
qed

lemma buddy_get_pages_correct:
  assumes inv: "buddy_inv z" and o: "ord < BUDDY_MAX_ORDER"
  shows "(buddy_get_pages ord z = Inr (None, z) \<and> (\<forall>q i. ord \<le> q \<longrightarrow> \<not> free_blk z i q)) \<or>
    (\<exists>p z'. buddy_get_pages ord z = Inr (Some p, z') \<and> buddy_inv z' \<and>
       spec_get_pages ord p (abs_zone_of z) (abs_zone_of z') \<and>
       (coalesced z \<longrightarrow> coalesced z') \<and> zone_geo z' = zone_geo z \<and>
       (\<exists>q i. ord \<le> q \<and> free_blk z i q))"
  using alloc_page_from_correct [OF inv order.refl o] o
  by (auto simp: buddy_get_pages_def alloc_page_def)

text \<open>
  With every mergeable pair merged, an aligned run of free frames lies inside one free
  block: there is no external fragmentation below the largest order.
\<close>

lemma coalesced_run:
  assumes inv: "buddy_inv z" and c: "coalesced z"
  shows "ord < BUDDY_MAX_ORDER \<Longrightarrow> 2 ^ ord dvd p \<Longrightarrow> frames p ord \<subseteq> free_frames z \<Longrightarrow>
    \<exists>i q. ord \<le> q \<and> free_blk z i q \<and> frames p ord \<subseteq> frames i q"
proof (induction ord arbitrary: p)
  case 0
  have "p \<in> free_frames z" using 0 frames_self by blast
  moreover have "frames p 0 = {p}" by (auto simp: frames_def)
  ultimately show ?case unfolding in_free_frames by auto
next
  case (Suc ord)
  let ?hi = "p + 2 ^ ord"
  have d: "2 ^ ord dvd p" using Suc.prems(2) by (rule power_le_dvd) simp
  have sub: "frames p ord \<subseteq> free_frames z" "frames ?hi ord \<subseteq> free_frames z"
    using Suc.prems(3) unfolding frames_Suc by auto
  have whole: ?case if "ord < q" "free_blk z i q" "frames r ord \<subseteq> frames i q"
    "frames r ord \<subseteq> frames p (Suc ord)" for i q r
  proof -
    have al: "2 ^ q dvd i" using inv_alignedD [OF inv] that(2) by (simp add: blk_def aligned_blk_def)
    have "frames p (Suc ord) \<inter> frames i q \<noteq> {}" using that(3,4) frames_self [of r ord] by blast
    then have "frames p (Suc ord) \<subseteq> frames i q"
      using that(1) by (intro dyadic_nested [OF Suc.prems(2) al]) auto
    then show ?thesis using that(1,2) by (auto simp: Suc_le_eq)
  qed
  obtain i q where lo: "ord \<le> q" "free_blk z i q" "frames p ord \<subseteq> frames i q"
    using Suc.IH [of p] Suc.prems(1) d sub(1) by auto
  obtain j r where hi: "ord \<le> r" "free_blk z j r" "frames ?hi ord \<subseteq> frames j r"
    using Suc.IH [of ?hi] Suc.prems(1) d sub(2) by auto
  have start: "i' = p'" if "frames p' ord \<subseteq> frames i' ord" for p' i'
    using that by (simp add: frames_def ivl_subset)
  show ?case
  proof (cases "ord < q \<or> ord < r")
    case True
    then show ?thesis using whole lo hi frames_Suc by blast
  next
    case False
    then have "free_blk z p ord" "free_blk z ?hi ord"
      using lo hi start by (metis le_neq_implies_less)+
    moreover have "get_buddy_page p ord = ?hi"
      using aligned_not_bit [OF Suc.prems(2)] by (simp add: get_buddy_page_eq)
    moreover have "ord < BUDDY_MAX_ORDER - 1" using Suc.prems(1) by simp
    ultimately have False using c unfolding coalesced_def by metis
    then show ?thesis ..
  qed
qed

section \<open>Initialisation\<close>

text \<open>The zone after the first \<open>k\<close> frames have been put on the free lists.\<close>

definition init_upto :: "nat \<Rightarrow> global_mem \<Rightarrow> bool" where
  "init_upto k z \<longleftrightarrow> buddy_inv z \<and> coalesced z \<and> free_frames z = {..<k} \<and>
     (\<forall>i ord. \<not> alloc_blk z i ord) \<and> (\<forall>i. k \<le> i \<longrightarrow> i < page_num z \<longrightarrow> pages z i = zero_page)"

lemma init_upto_step:
  assumes u: "init_upto k z" and k: "k < page_num z"
  shows "\<exists>z'. buddy_free_pages k z = Inr z' \<and> init_upto (Suc k) z' \<and> zone_geo z' = zone_geo z"
proof -
  have inv: "buddy_inv z" and zp: "pages z k = zero_page"
    using u k by (simp_all add: init_upto_def)
  let ?z = "upd_page k (\<lambda>q. q\<lparr>pg_flags := pg_flags q AND NOT (push_bit PG_head 1)\<rparr>) z"
  have "pages ?z = pages z" using zp by (auto simp: zero_page_def fun_eq_iff)
  then have eq: "?z = z" by (simp add: upd_page_def)
  have "frames k 0 \<inter> frames j q = {}" if "blk z j q" for j q
  proof -
    have "frames j q \<subseteq> free_frames z" using that u by (auto simp: blk_def in_free_frames init_upto_def)
    then show ?thesis using u by (auto simp: init_upto_def frames_def)
  qed
  then have h: "hole z k 0" using k by (simp add: hole_def aligned_blk_def BUDDY_MAX_ORDER_def)
  obtain p' ord' z2 where m: "merge_buddies k 0 z = Inr (p', ord', z2)" "ord' < BUDDY_MAX_ORDER"
    and i: "buddy_inv (zone_link p' ord' z2)" and al: "alloc_blk (zone_link p' ord' z2) = alloc_blk z"
    and ff: "free_frames (zone_link p' ord' z2) = free_frames z \<union> frames k 0"
    and co: "coalesced z \<longrightarrow> coalesced (zone_link p' ord' z2)"
    and g: "zone_geo (zone_link p' ord' z2) = zone_geo z"
    and pg: "\<forall>j. j \<notin> free_frames z \<union> frames k 0 \<longrightarrow> pages (zone_link p' ord' z2) j = pages z j"
    using free_hole_correct [OF inv h] by blast
  have "buddy_free_pages k z = Inr (zone_link p' ord' z2)"
    using m zp by (simp add: buddy_free_pages_def eq [simplified]) (simp add: zero_page_def)
  moreover have fr: "free_frames z \<union> frames k 0 = {..<Suc k}"
    using u by (auto simp: init_upto_def frames_def)
  moreover have "page_num (zone_link p' ord' z2) = page_num z"
    using g by (simp add: zone_geo_def)
  ultimately show ?thesis
    using i al ff co g pg u unfolding fr init_upto_def by auto
qed

lemma free_each_init:
  "init_upto k z \<Longrightarrow> k + n \<le> page_num z \<Longrightarrow>
   \<exists>z'. free_each [k..<k + n] z = Inr z' \<and> init_upto (k + n) z' \<and> zone_geo z' = zone_geo z"
proof (induction n arbitrary: k z)
  case 0
  then show ?case by simp
next
  case (Suc n)
  then obtain z1 where z1: "buddy_free_pages k z = Inr z1" "init_upto (Suc k) z1" "zone_geo z1 = zone_geo z"
    using init_upto_step [of k z] by auto
  then have "page_num z1 = page_num z" by (simp add: zone_geo_def)
  then obtain z' where "free_each [Suc k..<Suc k + n] z1 = Inr z'" "init_upto (Suc k + n) z'"
    "zone_geo z' = zone_geo z1"
    using Suc.IH [OF z1(2)] Suc.prems by auto
  moreover have "[k..<k + Suc n] = k # [Suc k..<Suc k + n]"
    by (subst upt_conv_Cons) simp_all
  ultimately show ?case using z1 by simp
qed

lemma init_buddy_correct:
  assumes "8192 dvd n \<or> (\<forall>i \<ge> n. \<not> bit (pg_flags (mem i)) PG_buddy)"
  shows "\<exists>z. init_buddy mem va n = Inr z \<and> init_upto n z \<and> page_num z = n \<and>
    start_addr z = va \<and> end_addr z = va + of_nat n * BUDDY_PAGE_SIZE \<and>
    (\<forall>i < n. pg_slab (pages z i) = 0)"
proof -
  let ?z = "\<lparr>page_num = n, page_size = BUDDY_PAGE_SIZE, start_addr = va,
     end_addr = va + of_nat n * BUDDY_PAGE_SIZE, free_lists = (\<lambda>_. \<lparr>fl_list = [], nr_free = 0\<rparr>),
     pages = (\<lambda>i. if i < n then zero_page else mem i)\<rparr>"
  have e: "\<not> free_blk ?z i ord" "\<not> alloc_blk ?z i ord" for i ord
    by (auto simp: free_blk_def alloc_blk_def zero_page_def)
  have "buddy_inv ?z"
    using assms by (auto simp: buddy_inv_def e blk_def zero_page_def no_stray_def BUDDY_MAX_ORDER_def)
  then have "init_upto 0 ?z"
    by (auto simp: init_upto_def e coalesced_def in_free_frames)
  then obtain z where z: "free_each [0..<n] ?z = Inr z" "init_upto n z" "zone_geo z = zone_geo ?z"
    using free_each_init [of 0 ?z n] by auto
  have "pg_slab (pages z i) = pg_slab (pages ?z i)" for i
    using z(3) by (simp add: zone_geo_def fun_eq_iff)
  then have "\<forall>i < n. pg_slab (pages z i) = 0" by (simp add: zero_page_def)
  then show ?thesis using z by (simp add: init_buddy_def zone_geo_def)
qed

section \<open>The page allocator interface\<close>

text \<open>
  What the slab allocator, \<^verbatim>\<open>kmalloc\<close> and the page tables rely on. A request is either
  answered by a block that the specification allows, or refused because no aligned run of
  free frames is left; an allocated block can always be given back.
\<close>

datatype page_op = Get_Pages nat | Free_Pages nat

text \<open>A sequence of requests; one that gives back a page that is no block stops the run.\<close>

fun run_page_ops ::
  "(nat \<Rightarrow> 's \<Rightarrow> (nat option \<times> 's) res) \<Rightarrow> (nat \<Rightarrow> 's \<Rightarrow> 's res) \<Rightarrow> page_op list \<Rightarrow> 's \<Rightarrow> 's res" where
  "run_page_ops get free [] s = Inr s"
| "run_page_ops get free (Get_Pages ord # ops) s =
     bind_res (get ord s) (\<lambda>(p, s'). run_page_ops get free ops s')"
| "run_page_ops get free (Free_Pages p # ops) s =
     bind_res (free p s) (run_page_ops get free ops)"

text \<open>The requests a caller may make: orders below the maximum, pages it was given before.\<close>

fun legal_page_ops ::
  "nat \<Rightarrow> ('s \<Rightarrow> nat \<Rightarrow> bool) \<Rightarrow> (nat \<Rightarrow> 's \<Rightarrow> (nat option \<times> 's) res) \<Rightarrow> (nat \<Rightarrow> 's \<Rightarrow> 's res)
   \<Rightarrow> page_op list \<Rightarrow> 's \<Rightarrow> bool" where
  "legal_page_ops mx owned get free [] s = True"
| "legal_page_ops mx owned get free (Get_Pages ord # ops) s =
     (ord < mx \<and> (case get ord s of Inr (p, s') \<Rightarrow> legal_page_ops mx owned get free ops s' | Inl _ \<Rightarrow> True))"
| "legal_page_ops mx owned get free (Free_Pages p # ops) s =
     (owned s p \<and> (case free p s of Inr s' \<Rightarrow> legal_page_ops mx owned get free ops s' | Inl _ \<Rightarrow> True))"

definition all_frames :: "abs_zone \<Rightarrow> nat set" where
  "all_frames a = az_free a \<union> (\<Union>(i, ord) \<in> az_alloc a. frames i ord)"

locale page_allocator =
  fixes get :: "nat \<Rightarrow> 's \<Rightarrow> (nat option \<times> 's) res"
    and free :: "nat \<Rightarrow> 's \<Rightarrow> 's res"
    and owned :: "'s \<Rightarrow> nat \<Rightarrow> bool"
    and okay :: "'s \<Rightarrow> bool"
    and absz :: "'s \<Rightarrow> abs_zone"
    and mx :: nat
  assumes get_total: "okay s \<Longrightarrow> ord < mx \<Longrightarrow> \<exists>r s'. get ord s = Inr (r, s')"
    and get_some: "okay s \<Longrightarrow> ord < mx \<Longrightarrow> get ord s = Inr (Some p, s') \<Longrightarrow>
      okay s' \<and> spec_get_pages ord p (absz s) (absz s')"
    and get_none: "okay s \<Longrightarrow> ord < mx \<Longrightarrow> get ord s = Inr (None, s') \<Longrightarrow> s' = s"
    and get_run: "okay s \<Longrightarrow> ord < mx \<Longrightarrow> get ord s = Inr (None, s') \<Longrightarrow> 2 ^ ord dvd p \<Longrightarrow>
      \<not> frames p ord \<subseteq> az_free (absz s)"
    and owned_iff: "owned s p \<longleftrightarrow> (\<exists>ord. (p, ord) \<in> az_alloc (absz s))"
    and free_back: "okay s \<Longrightarrow> (p, ord) \<in> az_alloc (absz s) \<Longrightarrow>
      \<exists>s'. free p s = Inr s' \<and> okay s' \<and> absz s' = spec_free_pages p ord (absz s)"
    and blocks_apart: "okay s \<Longrightarrow> (p, i) \<in> az_alloc (absz s) \<Longrightarrow> (q, j) \<in> az_alloc (absz s) \<Longrightarrow>
      (p, i) \<noteq> (q, j) \<Longrightarrow> frames p i \<inter> frames q j = {}"
    and blocks_used: "okay s \<Longrightarrow> (p, i) \<in> az_alloc (absz s) \<Longrightarrow> frames p i \<inter> az_free (absz s) = {}"
begin

lemma get_then_free:
  assumes "okay s" "ord < mx" "get ord s = Inr (Some p, s')"
  shows "\<exists>s''. free p s' = Inr s'' \<and> okay s'' \<and> absz s'' = absz s"
proof -
  have g: "okay s'" "spec_get_pages ord p (absz s) (absz s')" using get_some [OF assms] by simp_all
  have fresh: "(p, ord) \<notin> az_alloc (absz s)"
    using blocks_used [OF assms(1), of p ord] g(2) frames_self by (fastforce simp: spec_get_pages_def)
  obtain s'' where "free p s' = Inr s''" "okay s''" "absz s'' = spec_free_pages p ord (absz s')"
    using free_back [OF g(1), of p ord] g(2) by (auto simp: spec_get_pages_def)
  moreover have "spec_free_pages p ord (absz s') = absz s"
    using g(2) fresh by (auto simp: spec_get_pages_def spec_free_pages_def intro!: abs_zone.equality)
  ultimately show ?thesis by simp
qed

lemma get_keeps_frames:
  assumes "okay s" "ord < mx" "get ord s = Inr (r, s')"
  shows "okay s' \<and> all_frames (absz s') = all_frames (absz s)"
proof (cases r)
  case None
  then have "s' = s" using get_none [OF assms(1,2)] assms(3) by blast
  then show ?thesis using assms(1) by simp
next
  case (Some p)
  then have "okay s'" "spec_get_pages ord p (absz s) (absz s')" using get_some assms by simp_all
  then show ?thesis by (auto simp: spec_get_pages_def all_frames_def)
qed

lemma free_keeps_frames:
  assumes "okay s" "(p, ord) \<in> az_alloc (absz s)" "free p s = Inr s'"
  shows "okay s' \<and> all_frames (absz s') = all_frames (absz s)"
proof -
  have "okay s'" "absz s' = spec_free_pages p ord (absz s)"
    using free_back [OF assms(1,2)] assms(3) by auto
  then show ?thesis
    using assms(2) by (auto simp: spec_free_pages_def all_frames_def)
qed

lemma run_legal:
  assumes "okay s" "legal_page_ops mx owned get free ops s"
  shows "\<exists>s'. run_page_ops get free ops s = Inr s' \<and> okay s' \<and> all_frames (absz s') = all_frames (absz s)"
  using assms
proof (induction ops arbitrary: s)
  case Nil
  then show ?case by simp
next
  case (Cons op ops)
  show ?case
  proof (cases op)
    case (Get_Pages ord)
    then have "ord < mx" using Cons.prems by simp
    moreover from this obtain r s1 where "get ord s = Inr (r, s1)" using Cons.prems get_total by blast
    ultimately show ?thesis
      using Get_Pages Cons.prems Cons.IH [of s1] get_keeps_frames [of s ord r s1] by auto
  next
    case (Free_Pages p)
    then obtain ord where o: "(p, ord) \<in> az_alloc (absz s)" using Cons.prems owned_iff by auto
    then obtain s1 where "free p s = Inr s1" using free_back Cons.prems by blast
    then show ?thesis
      using Free_Pages Cons.prems Cons.IH [of s1] free_keeps_frames [OF _ o, of s1] by auto
  qed
qed

end

definition buddy_okay :: "global_mem \<Rightarrow> bool" where
  "buddy_okay z \<longleftrightarrow> buddy_inv z \<and> coalesced z"

definition buddy_owned :: "global_mem \<Rightarrow> nat \<Rightarrow> bool" where
  "buddy_owned z p \<longleftrightarrow> p < page_num z \<and> bit (pg_flags (pages z p)) PG_head"

lemma spec_get_alloc:
  assumes "spec_get_pages ord p a (abs_zone_of z)"
  shows "alloc_blk z p ord"
proof -
  have "(p, ord) \<in> az_alloc (abs_zone_of z)" using assms by (simp add: spec_get_pages_def)
  then show ?thesis by (simp add: abs_zone_of_def)
qed

lemma alloc_free_apart:
  assumes "buddy_inv z" "alloc_blk z p i"
  shows "frames p i \<inter> free_frames z = {}"
proof -
  have "frames p i \<inter> frames j q = {}" if "free_blk z j q" for j q
  proof -
    have "(p, i) \<noteq> (j, q)" using inv_freeD(2) [OF assms(1) that] assms(2) by (auto simp: alloc_blk_def)
    then show ?thesis using inv_disjD [OF assms(1)] that assms(2) by (simp add: blk_def)
  qed
  then show ?thesis unfolding free_frames_def by blast
qed

interpretation buddy: page_allocator buddy_get_pages buddy_free_pages buddy_owned buddy_okay
  abs_zone_of BUDDY_MAX_ORDER
proof unfold_locales
  fix z :: global_mem and ord p z'
  assume z: "buddy_okay z" and o: "ord < BUDDY_MAX_ORDER"
  note cases = buddy_get_pages_correct [of z ord]
  show "\<exists>r s'. buddy_get_pages ord z = Inr (r, s')"
    using o by (auto simp: buddy_get_pages_def)
  show "buddy_get_pages ord z = Inr (Some p, z') \<Longrightarrow>
    buddy_okay z' \<and> spec_get_pages ord p (abs_zone_of z) (abs_zone_of z')"
    using cases z o by (auto simp: buddy_okay_def)
  assume n: "buddy_get_pages ord z = Inr (None, z')"
  show "z' = z" using n cases z o by (auto simp: buddy_okay_def)
  have none: "\<not> free_blk z i q" if "ord \<le> q" for i q
    using n cases z o that by (auto simp: buddy_okay_def)
  assume "2 ^ ord dvd p"
  then show "\<not> frames p ord \<subseteq> az_free (abs_zone_of z)"
    using coalesced_run [of z ord p] none z o by (auto simp: buddy_okay_def abs_zone_of_def)
next
  show "buddy_owned z p \<longleftrightarrow> (\<exists>ord. (p, ord) \<in> az_alloc (abs_zone_of z))" for z p
    by (auto simp: buddy_owned_def abs_zone_of_def alloc_blk_def)
next
  fix z :: global_mem and p ord
  assume "buddy_okay z" "(p, ord) \<in> az_alloc (abs_zone_of z)"
  then show "\<exists>s'. buddy_free_pages p z = Inr s' \<and> buddy_okay s' \<and>
      abs_zone_of s' = spec_free_pages p ord (abs_zone_of z)"
    using buddy_free_pages_correct [of z p ord] by (auto simp: buddy_okay_def abs_zone_of_def)
next
  show "frames p i \<inter> frames q j = {}"
    if "buddy_okay z" "(p, i) \<in> az_alloc (abs_zone_of z)" "(q, j) \<in> az_alloc (abs_zone_of z)"
      "(p, i) \<noteq> (q, j)" for z p i q j
    using that inv_disjD [of z p i q j] by (auto simp: buddy_okay_def abs_zone_of_def blk_def)
next
  show "frames p i \<inter> az_free (abs_zone_of z) = {}"
    if "buddy_okay z" "(p, i) \<in> az_alloc (abs_zone_of z)" for z p i
    using that alloc_free_apart [of z p i] by (auto simp: buddy_okay_def abs_zone_of_def)
qed

section \<open>Addresses\<close>

definition zone_addr_ok :: "global_mem \<Rightarrow> bool" where
  "zone_addr_ok z \<longleftrightarrow> unat (start_addr z) + page_num z * 4096 < 2 ^ 64 \<and>
     unat (end_addr z) = unat (start_addr z) + page_num z * 4096"

lemma BUDDY_PAGE_SIZE_4096: "BUDDY_PAGE_SIZE = 4096"
  by (simp add: BUDDY_PAGE_SIZE_def BUDDY_PAGE_SHIFT_def push_bit_eq_mult)

lemma unat_page_to_virt:
  assumes "zone_addr_ok z" "i \<le> page_num z"
  shows "unat (page_to_virt z (Some i)) = unat (start_addr z) + i * 4096"
proof -
  have le: "i * 4096 \<le> page_num z * 4096" using assms(2) by simp
  have "unat (start_addr z) + i * 4096 < 2 ^ 64"
    using assms(1) le unfolding zone_addr_ok_def by linarith
  then have "unat (of_nat (unat (start_addr z) + i * 4096) :: u64) = unat (start_addr z) + i * 4096"
    by (simp only: unat_of_nat len_num1 len_bit0) simp
  moreover have "of_nat (unat (start_addr z) + i * 4096) = page_to_virt z (Some i)"
    by (simp add: page_to_virt_def BUDDY_PAGE_SIZE_4096)
  ultimately show ?thesis by simp
qed

lemma virt_to_page_eq:
  assumes "start_addr z \<le> a" "a \<le> end_addr z"
  shows "virt_to_page z a = Inr ((unat a - unat (start_addr z)) div 4096)"
  using assms unat_sub [OF assms(1)]
  by (simp add: virt_to_page_def drop_bit_eq_div BUDDY_PAGE_SHIFT_def unat_div linorder_not_less [symmetric])

section \<open>Properties\<close>

text \<open>A two-page zone on which the hypotheses of the properties are evaluated.\<close>

lemma demo_zone:
  obtains z where "init_buddy (\<lambda>_. zero_page) 4096 2 = Inr z" "buddy_okay z" "free_frames z = {..<2}"
    "zone_addr_ok z" "page_num z = 2" "start_addr z = 4096"
proof -
  obtain z where z: "init_buddy (\<lambda>_. zero_page) 4096 2 = Inr z" "init_upto 2 z" "page_num z = 2"
    "start_addr z = 4096" "end_addr z = 4096 + of_nat 2 * BUDDY_PAGE_SIZE"
    using init_buddy_correct [of 2 "\<lambda>_. zero_page" 4096] by (auto simp: zero_page_def)
  show thesis
    by (rule that [of z]) (use z in \<open>simp_all add: init_upto_def buddy_okay_def zone_addr_ok_def BUDDY_PAGE_SIZE_4096\<close>)
qed

text \<open>
  \<^verbatim>\<open>init_buddy\<close> gives a well-formed, fully merged zone in which every frame is free,
  provided the number of pages is a multiple of the largest block or the metadata memory
  behind the last page does not happen to hold the \<^verbatim>\<open>PG_buddy\<close> flag.
\<close>

theorem init_buddy_all_free:
  assumes "8192 dvd n \<or> (\<forall>i \<ge> n. \<not> bit (pg_flags (mem i)) PG_buddy)"
  shows "\<exists>z. init_buddy mem va n = Inr z \<and> buddy_okay z \<and> page_num z = n \<and>
    free_frames z = {..<n} \<and> az_alloc (abs_zone_of z) = {}"
  using init_buddy_correct [OF assms, of va]
  by (auto simp: buddy_okay_def init_upto_def abs_zone_of_def)

theorem init_buddy_all_free_witness:
  "\<exists>z. init_buddy (\<lambda>_. zero_page) 4096 11 = Inr z \<and> buddy_okay z \<and> page_num z = 11 \<and>
    free_frames z = {..<11} \<and> az_alloc (abs_zone_of z) = {}"
  by (rule init_buddy_all_free) (simp add: zero_page_def)

text \<open>
  C1: \<^verbatim>\<open>buddy_get_pages\<close> implements the abstract request: it returns a block exactly when some
  aligned run of that many free frames exists, the block was free and leaves the free
  frames, and a refused request changes nothing.
\<close>

theorem buddy_get_pages_refines:
  assumes "buddy_okay z" "ord < BUDDY_MAX_ORDER"
  shows "\<exists>r z'. buddy_get_pages ord z = Inr (r, z') \<and> buddy_okay z' \<and>
    (r \<noteq> None \<longleftrightarrow> (\<exists>q. 2 ^ ord dvd q \<and> frames q ord \<subseteq> free_frames z)) \<and>
    (case r of None \<Rightarrow> z' = z
     | Some p \<Rightarrow> spec_get_pages ord p (abs_zone_of z) (abs_zone_of z'))"
proof -
  obtain r z' where g: "buddy_get_pages ord z = Inr (r, z')"
    using buddy.get_total [OF assms] by blast
  show ?thesis
  proof (cases r)
    case None
    then have "z' = z" "\<And>q. 2 ^ ord dvd q \<Longrightarrow> \<not> frames q ord \<subseteq> free_frames z"
      using buddy.get_none [OF assms] buddy.get_run [OF assms] g by (auto simp: abs_zone_of_def)
    then show ?thesis using g None assms by auto
  next
    case (Some p)
    then have "buddy_okay z'" "spec_get_pages ord p (abs_zone_of z) (abs_zone_of z')"
      using buddy.get_some [OF assms] g by auto
    then show ?thesis using g Some by (auto simp: spec_get_pages_def abs_zone_of_def)
  qed
qed

theorem buddy_get_pages_refines_witness:
  "\<exists>z. init_buddy (\<lambda>_. zero_page) 4096 2 = Inr z \<and>
     (\<exists>r z'. buddy_get_pages 1 z = Inr (r, z') \<and> buddy_okay z' \<and>
       (r \<noteq> None \<longleftrightarrow> (\<exists>q. 2 ^ 1 dvd q \<and> frames q 1 \<subseteq> free_frames z)) \<and>
       (case r of None \<Rightarrow> z' = z
        | Some p \<Rightarrow> spec_get_pages 1 p (abs_zone_of z) (abs_zone_of z')))"
proof -
  obtain z where z: "init_buddy (\<lambda>_. zero_page) 4096 2 = Inr z" "buddy_okay z" by (rule demo_zone)
  show ?thesis
    by (rule exI [of _ z], rule conjI, rule z(1), rule buddy_get_pages_refines [OF z(2)])
      (simp add: BUDDY_MAX_ORDER_def)
qed

text \<open>
  C2: \<^verbatim>\<open>buddy_free_pages\<close> on an allocated block never fails, returns exactly its frames to the
  free frames, and leaves no two free buddies unmerged.
\<close>

theorem buddy_free_pages_refines:
  assumes "buddy_okay z" "alloc_blk z p ord"
  shows "\<exists>z'. buddy_free_pages p z = Inr z' \<and> buddy_okay z' \<and>
    abs_zone_of z' = spec_free_pages p ord (abs_zone_of z)"
  using buddy.free_back [of z p ord] assms by (auto simp: abs_zone_of_def)

theorem buddy_free_pages_refines_witness:
  "\<exists>z p z1 z'. init_buddy (\<lambda>_. zero_page) 4096 2 = Inr z \<and>
     buddy_get_pages 1 z = Inr (Some p, z1) \<and> buddy_free_pages p z1 = Inr z' \<and> buddy_okay z' \<and>
     abs_zone_of z' = spec_free_pages p 1 (abs_zone_of z1)"
proof -
  obtain z where z: "init_buddy (\<lambda>_. zero_page) 4096 2 = Inr z" "buddy_okay z" "free_frames z = {..<2}"
    by (rule demo_zone)
  have o: "1 < BUDDY_MAX_ORDER" by (simp add: BUDDY_MAX_ORDER_def)
  have run: "frames 0 1 \<subseteq> az_free (abs_zone_of z)" using z(3) by (simp add: abs_zone_of_def frames_def subset_iff)
  obtain r z1 where r: "buddy_get_pages 1 z = Inr (r, z1)" using buddy.get_total [OF z(2) o] by blast
  have "r \<noteq> None"
  proof
    assume "r = None"
    then have "\<not> frames 0 1 \<subseteq> az_free (abs_zone_of z)" using r by (intro buddy.get_run [OF z(2) o]) simp_all
    then show False using run ..
  qed
  then obtain p where p: "buddy_get_pages 1 z = Inr (Some p, z1)" using r by blast
  have z1: "buddy_okay z1" "alloc_blk z1 p 1"
    using buddy.get_some [OF z(2) o p] spec_get_alloc by blast+
  obtain z' where "buddy_free_pages p z1 = Inr z'" "buddy_okay z'"
    "abs_zone_of z' = spec_free_pages p 1 (abs_zone_of z1)"
    using buddy_free_pages_refines [OF z1] by blast
  then show ?thesis
    using z(1) p by (intro exI [of _ z] exI [of _ p] exI [of _ z1] exI [of _ z'] conjI)
qed

text \<open>
  C3: No sequence of requests loses or duplicates a frame: from a fresh zone, after any legal
  sequence of \<^verbatim>\<open>buddy_get_pages\<close> and \<^verbatim>\<open>buddy_free_pages\<close> every frame is free or in an
  allocated block, allocated blocks do not overlap, and none of their frames is free.
\<close>

theorem buddy_frames_conserved:
  assumes "8192 dvd n \<or> (\<forall>i \<ge> n. \<not> bit (pg_flags (mem i)) PG_buddy)" and "init_buddy mem va n = Inr z"
    and "legal_page_ops BUDDY_MAX_ORDER buddy_owned buddy_get_pages buddy_free_pages ops z"
  shows "\<exists>z'. run_page_ops buddy_get_pages buddy_free_pages ops z = Inr z' \<and>
    all_frames (abs_zone_of z') = {..<n} \<and>
    (\<forall>p i q j. alloc_blk z' p i \<longrightarrow> alloc_blk z' q j \<longrightarrow> (p, i) \<noteq> (q, j) \<longrightarrow>
       frames p i \<inter> frames q j = {}) \<and>
    (\<forall>p i. alloc_blk z' p i \<longrightarrow> frames p i \<inter> free_frames z' = {})"
proof -
  have z: "buddy_okay z" "free_frames z = {..<n}" "az_alloc (abs_zone_of z) = {}"
    using init_buddy_correct [OF assms(1), of va] assms(2)
    by (auto simp: buddy_okay_def init_upto_def abs_zone_of_def)
  obtain z' where z': "run_page_ops buddy_get_pages buddy_free_pages ops z = Inr z'"
    "buddy_okay z'" "all_frames (abs_zone_of z') = all_frames (abs_zone_of z)"
    using buddy.run_legal [OF z(1) assms(3)] by blast
  have "all_frames (abs_zone_of z) = {..<n}"
    using z(2,3) by (simp add: all_frames_def) (simp add: abs_zone_of_def)
  then show ?thesis
    using z' buddy.blocks_apart [OF z'(2)] buddy.blocks_used [OF z'(2)]
    by (simp add: abs_zone_of_def)
qed

lemma demo_requests:
  "case init_buddy (\<lambda>_. zero_page) 4096 2 of Inl _ \<Rightarrow> False
   | Inr z \<Rightarrow> legal_page_ops BUDDY_MAX_ORDER buddy_owned buddy_get_pages buddy_free_pages
       [Get_Pages 0, Free_Pages 0] z"
  by code_simp

theorem buddy_frames_conserved_witness:
  "\<exists>z z'. init_buddy (\<lambda>_. zero_page) 4096 2 = Inr z \<and>
     run_page_ops buddy_get_pages buddy_free_pages [Get_Pages 0, Free_Pages 0] z = Inr z' \<and>
     all_frames (abs_zone_of z') = {..<2}"
proof -
  obtain z where z: "init_buddy (\<lambda>_. zero_page) 4096 2 = Inr z" by (rule demo_zone)
  have l: "legal_page_ops BUDDY_MAX_ORDER buddy_owned buddy_get_pages buddy_free_pages
      [Get_Pages 0, Free_Pages 0] z"
    using demo_requests unfolding z sum.case .
  have "8192 dvd (2::nat) \<or> (\<forall>i\<ge>2. \<not> bit (pg_flags ((\<lambda>_. zero_page) i)) PG_buddy)"
    by (simp add: zero_page_def)
  from buddy_frames_conserved [OF this z l] z show ?thesis by blast
qed

text \<open>
  C4: Addresses and page metadata correspond: every address inside the zone maps to the
  metadata of the page that contains it, and the page's own address maps back to it.
\<close>

theorem virt_to_page_inside:
  assumes "zone_addr_ok z" "unat (start_addr z) \<le> unat a"
    "unat a < unat (start_addr z) + page_num z * 4096"
  shows "\<exists>i < page_num z. virt_to_page z a = Inr i \<and>
    unat (page_to_virt z (Some i)) \<le> unat a \<and> unat a < unat (page_to_virt z (Some i)) + 4096 \<and>
    virt_to_page z (page_to_virt z (Some i)) = Inr i"
proof -
  let ?d = "unat a - unat (start_addr z)"
  define i where "i = ?d div 4096"
  have d: "?d < page_num z * 4096" using assms by linarith
  then have i: "i < page_num z" unfolding i_def by (simp add: div_less_iff_less_mult)
  have u: "unat (page_to_virt z (Some i)) = unat (start_addr z) + i * 4096"
    using unat_page_to_virt [OF assms(1)] i by simp
  have r: "i * 4096 \<le> ?d" "?d < i * 4096 + 4096"
    unfolding i_def by (simp, metis add.commute div_mult_mod_eq mod_less_divisor nat_add_left_cancel_less zero_less_numeral)
  have "virt_to_page z a = Inr i"
    unfolding i_def using assms by (intro virt_to_page_eq) (auto simp: word_le_nat_alt zone_addr_ok_def)
  moreover have "virt_to_page z (page_to_virt z (Some i)) = Inr i"
    using u i assms(1) by (subst virt_to_page_eq) (auto simp: word_le_nat_alt zone_addr_ok_def)
  ultimately show ?thesis using i u r assms(2) by auto
qed

theorem virt_to_page_inside_witness:
  "\<exists>z. init_buddy (\<lambda>_. zero_page) 4096 2 = Inr z \<and>
    (\<exists>i < page_num z. virt_to_page z 8200 = Inr i \<and>
      unat (page_to_virt z (Some i)) \<le> unat (8200 :: u64) \<and>
      unat (8200 :: u64) < unat (page_to_virt z (Some i)) + 4096 \<and>
      virt_to_page z (page_to_virt z (Some i)) = Inr i)"
proof -
  obtain z where z: "init_buddy (\<lambda>_. zero_page) 4096 2 = Inr z" "zone_addr_ok z" "page_num z = 2"
    "start_addr z = 4096"
    using demo_zone by metis
  show ?thesis
    by (rule exI [of _ z], rule conjI, rule z(1), rule virt_to_page_inside [OF z(2)]) (simp_all add: z)
qed

section \<open>Behaviour at the zone's end\<close>

text \<open>
  The range check of \<^verbatim>\<open>virt_to_page\<close> lets the end address through: it is mapped to the
  metadata cell behind the last page.
\<close>

lemma virt_to_page_accepts_end:
  assumes "zone_addr_ok z"
  shows "virt_to_page z (end_addr z) = Inr (page_num z)"
  using assms by (subst virt_to_page_eq) (auto simp: word_le_nat_alt zone_addr_ok_def)

text \<open>
  The merge loop tests the buddy's metadata without comparing its index with
  \<open>page_num\<close>: with an odd number of pages, a stray word behind the array makes
  initialisation unlink a node that is on no list.
\<close>

lemma init_buddy_reads_past_end:
  "case init_buddy (\<lambda>_. \<lparr>pg_flags = 2, pg_order = 0, pg_slab = 0\<rparr>) 4096 1 of
     Inl e \<Rightarrow> e = Bad_Access | Inr _ \<Rightarrow> False"
  by code_simp

end
