(* ===== verification/Slab.thy ===== *)
theory Slab
  imports Buddy
begin

text \<open>
  The slab allocator of \<^verbatim>\<open>kernel/mm/slab.c\<close>. A slab is a block of 2 MB from the buddy
  allocator, cut into slots of one size; the first slot holds the slab's header, the free
  slots form a chain through their first word, and the slabs of one size form a chain
  through their headers. Both chains are modelled with their pointers. The loops that
  follow a chain are partial: on a cyclic chain they do not return.
\<close>

section \<open>Data\<close>

definition SLAB_INIT_SIZE :: u64 where "SLAB_INIT_SIZE = 2 * 1024 * 1024"
definition SLAB_MIN_ORDER :: nat where "SLAB_MIN_ORDER = 5"
definition SLAB_MAX_ORDER :: nat where "SLAB_MAX_ORDER = 11"
definition DETECTING_DOUBLE_FREE_IN_SLAB :: bool where "DETECTING_DOUBLE_FREE_IN_SLAB = False"

record slab_header =
  free_list_head :: u64
  next_slab :: u64
  sh_order :: nat

record slab_state =
  zone :: global_mem
  slabs :: "nat \<Rightarrow> u64"
  hdr :: "u64 \<Rightarrow> slab_header"
  next_free :: "u64 \<Rightarrow> u64"

section \<open>Operations\<close>

text \<open>The loop that \<^verbatim>\<open>size_to_order\<close> and \<^verbatim>\<open>size_to_page_order\<close> share.\<close>

fun halvings :: "nat \<Rightarrow> nat \<Rightarrow> nat" where
  "halvings tmp ord = (if tmp > 1 then halvings (tmp div 2) (ord + 1) else ord)"

declare halvings.simps [simp del]

text \<open>\<^verbatim>\<open>int tmp = size\<close> keeps the low 32 bits, as a signed number.\<close>

definition size_to_order :: "u64 \<Rightarrow> nat" where
  "size_to_order sz =
     (let ord = halvings (nat (sint (ucast sz :: 32 word))) 0
      in if push_bit ord 1 < sz then ord + 1 else ord)"

definition order_to_size :: "nat \<Rightarrow> u64" where
  "order_to_size ord = push_bit ord 1"

definition set_page_slab :: "nat \<Rightarrow> u64 \<Rightarrow> global_mem \<Rightarrow> global_mem" where
  "set_page_slab i a z = upd_page i (\<lambda>p. p\<lparr>pg_slab := a\<rparr>) z"

fun mark_slab_pages :: "nat list \<Rightarrow> u64 \<Rightarrow> global_mem \<Rightarrow> global_mem res" where
  "mark_slab_pages [] addr z = Inr z"
| "mark_slab_pages (i # is) addr z =
     bind_res (virt_to_page z (addr + of_nat i * BUDDY_PAGE_SIZE)) (\<lambda>page.
       mark_slab_pages is addr (set_page_slab page addr z))"

definition alloc_slab_memory :: "u64 \<Rightarrow> global_mem \<Rightarrow> (u64 \<times> global_mem) res" where
  "alloc_slab_memory sz z =
     (let ord = size_to_order (sz div BUDDY_PAGE_SIZE)
      in bind_res (buddy_get_pages ord z) (\<lambda>(p_page, z1).
           bug_on (p_page = None)
             (let addr = page_to_virt z1 p_page
              in bind_res (mark_slab_pages [0..<unat (order_to_size ord)] addr z1) (\<lambda>z2.
                   Inr (addr, z2)))))"

text \<open>The loop of \<^verbatim>\<open>init_slab_cache\<close>, with the number of rounds that remain.\<close>

fun link_slots :: "nat \<Rightarrow> u64 \<Rightarrow> u64 \<Rightarrow> (u64 \<Rightarrow> u64) \<Rightarrow> u64 \<Rightarrow> u64" where
  "link_slots 0 slot obj_size nf = nf(slot := 0)"
| "link_slots (Suc n) slot obj_size nf =
     link_slots n (slot + obj_size) obj_size (nf(slot := slot + obj_size))"

definition init_slab_cache :: "nat \<Rightarrow> u64 \<Rightarrow> slab_state \<Rightarrow> (u64 \<times> slab_state) res" where
  "init_slab_cache ord sz s =
     bind_res (alloc_slab_memory sz (zone s)) (\<lambda>(addr, z).
       let obj_size = order_to_size ord;
           cnt = sz div obj_size - 1;
           slot = addr + obj_size
       in Inr (addr,
            s\<lparr>zone := z,
              hdr := (hdr s)(addr := \<lparr>free_list_head = slot, next_slab = 0, sh_order = ord\<rparr>),
              next_free := link_slots (unat (cnt - 1)) slot obj_size (next_free s)\<rparr>))"

definition pop_slot :: "u64 \<Rightarrow> slab_state \<Rightarrow> u64 \<times> slab_state" where
  "pop_slot h s =
     (let first_slot = free_list_head (hdr s h)
      in (first_slot,
          s\<lparr>hdr := (hdr s)(h := (hdr s h)\<lparr>free_list_head := next_free s first_slot\<rparr>)\<rparr>))"

text \<open>The first slab of the chain with a free slot; null at the end of the chain.\<close>

partial_function (option) find_free_slab :: "(u64 \<Rightarrow> slab_header) \<Rightarrow> u64 \<Rightarrow> u64 option" where
  "find_free_slab hs h =
     (if h = 0 then Some 0
      else if free_list_head (hs h) \<noteq> 0 then Some h
      else find_free_slab hs (next_slab (hs h)))"

partial_function (option) alloc_in_slab_nolock ::
  "u64 \<Rightarrow> nat \<Rightarrow> slab_state \<Rightarrow> (u64 \<times> slab_state) res option" where
  "alloc_in_slab_nolock slab_header ord s =
     (if slab_header = 0 then Some (Inl Bad_Access)
      else if free_list_head (hdr s slab_header) \<noteq> 0 then Some (Inr (pop_slot slab_header s))
      else Option.bind (find_free_slab (hdr s) (next_slab (hdr s slab_header))) (\<lambda>n.
        if n \<noteq> 0 then Some (Inr (pop_slot n s))
        else case init_slab_cache ord SLAB_INIT_SIZE s of
               Inl e \<Rightarrow> Some (Inl e)
             | Inr (new_slab, s1) \<Rightarrow>
                 alloc_in_slab_nolock new_slab ord
                   (s1\<lparr>hdr := (hdr s1)(new_slab := (hdr s1 new_slab)\<lparr>next_slab := slab_header\<rparr>),
                       slabs := (slabs s1)(ord := new_slab)\<rparr>)))"

definition returns :: "'a res option \<Rightarrow> 'a res" where
  "returns r = (case r of None \<Rightarrow> Inl No_Return | Some x \<Rightarrow> x)"

definition alloc_in_slab_locked :: "u64 \<Rightarrow> nat \<Rightarrow> slab_state \<Rightarrow> (u64 \<times> slab_state) res" where
  "alloc_in_slab_locked slab_header ord s = returns (alloc_in_slab_nolock slab_header ord s)"

fun init_slab_orders :: "nat list \<Rightarrow> slab_state \<Rightarrow> slab_state res" where
  "init_slab_orders [] s = Inr s"
| "init_slab_orders (ord # os) s =
     bind_res (init_slab_cache ord SLAB_INIT_SIZE s) (\<lambda>(a, s1).
       init_slab_orders os (s1\<lparr>slabs := (slabs s1)(ord := a)\<rparr>))"

definition init_slab :: "slab_state \<Rightarrow> slab_state res" where
  "init_slab s = init_slab_orders [SLAB_MIN_ORDER..<SLAB_MAX_ORDER + 1] s"

definition slab_order :: "u64 \<Rightarrow> nat" where
  "slab_order sz = (if size_to_order sz < SLAB_MIN_ORDER then SLAB_MIN_ORDER else size_to_order sz)"

definition alloc_in_slab :: "u64 \<Rightarrow> slab_state \<Rightarrow> (u64 \<times> slab_state) res" where
  "alloc_in_slab sz s =
     bug_on (order_to_size SLAB_MAX_ORDER < sz)
       (alloc_in_slab_locked (slabs s (slab_order sz)) (slab_order sz) s)"

text \<open>\<^verbatim>\<open>check_slot_is_free\<close>: both loops, over the slots of a slab and over the slabs.\<close>

partial_function (option) slot_in_chain :: "(u64 \<Rightarrow> u64) \<Rightarrow> u64 \<Rightarrow> u64 \<Rightarrow> bool option" where
  "slot_in_chain nf cur slot =
     (if cur = 0 then Some False
      else if cur = slot then Some True
      else slot_in_chain nf (nf cur) slot)"

partial_function (option) check_next_slabs :: "slab_state \<Rightarrow> u64 \<Rightarrow> u64 \<Rightarrow> bool option" where
  "check_next_slabs s h slot =
     (if h = 0 then Some False
      else Option.bind (slot_in_chain (next_free s) (free_list_head (hdr s h)) slot) (\<lambda>found.
        if found then Some True else check_next_slabs s (next_slab (hdr s h)) slot))"

definition check_slot_is_free :: "slab_state \<Rightarrow> u64 \<Rightarrow> u64 \<Rightarrow> bool option" where
  "check_slot_is_free s slab_header slot =
     Option.bind (slot_in_chain (next_free s) (free_list_head (hdr s slab_header)) slot) (\<lambda>found.
       if found then Some True else check_next_slabs s (next_slab (hdr s slab_header)) slot)"

definition free_in_slab_checked :: "bool \<Rightarrow> u64 \<Rightarrow> slab_state \<Rightarrow> slab_state res" where
  "free_in_slab_checked detect addr s =
     bind_res (virt_to_page (zone s) addr) (\<lambda>page.
       let slab = pg_slab (pages (zone s) page)
       in if slab = 0 then Inl Bad_Access
          else bind_res (if detect then returns (map_option Inr (check_slot_is_free s slab addr))
                         else Inr False) (\<lambda>double.
            bug_on double
              (Inr (s\<lparr>next_free := (next_free s)(addr := free_list_head (hdr s slab)),
                      hdr := (hdr s)(slab := (hdr s slab)\<lparr>free_list_head := addr\<rparr>)\<rparr>))))"

definition free_in_slab :: "u64 \<Rightarrow> slab_state \<Rightarrow> slab_state res" where
  "free_in_slab addr s = free_in_slab_checked DETECTING_DOUBLE_FREE_IN_SLAB addr s"

section \<open>Sizes\<close>

lemma halvings_bounds:
  "0 < n \<Longrightarrow> ord \<le> halvings n ord \<and> 2 ^ (halvings n ord - ord) \<le> n \<and> n < 2 ^ Suc (halvings n ord - ord)"
proof (induction n ord rule: halvings.induct)
  case (1 n ord)
  show ?case
  proof (cases "1 < n")
    case False
    then have "halvings n ord = ord" by (subst halvings.simps) simp
    then show ?thesis using 1 False by simp
  next
    case True
    then have eq: "halvings n ord = halvings (n div 2) (ord + 1)" by (subst halvings.simps) simp
    define d where "d = halvings (n div 2) (ord + 1) - (ord + 1)"
    have IH: "ord + 1 \<le> halvings (n div 2) (ord + 1)" "2 ^ d \<le> n div 2" "n div 2 < 2 ^ Suc d"
      using 1(1) [OF True] True by (simp_all add: d_def)
    have e: "halvings (n div 2) (ord + 1) - ord = Suc d" using IH(1) by (simp add: d_def)
    have "2 ^ Suc d \<le> n" "n < 2 ^ Suc (Suc d)" using IH(2,3) by simp_all
    then show ?thesis using IH(1) unfolding eq e by simp
  qed
qed

text \<open>The least order whose size is large enough.\<close>

definition ceil_log2 :: "nat \<Rightarrow> nat" where
  "ceil_log2 n = (LEAST ord. n \<le> 2 ^ ord)"

lemma ceil_log2_le_iff: "ceil_log2 n \<le> ord \<longleftrightarrow> n \<le> 2 ^ ord"
proof
  have "n \<le> 2 ^ n" by (simp add: less_imp_le)
  then have "n \<le> 2 ^ ceil_log2 n" unfolding ceil_log2_def by (rule LeastI)
  then show "ceil_log2 n \<le> ord \<Longrightarrow> n \<le> 2 ^ ord"
    by (meson le_trans one_le_numeral power_increasing)
next
  show "n \<le> 2 ^ ord \<Longrightarrow> ceil_log2 n \<le> ord" unfolding ceil_log2_def by (rule Least_le)
qed

lemma ceil_log2_eqI:
  assumes "n \<le> 2 ^ ord" "ord = 0 \<or> 2 ^ (ord - 1) < n"
  shows "ceil_log2 n = ord"
proof (rule antisym)
  show "ceil_log2 n \<le> ord" using assms(1) by (simp add: ceil_log2_le_iff)
  show "ord \<le> ceil_log2 n"
  proof (rule ccontr)
    assume "\<not> ord \<le> ceil_log2 n"
    then have "ceil_log2 n \<le> ord - 1" "ord \<noteq> 0" by simp_all
    then show False using assms(2) by (simp add: ceil_log2_le_iff)
  qed
qed

lemma halvings_ceil:
  assumes "0 < n" "ord = halvings n 0"
  shows "(if 2 ^ ord < n then ord + 1 else ord) = ceil_log2 n"
proof -
  have b: "2 ^ ord \<le> n" "n < 2 ^ Suc ord" using halvings_bounds [OF assms(1), of 0] assms(2) by simp_all
  have lt: "ord \<noteq> 0 \<Longrightarrow> (2::nat) ^ (ord - 1) < 2 ^ ord" by (simp add: power_strict_increasing)
  show ?thesis
    using b lt by (auto intro!: ceil_log2_eqI [symmetric])
qed

lemma unat_order_to_size:
  assumes "ord < 64"
  shows "unat (order_to_size ord) = 2 ^ ord"
proof -
  have "order_to_size ord = of_nat (2 ^ ord)" by (simp add: order_to_size_def)
  moreover have "(2::nat) ^ ord < 2 ^ 64" using assms by (rule power_strict_increasing) simp
  ultimately show ?thesis by (simp only: unat_of_nat len_num1 len_bit0) simp
qed

lemma size_to_order_eq:
  assumes "0 < unat sz" "unat sz < 2 ^ 31"
  shows "size_to_order sz = ceil_log2 (unat sz)"
proof -
  have "sint (ucast sz :: 32 word) = int (unat sz)"
  proof -
    have "int (unat sz) < int (2 ^ 31)" using assms(2) by (simp only: of_nat_less_iff)
    then have i: "uint sz < 2 ^ 31" by simp
    have "sint (ucast sz :: 32 word) = signed_take_bit 31 (take_bit 32 (uint sz))"
      by (simp add: sint_uint unsigned_ucast_eq)
    also have "take_bit 32 (uint sz) = uint sz" using i by (intro take_bit_int_eq_self) simp_all
    also have "signed_take_bit 31 (uint sz) = uint sz" using i order.trans [OF _ uint_ge_0 [of sz], of "- (2 ^ 31)"]
      by (intro signed_take_bit_int_eq_self) simp_all
    finally show ?thesis by simp
  qed
  then have t: "nat (sint (ucast sz :: 32 word)) = unat sz" by simp
  define ord where "ord = halvings (unat sz) 0"
  have "2 ^ ord \<le> unat sz" using halvings_bounds [OF assms(1), of 0] by (simp add: ord_def)
  then have "(2::nat) ^ ord < 2 ^ 31" using assms(2) by linarith
  then have o: "ord < 31" using power_less_imp_less_exp [of "2::nat" ord 31] by simp
  have lt: "push_bit ord 1 < sz \<longleftrightarrow> 2 ^ ord < unat sz"
    using o unat_order_to_size [of ord] by (simp add: word_less_nat_alt order_to_size_def)
  show ?thesis
    unfolding size_to_order_def t Let_def ord_def [symmetric] lt by (rule halvings_ceil [OF assms(1) ord_def])
qed

lemma size_to_order_0: "size_to_order 0 = 0"
  by code_simp

section \<open>Slab geometry\<close>

definition slot_cnt :: "nat \<Rightarrow> nat" where
  "slot_cnt ord = 2 ^ 21 div 2 ^ ord - 1"

definition slot_addr :: "u64 \<Rightarrow> nat \<Rightarrow> nat \<Rightarrow> u64" where
  "slot_addr h ord k = h + of_nat (k * 2 ^ ord)"

definition slots :: "u64 \<Rightarrow> nat \<Rightarrow> u64 set" where
  "slots h ord = slot_addr h ord ` {1..slot_cnt ord}"

definition slab_range :: "nat \<Rightarrow> bool" where
  "slab_range ord \<longleftrightarrow> SLAB_MIN_ORDER \<le> ord \<and> ord \<le> SLAB_MAX_ORDER"

text \<open>A 2 MB slab is a buddy block of order 9.\<close>

definition slab_block :: "global_mem \<Rightarrow> u64 \<Rightarrow> nat \<Rightarrow> bool" where
  "slab_block z h p \<longleftrightarrow> alloc_blk z p 9 \<and> h = page_to_virt z (Some p) \<and>
     (\<forall>i \<in> frames p 9. pg_slab (pages z i) = h)"

definition zone_sane :: "global_mem \<Rightarrow> bool" where
  "zone_sane z \<longleftrightarrow> buddy_okay z \<and> zone_addr_ok z \<and> start_addr z \<noteq> 0"

lemma slot_span:
  assumes "slab_range ord" "k \<le> slot_cnt ord"
  shows "k * 2 ^ ord + 2 ^ ord \<le> 2 ^ 21"
proof -
  have "ord \<le> 21" using assms(1) by (simp add: slab_range_def SLAB_MAX_ORDER_def)
  then have "(2::nat) ^ ord dvd 2 ^ 21" by (rule le_imp_power_dvd)
  then have e: "2 ^ 21 div 2 ^ ord * 2 ^ ord = (2::nat) ^ 21" by simp
  have "1 \<le> (2::nat) ^ 21 div 2 ^ ord" using e by (cases "(2::nat) ^ 21 div 2 ^ ord") auto
  then have "k + 1 \<le> 2 ^ 21 div 2 ^ ord" using assms(2) by (simp add: slot_cnt_def)
  then have "(k + 1) * 2 ^ ord \<le> 2 ^ 21 div 2 ^ ord * 2 ^ ord" by (rule mult_le_mono1)
  then show ?thesis unfolding e by (simp add: add.commute)
qed

lemma slab_block_unat:
  assumes z: "zone_sane z" and b: "slab_block z h p"
  shows "unat h = unat (start_addr z) + p * 4096" "p + 512 \<le> page_num z"
    "unat h + 2 ^ 21 \<le> unat (end_addr z)"
proof -
  have "aligned_blk z p 9"
    using z b inv_alignedD by (auto simp: zone_sane_def buddy_okay_def slab_block_def blk_def)
  then show p: "p + 512 \<le> page_num z" by (simp add: aligned_blk_def)
  show u: "unat h = unat (start_addr z) + p * 4096"
    using z b p by (simp add: slab_block_def zone_sane_def unat_page_to_virt)
  show "unat h + 2 ^ 21 \<le> unat (end_addr z)"
    using u p z by (simp add: zone_sane_def zone_addr_ok_def)
qed

lemma unat_slot:
  assumes z: "zone_sane z" and b: "slab_block z h p" and r: "slab_range ord" and k: "k \<le> slot_cnt ord"
  shows "unat (slot_addr h ord k) = unat h + k * 2 ^ ord"
proof -
  have "unat h + k * 2 ^ ord < 2 ^ 64"
    using slab_block_unat(3) [OF z b] slot_span [OF r k] z zero_less_power [of "2::nat" ord]
    unfolding zone_sane_def zone_addr_ok_def by linarith
  then have "unat (of_nat (unat h + k * 2 ^ ord) :: u64) = unat h + k * 2 ^ ord"
    by (simp only: unat_of_nat len_num1 len_bit0) simp
  then show ?thesis by (simp add: slot_addr_def)
qed

lemma slots_memD:
  assumes z: "zone_sane z" and b: "slab_block z h p" and r: "slab_range ord" and a: "a \<in> slots h ord"
  obtains k where "1 \<le> k" "k \<le> slot_cnt ord" "unat a = unat h + k * 2 ^ ord" "a = slot_addr h ord k"
    "unat a + 2 ^ ord \<le> unat h + 2 ^ 21" "a \<noteq> 0"
proof -
  obtain k where k: "1 \<le> k" "k \<le> slot_cnt ord" "a = slot_addr h ord k"
    using a by (auto simp: slots_def)
  have u: "unat a = unat h + k * 2 ^ ord" using unat_slot [OF z b r k(2)] k(3) by simp
  moreover have "0 < unat a" using u k(1) by simp
  then have "a \<noteq> 0" by auto
  ultimately show ?thesis using that [OF k(1,2) u k(3)] slot_span [OF r k(2)] by simp
qed

lemma slot_page:
  assumes z: "zone_sane z" and b: "slab_block z h p"
    and a: "unat h \<le> unat a" "unat a < unat h + 2 ^ 21"
  shows "\<exists>i \<in> frames p 9. virt_to_page z a = Inr i"
proof -
  note h = slab_block_unat [OF z b]
  let ?d = "unat a - unat (start_addr z)"
  have v: "virt_to_page z a = Inr (?d div 4096)"
    using a h by (intro virt_to_page_eq) (simp_all add: word_le_nat_alt)
  have "p * 4096 \<le> ?d" "?d < (p + 512) * 4096" using a h by simp_all
  then have "p \<le> ?d div 4096" "?d div 4096 < p + 512"
    by (simp_all add: less_eq_div_iff_mult_less_eq div_less_iff_less_mult)
  then show ?thesis using v by (auto simp: frames_def)
qed

section \<open>Taking a slab from the page allocator\<close>

text \<open>Changing back pointers does not concern the page allocator.\<close>

lemma same_blocks:
  assumes "free_lists z' = free_lists z" "page_num z' = page_num z"
    "\<And>i. pg_flags (pages z' i) = pg_flags (pages z i)" "\<And>i. pg_order (pages z' i) = pg_order (pages z i)"
  shows "free_blk z' = free_blk z" "alloc_blk z' = alloc_blk z" "buddy_okay z' = buddy_okay z"
    "abs_zone_of z' = abs_zone_of z"
proof -
  show f: "free_blk z' = free_blk z" by (simp add: fun_eq_iff free_blk_def assms)
  show a: "alloc_blk z' = alloc_blk z" by (simp add: fun_eq_iff alloc_blk_def assms)
  have b: "blk z' = blk z" by (simp add: fun_eq_iff blk_def f a)
  have "buddy_inv z' = buddy_inv z"
    by (simp add: buddy_inv_def no_stray_def f b assms aligned_blk_cong [OF assms(2)])
  then show "buddy_okay z' = buddy_okay z" by (simp add: buddy_okay_def coalesced_cong [OF f])
  show "abs_zone_of z' = abs_zone_of z" by (simp add: abs_zone_of_def a free_frames_cong [OF f])
qed

definition with_slab :: "nat set \<Rightarrow> u64 \<Rightarrow> global_mem \<Rightarrow> global_mem" where
  "with_slab I a z = z\<lparr>pages := (\<lambda>i. if i \<in> I then (pages z i)\<lparr>pg_slab := a\<rparr> else pages z i)\<rparr>"

lemma with_slab_fields [simp]:
  "page_num (with_slab I a z) = page_num z" "start_addr (with_slab I a z) = start_addr z"
  "end_addr (with_slab I a z) = end_addr z" "free_lists (with_slab I a z) = free_lists z"
  "pg_slab (pages (with_slab I a z) i) = (if i \<in> I then a else pg_slab (pages z i))"
  by (simp_all add: with_slab_def)

lemma with_slab_blocks [simp]:
  "free_blk (with_slab I a z) = free_blk z" "alloc_blk (with_slab I a z) = alloc_blk z"
  "buddy_okay (with_slab I a z) = buddy_okay z" "abs_zone_of (with_slab I a z) = abs_zone_of z"
  by (rule same_blocks; simp add: with_slab_def)+

lemma with_slab_sane [simp]: "zone_sane (with_slab I a z) = zone_sane z"
  by (simp add: zone_sane_def zone_addr_ok_def)

lemma page_to_virt_cong: "start_addr z' = start_addr z \<Longrightarrow> page_to_virt z' = page_to_virt z"
  by (auto simp: page_to_virt_def fun_eq_iff split: option.splits)

lemma virt_to_page_block:
  assumes z: "zone_addr_ok z" and p: "p + i < page_num z"
  shows "virt_to_page z (page_to_virt z (Some p) + of_nat i * BUDDY_PAGE_SIZE) = Inr (p + i)"
proof -
  have "page_to_virt z (Some p) + of_nat i * BUDDY_PAGE_SIZE = page_to_virt z (Some (p + i))"
    by (simp add: page_to_virt_def algebra_simps)
  moreover have "virt_to_page z (page_to_virt z (Some (p + i))) = Inr (p + i)"
    using unat_page_to_virt [OF z, of "p + i"] z p
    by (subst virt_to_page_eq) (auto simp: word_le_nat_alt zone_addr_ok_def)
  ultimately show ?thesis by simp
qed

lemma mark_slab_pages_block:
  assumes "zone_addr_ok z" "p + (k + n) \<le> page_num z" "a = page_to_virt z (Some p)"
  shows "mark_slab_pages [k..<k + n] a z = Inr (with_slab {p + k..<p + (k + n)} a z)"
  using assms
proof (induction n arbitrary: k z)
  case 0
  then show ?case by (simp add: with_slab_def)
next
  case (Suc n)
  let ?z = "set_page_slab (p + k) a z"
  have u: "[k..<k + Suc n] = k # [Suc k..<Suc k + n]" by (subst upt_conv_Cons) simp_all
  have f: "zone_addr_ok ?z" "page_num ?z = page_num z" "page_to_virt ?z = page_to_virt z"
    using Suc.prems(1) by (auto simp: set_page_slab_def zone_addr_ok_def intro: page_to_virt_cong)
  have "mark_slab_pages [k..<k + Suc n] a z = mark_slab_pages [Suc k..<Suc k + n] a ?z"
    using virt_to_page_block [OF Suc.prems(1), of p k] Suc.prems(2)
    unfolding u Suc.prems(3) by (simp del: upt_Suc)
  also have "\<dots> = Inr (with_slab {p + Suc k..<p + (Suc k + n)} a ?z)"
    using f Suc.prems by (intro Suc.IH) simp_all
  also have "with_slab {p + Suc k..<p + (Suc k + n)} a ?z = with_slab {p + k..<p + (k + Suc n)} a z"
    by (auto simp: with_slab_def set_page_slab_def upd_page_def fun_eq_iff intro!: global_mem.equality)
  finally show ?case .
qed

lemma slab_page_order: "size_to_order (SLAB_INIT_SIZE div BUDDY_PAGE_SIZE) = 9"
proof -
  have e: "unat (SLAB_INIT_SIZE div BUDDY_PAGE_SIZE) = 512"
    by (simp add: SLAB_INIT_SIZE_def BUDDY_PAGE_SIZE_4096 unat_div)
  have "ceil_log2 512 = 9" by (rule ceil_log2_eqI) simp_all
  then show ?thesis using e by (subst size_to_order_eq) simp_all
qed

lemma alloc_slab_memory_correct:
  assumes z: "zone_sane z"
  shows "alloc_slab_memory SLAB_INIT_SIZE z = Inl Bug_On \<and>
      (\<forall>q. 512 dvd q \<longrightarrow> \<not> frames q 9 \<subseteq> free_frames z) \<or>
    (\<exists>p z'. alloc_slab_memory SLAB_INIT_SIZE z = Inr (page_to_virt z (Some p), z') \<and>
       zone_sane z' \<and> spec_get_pages 9 p (abs_zone_of z) (abs_zone_of z') \<and>
       start_addr z' = start_addr z \<and> end_addr z' = end_addr z \<and> page_num z' = page_num z \<and>
       slab_block z' (page_to_virt z (Some p)) p \<and>
       (\<forall>i. i \<notin> frames p 9 \<longrightarrow> pg_slab (pages z' i) = pg_slab (pages z i)))"
proof -
  have o: "9 < BUDDY_MAX_ORDER" by (simp add: BUDDY_MAX_ORDER_def)
  have ok: "buddy_inv z" "coalesced z" using z by (simp_all add: zone_sane_def buddy_okay_def)
  from buddy_get_pages_correct [OF ok(1) o] show ?thesis
  proof (elim disjE exE conjE)
    assume n: "buddy_get_pages 9 z = Inr (None, z)"
    have "\<not> frames q 9 \<subseteq> free_frames z" if "512 dvd q" for q
      using buddy.get_run [OF _ o n, of q] that z by (simp add: zone_sane_def abs_zone_of_def)
    then show ?thesis using n by (simp add: alloc_slab_memory_def slab_page_order)
  next
    fix p z1
    assume g: "buddy_get_pages 9 z = Inr (Some p, z1)" and i: "buddy_inv z1"
      and sp: "spec_get_pages 9 p (abs_zone_of z) (abs_zone_of z1)"
      and c: "coalesced z \<longrightarrow> coalesced z1" and geo: "zone_geo z1 = zone_geo z"
    have f: "page_num z1 = page_num z" "start_addr z1 = start_addr z" "end_addr z1 = end_addr z"
      "\<And>i. pg_slab (pages z1 i) = pg_slab (pages z i)"
      using geo by (auto simp: zone_geo_def fun_eq_iff)
    have s1: "zone_sane z1" using z i c ok f by (simp add: zone_sane_def buddy_okay_def zone_addr_ok_def)
    have al: "alloc_blk z1 p 9" by (rule spec_get_alloc [OF sp])
    then have le: "p + 512 \<le> page_num z1" using inv_alignedD [OF i, of p 9] by (simp add: blk_def aligned_blk_def)
    let ?a = "page_to_virt z (Some p)"
    have pv: "page_to_virt z1 = page_to_virt z" by (rule page_to_virt_cong [OF f(2)])
    have m: "mark_slab_pages [0..<512] ?a z1 = Inr (with_slab (frames p 9) ?a z1)"
      using mark_slab_pages_block [of z1 p 0 512 ?a] s1 le by (simp add: zone_sane_def pv frames_def)
    have "alloc_slab_memory SLAB_INIT_SIZE z = Inr (?a, with_slab (frames p 9) ?a z1)"
      using g m by (simp add: alloc_slab_memory_def slab_page_order pv unat_order_to_size Let_def)
    moreover have "slab_block (with_slab (frames p 9) ?a z1) ?a p"
      using al page_to_virt_cong [of "with_slab (frames p 9) ?a z1" z] f by (simp add: slab_block_def)
    ultimately show ?thesis
      using s1 sp f by (intro disjI2 exI [of _ p] exI [of _ "with_slab (frames p 9) ?a z1"]) simp
  qed
qed

section \<open>The slot chain of a new slab\<close>

lemma link_slots_frame:
  "(\<And>k. k \<le> n \<Longrightarrow> a \<noteq> slot + of_nat k * obj) \<Longrightarrow> link_slots n slot obj nf a = nf a"
proof (induction n arbitrary: slot nf)
  case 0
  then show ?case by simp
next
  case (Suc n)
  have "a \<noteq> slot" using Suc.prems [of 0] by simp
  moreover have "a \<noteq> slot + obj + of_nat k * obj" if "k \<le> n" for k
    using Suc.prems [of "Suc k"] that by (simp add: algebra_simps)
  ultimately show ?case using Suc.IH [of "slot + obj"] by simp
qed

lemma link_slots_chain:
  assumes "\<And>j. j \<le> n \<Longrightarrow> slot + of_nat j * obj \<noteq> 0"
    and "\<And>j k. j < k \<Longrightarrow> k \<le> n \<Longrightarrow> slot + of_nat j * obj \<noteq> slot + of_nat k * obj"
  shows "chain 0 (link_slots n slot obj nf) slot (map (\<lambda>k. slot + of_nat k * obj) [0..<Suc n])"
  using assms
proof (induction n arbitrary: slot nf)
  case 0
  then show ?case by (simp add: chain_nonnull)
next
  case (Suc n)
  let ?s = "slot + obj"
  let ?nf = "nf(slot := ?s)"
  have shift: "?s + of_nat k * obj = slot + of_nat (Suc k) * obj" for k by (simp add: algebra_simps)
  have IH: "chain 0 (link_slots n ?s obj ?nf) ?s (map (\<lambda>k. ?s + of_nat k * obj) [0..<Suc n])"
    by (rule Suc.IH) (use Suc.prems in \<open>simp_all only: shift Suc_le_mono Suc_less_eq not_False_eq_True\<close>)
  have "link_slots n ?s obj ?nf slot = ?nf slot"
    using Suc.prems(2) [of 0] by (intro link_slots_frame) (simp only: shift, force)
  then have nx: "link_slots n ?s obj ?nf slot = ?s" by simp
  have m: "map (\<lambda>k. slot + of_nat k * obj) [0..<Suc (Suc n)]
      = slot # map (\<lambda>k. ?s + of_nat k * obj) [0..<Suc n]"
    by (subst upt_conv_Cons) (simp_all add: shift map_Suc_upt [symmetric] del: upt_Suc of_nat_Suc)
  show ?case
    unfolding m using IH nx Suc.prems(1) [of 0] by (simp del: upt_Suc)
qed

lemma slot_cnt_words:
  assumes "slab_range ord"
  shows "unat (SLAB_INIT_SIZE div order_to_size ord - 1 - 1) = slot_cnt ord - 1" "1 \<le> slot_cnt ord"
proof -
  have o: "ord \<le> 11" using assms by (simp add: slab_range_def SLAB_MAX_ORDER_def)
  have "unat (SLAB_INIT_SIZE div order_to_size ord) = 2 ^ 21 div 2 ^ ord"
    using o by (simp add: unat_div unat_order_to_size SLAB_INIT_SIZE_def)
  moreover have "(2::nat) ^ 21 div 2 ^ 11 \<le> 2 ^ 21 div 2 ^ ord"
    using o by (intro div_le_mono2 power_increasing) simp_all
  ultimately have u: "unat (SLAB_INIT_SIZE div order_to_size ord) = slot_cnt ord + 1" "1 < slot_cnt ord"
    by (simp_all add: slot_cnt_def)
  then show "1 \<le> slot_cnt ord" by simp
  have 1: "unat (SLAB_INIT_SIZE div order_to_size ord - 1) = slot_cnt ord"
    using u by (subst unat_sub) (simp_all add: word_le_nat_alt)
  then show "unat (SLAB_INIT_SIZE div order_to_size ord - 1 - 1) = slot_cnt ord - 1"
    using u by (subst unat_sub) (simp_all add: word_le_nat_alt)
qed

lemma slot_addr_step: "h + order_to_size ord + of_nat k * order_to_size ord = slot_addr h ord (Suc k)"
  by (simp add: slot_addr_def order_to_size_def algebra_simps)

lemma new_slab_chain:
  assumes z: "zone_sane z" and b: "slab_block z h p" and r: "slab_range ord"
  shows "chain 0 (link_slots (slot_cnt ord - 1) (h + order_to_size ord) (order_to_size ord) nf)
      (h + order_to_size ord) (map (\<lambda>k. slot_addr h ord (Suc k)) [0..<slot_cnt ord])"
    and "a \<notin> slots h ord \<Longrightarrow>
      link_slots (slot_cnt ord - 1) (h + order_to_size ord) (order_to_size ord) nf a = nf a"
proof -
  note c = slot_cnt_words(2) [OF r]
  have ne: "slot_addr h ord (Suc k) \<noteq> 0" if "k \<le> slot_cnt ord - 1" for k
  proof -
    have "slot_addr h ord (Suc k) \<in> slots h ord" using that c by (auto simp: slots_def)
    then show ?thesis by (rule slots_memD [OF z b r])
  qed
  have inj: "slot_addr h ord (Suc j) \<noteq> slot_addr h ord (Suc k)" if "j < k" "k \<le> slot_cnt ord - 1" for j k
  proof -
    have "unat (slot_addr h ord (Suc j)) \<noteq> unat (slot_addr h ord (Suc k))"
      using unat_slot [OF z b r, of "Suc j"] unat_slot [OF z b r, of "Suc k"] that c by simp
    then show ?thesis by metis
  qed
  have "chain 0 (link_slots (slot_cnt ord - 1) (h + order_to_size ord) (order_to_size ord) nf)
      (h + order_to_size ord)
      (map (\<lambda>k. h + order_to_size ord + of_nat k * order_to_size ord) [0..<Suc (slot_cnt ord - 1)])"
    by (rule link_slots_chain) (simp_all only: slot_addr_step ne inj not_False_eq_True)
  then show "chain 0 (link_slots (slot_cnt ord - 1) (h + order_to_size ord) (order_to_size ord) nf)
      (h + order_to_size ord) (map (\<lambda>k. slot_addr h ord (Suc k)) [0..<slot_cnt ord])"
    using c by (simp only: slot_addr_step) simp
  show "link_slots (slot_cnt ord - 1) (h + order_to_size ord) (order_to_size ord) nf a = nf a"
    if "a \<notin> slots h ord"
    by (rule link_slots_frame) (use that c in \<open>auto simp: slot_addr_step slots_def\<close>)
qed

section \<open>The allocator invariant\<close>

definition slab_chain :: "slab_state \<Rightarrow> nat \<Rightarrow> u64 list \<Rightarrow> bool" where
  "slab_chain s ord hs \<longleftrightarrow> chain 0 (\<lambda>h. next_slab (hdr s h)) (slabs s ord) hs"

definition free_chain :: "slab_state \<Rightarrow> u64 \<Rightarrow> u64 list \<Rightarrow> bool" where
  "free_chain s h fs \<longleftrightarrow> chain 0 (next_free s) (free_list_head (hdr s h)) fs"

definition slab_ok :: "slab_state \<Rightarrow> nat \<Rightarrow> u64 \<Rightarrow> bool" where
  "slab_ok s ord h \<longleftrightarrow> sh_order (hdr s h) = ord \<and> (\<exists>p. slab_block (zone s) h p) \<and>
     (\<exists>fs. free_chain s h fs \<and> set fs \<subseteq> slots h ord)"

definition slab_at :: "slab_state \<Rightarrow> nat \<Rightarrow> u64 \<Rightarrow> bool" where
  "slab_at s ord h \<longleftrightarrow> slab_range ord \<and> (\<exists>hs. slab_chain s ord hs \<and> h \<in> set hs)"

text \<open>
  The slabs of each order form a chain of well-formed slabs, and only pages of such slabs
  carry a back pointer. After initialisation every order has a slab.
\<close>

definition slab_wf :: "slab_state \<Rightarrow> bool" where
  "slab_wf s \<longleftrightarrow> zone_sane (zone s) \<and>
     (\<forall>ord. slab_range ord \<longrightarrow> (\<exists>hs. slab_chain s ord hs)) \<and>
     (\<forall>ord h. slab_at s ord h \<longrightarrow> slab_ok s ord h) \<and>
     (\<forall>i. i < page_num (zone s) \<longrightarrow> pg_slab (pages (zone s) i) \<noteq> 0 \<longrightarrow>
        (\<exists>ord h p. slab_at s ord h \<and> slab_block (zone s) h p \<and> i \<in> frames p 9))"

definition slab_inv :: "slab_state \<Rightarrow> bool" where
  "slab_inv s \<longleftrightarrow> slab_wf s \<and> (\<forall>ord. slab_range ord \<longrightarrow> slabs s ord \<noteq> 0)"

text \<open>A slot is free when it is on the chain of its slab, and live when it is handed out.\<close>

definition slot_free :: "slab_state \<Rightarrow> nat \<Rightarrow> u64 \<Rightarrow> bool" where
  "slot_free s ord a \<longleftrightarrow> (\<exists>h fs. slab_at s ord h \<and> free_chain s h fs \<and> a \<in> set fs)"

definition slot_live :: "slab_state \<Rightarrow> nat \<Rightarrow> u64 \<Rightarrow> bool" where
  "slot_live s ord a \<longleftrightarrow> (\<exists>h. slab_at s ord h \<and> a \<in> slots h ord) \<and> \<not> slot_free s ord a"

lemma wf_sane: "slab_wf s \<Longrightarrow> zone_sane (zone s)"
  by (simp add: slab_wf_def)

lemma wf_chain: "slab_wf s \<Longrightarrow> slab_range ord \<Longrightarrow> \<exists>hs. slab_chain s ord hs"
  by (simp add: slab_wf_def)

lemma wf_ok: "slab_wf s \<Longrightarrow> slab_at s ord h \<Longrightarrow> slab_ok s ord h"
  by (simp add: slab_wf_def)

lemma wf_block: "slab_wf s \<Longrightarrow> slab_at s ord h \<Longrightarrow> \<exists>p. slab_block (zone s) h p"
  using wf_ok by (auto simp: slab_ok_def)

lemma at_range: "slab_at s ord h \<Longrightarrow> slab_range ord"
  by (simp add: slab_at_def)

lemma at_unique: "slab_wf s \<Longrightarrow> slab_at s i h \<Longrightarrow> slab_at s j h \<Longrightarrow> j = i"
  using wf_ok [of s i h] wf_ok [of s j h] by (simp add: slab_ok_def)

lemma slots_one_block:
  assumes z: "zone_sane z" and h: "slab_block z h p" "slab_range i" "a \<in> slots h i"
    and g: "slab_block z g q" "slab_range j" "a \<in> slots g j"
  shows "g = h"
proof -
  have span: "\<exists>i \<in> frames p' 9. virt_to_page z a = Inr i"
    if "slab_block z h' p'" "slab_range o'" "a \<in> slots h' o'" for h' p' o'
  proof (rule slots_memD [OF z that])
    fix k
    assume "unat a = unat h' + k * 2 ^ o'" "unat a + 2 ^ o' \<le> unat h' + 2 ^ 21"
    then show ?thesis using zero_less_power [of "2::nat" o'] by (intro slot_page [OF z that(1)]) linarith+
  qed
  obtain x where "x \<in> frames p 9" "x \<in> frames q 9"
    using span [OF h] span [OF g] by auto
  then have "p = q"
    using inv_disjD [of z p 9 q 9] z h(1) g(1)
    by (auto simp: zone_sane_def buddy_okay_def slab_block_def blk_def)
  then show ?thesis using h(1) g(1) by (simp add: slab_block_def)
qed

lemma wf_slots_one:
  assumes "slab_wf s" "slab_at s i h" "slab_at s j g" "a \<in> slots h i" "a \<in> slots g j"
  shows "g = h \<and> j = i"
proof -
  obtain p q where "slab_block (zone s) h p" "slab_block (zone s) g q"
    using wf_block assms(1-3) by metis
  then have "g = h"
    using slots_one_block [OF wf_sane [OF assms(1)]] assms at_range by metis
  then show ?thesis using at_unique [OF assms(1,2)] assms(3) by simp
qed

lemma wf_free_slots:
  assumes "slab_wf s" "slab_at s ord h" "free_chain s h fs"
  shows "set fs \<subseteq> slots h ord"
proof -
  obtain fs' where "free_chain s h fs'" "set fs' \<subseteq> slots h ord"
    using wf_ok [OF assms(1,2)] by (auto simp: slab_ok_def)
  then show ?thesis using chain_unique assms(3) unfolding free_chain_def by metis
qed

section \<open>Changing the free slots of one slab\<close>

lemma relink_slab:
  assumes wf: "slab_wf s" and at: "slab_at s ord h"
    and same: "zone s' = zone s" "slabs s' = slabs s" "\<And>g. next_slab (hdr s' g) = next_slab (hdr s g)"
      "\<And>g. sh_order (hdr s' g) = sh_order (hdr s g)"
      "\<forall>g. g \<noteq> h \<longrightarrow> free_list_head (hdr s' g) = free_list_head (hdr s g)"
      "\<forall>a. a \<notin> slots h ord \<longrightarrow> next_free s' a = next_free s a"
    and fs: "free_chain s' h fs" "set fs \<subseteq> slots h ord"
  shows "slab_wf s'" and "slab_at s' = slab_at s"
    and "slot_free s' j b \<longleftrightarrow> (if j = ord \<and> b \<in> slots h ord then b \<in> set fs else slot_free s j b)"
proof -
  have ch: "slab_chain s' = slab_chain s" by (simp add: slab_chain_def fun_eq_iff same)
  show at': "slab_at s' = slab_at s" by (simp add: slab_at_def fun_eq_iff ch)
  have other: "free_chain s' g gs \<longleftrightarrow> free_chain s g gs" if "slab_at s j g" "g \<noteq> h" "free_chain s g gs \<or> set gs \<subseteq> slots g j" for j g gs
  proof -
    have "set gs \<subseteq> slots g j" using that wf_free_slots [OF wf that(1)] by blast
    then have "next_free s' a = next_free s a" if "a \<in> set gs" for a
      using that wf_slots_one [OF wf at \<open>slab_at s j g\<close>, of a] \<open>g \<noteq> h\<close> same(6) by blast
    then show ?thesis
      unfolding free_chain_def using chain_cong [of gs "next_free s'" "next_free s"] same(5) that(2) by simp
  qed
  have ok: "slab_ok s' j g" if "slab_at s j g" for j g
  proof (cases "g = h")
    case True
    have "j = ord" using True at_unique [OF wf at] that by simp
    then show ?thesis using True fs wf_ok [OF wf that] by (auto simp: slab_ok_def same)
  next
    case False
    then show ?thesis using wf_ok [OF wf that] other [OF that False] by (auto simp: slab_ok_def same)
  qed
  show "slab_wf s'" using wf ok by (simp add: slab_wf_def at' ch same)
  show "slot_free s' j b \<longleftrightarrow> (if j = ord \<and> b \<in> slots h ord then b \<in> set fs else slot_free s j b)"
  proof -
    have inside: "free_chain s' g gs \<Longrightarrow> slab_at s j g \<Longrightarrow> set gs \<subseteq> slots g j" for g gs j
      using wf_free_slots [OF \<open>slab_wf s'\<close>] by (simp add: at')
    show ?thesis
    proof (cases "j = ord \<and> b \<in> slots h ord")
      case True
      have "slot_free s' j b \<longleftrightarrow> b \<in> set fs"
      proof
        assume "slot_free s' j b"
        then obtain g gs where g: "slab_at s j g" "free_chain s' g gs" "b \<in> set gs"
          by (auto simp: slot_free_def at')
        then have "g = h" using wf_slots_one [OF wf at g(1)] inside [OF g(2,1)] True by blast
        then show "b \<in> set fs" using g fs(1) chain_unique unfolding free_chain_def by metis
      next
        assume "b \<in> set fs"
        then show "slot_free s' j b" using fs(1) at True by (auto simp: slot_free_def at')
      qed
      then show ?thesis using True by simp
    next
      case False
      have nh: "g \<noteq> h" if "slab_at s j g" "b \<in> slots g j" for g
        using that False at_unique [OF wf at] by blast
      have "slot_free s' j b \<longleftrightarrow> slot_free s j b"
      proof
        assume "slot_free s' j b"
        then obtain g gs where g: "slab_at s j g" "free_chain s' g gs" "b \<in> set gs"
          by (auto simp: slot_free_def at')
        then have "set gs \<subseteq> slots g j" by (intro inside)
        then have "free_chain s g gs" using other [OF g(1)] nh [OF g(1)] g(2,3) by blast
        then show "slot_free s j b" using g by (auto simp: slot_free_def)
      next
        assume "slot_free s j b"
        then obtain g gs where g: "slab_at s j g" "free_chain s g gs" "b \<in> set gs"
          by (auto simp: slot_free_def)
        then have "set gs \<subseteq> slots g j" by (intro wf_free_slots [OF wf])
        then have "free_chain s' g gs" using other [OF g(1)] nh [OF g(1)] g(2,3) by blast
        then show "slot_free s' j b" using g by (auto simp: slot_free_def at')
      qed
      then show ?thesis using False by auto
    qed
  qed
qed

lemma wf_free_live: "slab_wf s \<Longrightarrow> slot_free s ord a \<Longrightarrow> \<exists>h. slab_at s ord h \<and> a \<in> slots h ord"
  using wf_free_slots by (fastforce simp: slot_free_def)

lemma pop_slot_correct:
  assumes wf: "slab_wf s" and at: "slab_at s ord h" and ne: "free_list_head (hdr s h) \<noteq> 0"
    and pop: "pop_slot h s = (a, s')"
  shows "slab_wf s'" "slab_at s' = slab_at s" "slabs s' = slabs s" "zone s' = zone s"
    "a \<in> slots h ord" "\<not> slot_live s ord a"
    "slot_live s' j b \<longleftrightarrow> slot_live s j b \<or> (j, b) = (ord, a)"
proof -
  have a: "a = free_list_head (hdr s h)"
    and s': "s' = s\<lparr>hdr := (hdr s)(h := (hdr s h)\<lparr>free_list_head := next_free s a\<rparr>)\<rparr>"
    using pop by (auto simp: pop_slot_def Let_def)
  obtain fs where fs: "free_chain s h fs" "set fs \<subseteq> slots h ord"
    using wf_ok [OF wf at] by (auto simp: slab_ok_def)
  then obtain fs' where fs': "fs = a # fs'" "chain 0 (next_free s) (next_free s a) fs'"
    using ne by (auto simp: free_chain_def chain_nonnull a)
  have d: "a \<notin> set fs'" using chain_distinct [of 0 "next_free s" _ fs] fs fs' by (auto simp: free_chain_def)
  show asl: "a \<in> slots h ord" using fs fs' by simp
  have re: "slab_wf s' \<and> slab_at s' = slab_at s \<and>
      (\<forall>j b. slot_free s' j b \<longleftrightarrow> (if j = ord \<and> b \<in> slots h ord then b \<in> set fs' else slot_free s j b))"
    using relink_slab [OF wf at, of s' fs'] fs fs' by (simp add: s' free_chain_def)
  then show "slab_wf s'" "slab_at s' = slab_at s" by blast+
  show "slabs s' = slabs s" "zone s' = zone s" by (simp_all add: s')
  have here: "slot_free s ord b \<longleftrightarrow> b \<in> set fs" if "b \<in> slots h ord" for b
  proof
    assume "slot_free s ord b"
    then obtain g gs where g: "slab_at s ord g" "free_chain s g gs" "b \<in> set gs" by (auto simp: slot_free_def)
    then have "g = h" using wf_slots_one [OF wf at g(1)] wf_free_slots [OF wf g(1,2)] that by blast
    then show "b \<in> set fs" using g fs(1) chain_unique unfolding free_chain_def by metis
  qed (use at fs in \<open>auto simp: slot_free_def\<close>)
  then show "\<not> slot_live s ord a" using asl fs' by (simp add: slot_live_def)
  show "slot_live s' j b \<longleftrightarrow> slot_live s j b \<or> (j, b) = (ord, a)"
    using re here [of b] d fs' asl at by (auto simp: slot_live_def)
qed

section \<open>Walking the slabs\<close>

lemma find_free_slab_chain:
  "chain 0 (\<lambda>h. next_slab (hs h)) h hl \<Longrightarrow>
   find_free_slab hs h = Some (case find (\<lambda>g. free_list_head (hs g) \<noteq> 0) hl of None \<Rightarrow> 0 | Some g \<Rightarrow> g)"
proof (induction hl arbitrary: h)
  case Nil
  then show ?case by (subst find_free_slab.simps) simp
next
  case (Cons g gs)
  then show ?case by (subst find_free_slab.simps) auto
qed

lemma find_free_slab_cases:
  assumes "chain 0 (\<lambda>h. next_slab (hs h)) h hl"
  shows "(find_free_slab hs h = Some 0 \<and> (\<forall>g \<in> set hl. free_list_head (hs g) = 0)) \<or>
    (\<exists>g \<in> set hl. g \<noteq> 0 \<and> find_free_slab hs h = Some g \<and> free_list_head (hs g) \<noteq> 0)"
proof (cases "find (\<lambda>g. free_list_head (hs g) \<noteq> 0) hl")
  case None
  then have "\<forall>g \<in> set hl. free_list_head (hs g) = 0" unfolding find_None_iff by blast
  then show ?thesis using find_free_slab_chain [OF assms] None by simp
next
  case (Some g)
  then have "g \<in> set hl" "free_list_head (hs g) \<noteq> 0" by (auto simp: find_Some_iff)
  then show ?thesis using find_free_slab_chain [OF assms] Some chain_not_null [OF assms] by auto
qed

section \<open>Adding a slab\<close>

text \<open>The buddy blocks that are not slabs.\<close>

definition big_blk :: "global_mem \<Rightarrow> nat \<Rightarrow> nat \<Rightarrow> bool" where
  "big_blk z p ord \<longleftrightarrow> alloc_blk z p ord \<and> pg_slab (pages z p) = 0"

lemma big_blk_new_slab:
  assumes i: "buddy_inv z" and sp: "spec_get_pages 9 p (abs_zone_of z) (abs_zone_of z')"
    and b: "slab_block z' h p" "h \<noteq> 0"
    and o: "\<And>i. i \<notin> frames p 9 \<Longrightarrow> pg_slab (pages z' i) = pg_slab (pages z i)"
  shows "big_blk z' = big_blk z"
proof -
  have al: "alloc_blk z' q ord \<longleftrightarrow> alloc_blk z q ord \<or> (q, ord) = (p, 9)" for q ord
  proof -
    have "(q, ord) \<in> az_alloc (abs_zone_of z') \<longleftrightarrow> (q, ord) \<in> insert (p, 9) (az_alloc (abs_zone_of z))"
      using sp by (simp add: spec_get_pages_def)
    then show ?thesis by (auto simp: abs_zone_of_def)
  qed
  have "q \<notin> frames p 9" if "alloc_blk z q ord" for q ord
  proof -
    have "frames p 9 \<subseteq> free_frames z" using sp by (simp add: spec_get_pages_def abs_zone_of_def)
    then show ?thesis using alloc_free_apart [OF i that] frames_self [of q ord] by blast
  qed
  moreover have "pg_slab (pages z' p) \<noteq> 0" using b frames_self by (auto simp: slab_block_def)
  ultimately show ?thesis using o by (auto simp: big_blk_def fun_eq_iff al)
qed

definition add_slab :: "nat \<Rightarrow> u64 \<Rightarrow> global_mem \<Rightarrow> slab_state \<Rightarrow> slab_state" where
  "add_slab ord h z s =
     s\<lparr>zone := z,
       hdr := (hdr s)(h := \<lparr>free_list_head = h + order_to_size ord, next_slab = slabs s ord, sh_order = ord\<rparr>),
       slabs := (slabs s)(ord := h),
       next_free := link_slots (slot_cnt ord - 1) (h + order_to_size ord) (order_to_size ord) (next_free s)\<rparr>"

lemma add_slab_wf:
  assumes wf: "slab_wf s" and r: "slab_range ord"
    and z: "zone_sane z" "spec_get_pages 9 p (abs_zone_of (zone s)) (abs_zone_of z)"
      "start_addr z = start_addr (zone s)" "page_num z = page_num (zone s)" "slab_block z h p"
      "\<And>i. i \<notin> frames p 9 \<Longrightarrow> pg_slab (pages z i) = pg_slab (pages (zone s) i)"
  shows "slab_wf (add_slab ord h z s)"
    and "slab_at (add_slab ord h z s) j g \<longleftrightarrow> slab_at s j g \<or> (j, g) = (ord, h)"
    and "slot_live (add_slab ord h z s) j a \<longleftrightarrow> slot_live s j a"
proof -
  let ?s = "add_slab ord h z s"
  have sane: "zone_sane (zone s)" by (rule wf_sane [OF wf])
  have old: "slab_block z g q \<and> frames q 9 \<inter> frames p 9 = {} \<and> g \<noteq> h" if "slab_block (zone s) g q" for g q
  proof -
    have al: "alloc_blk (zone s) q 9" using that by (simp add: slab_block_def)
    then have "(q, 9) \<in> az_alloc (abs_zone_of z)"
      using z(2) by (simp add: spec_get_pages_def abs_zone_of_def)
    then have al': "alloc_blk z q 9" by (simp add: abs_zone_of_def)
    have "frames q 9 \<inter> free_frames (zone s) = {}"
      using alloc_free_apart [OF _ al] sane by (simp add: zone_sane_def buddy_okay_def)
    moreover have "frames p 9 \<subseteq> free_frames (zone s)" using z(2) by (simp add: spec_get_pages_def abs_zone_of_def)
    ultimately have d: "frames q 9 \<inter> frames p 9 = {}" by blast
    have "pg_slab (pages z i) = g" if "i \<in> frames q 9" for i
      using that d z(6) [of i] \<open>slab_block (zone s) g q\<close> by (auto simp: slab_block_def)
    then have b: "slab_block z g q"
      using that al' page_to_virt_cong [OF z(3)] by (simp add: slab_block_def)
    have "q \<noteq> p" using d frames_self by blast
    then have "unat g \<noteq> unat h" using slab_block_unat(1) [OF z(1) b] slab_block_unat(1) [OF z(1,5)] by simp
    then show ?thesis using b d by auto
  qed
  have fresh: "\<not> slab_at s j h" for j using wf_block [OF wf] old by blast
  obtain hs where hs: "slab_chain s ord hs" using wf_chain [OF wf r] by blast
  have h0: "h \<noteq> 0"
  proof -
    have "0 < unat h" using slab_block_unat(1) [OF z(1,5)] z(1) by (simp add: zone_sane_def unat_gt_0)
    then show ?thesis by auto
  qed
  have keep: "slab_chain ?s j gs \<longleftrightarrow> slab_chain s j gs" if "j \<noteq> ord" "slab_range j" "slab_chain s j gs \<or> h \<notin> set gs" for j gs
  proof -
    have "h \<notin> set gs" using that fresh by (auto simp: slab_at_def)
    then show ?thesis
      unfolding slab_chain_def add_slab_def using that(1)
      by (simp, intro chain_cong) auto
  qed
  have new: "slab_chain ?s ord (h # hs)"
  proof -
    have "h \<notin> set hs" using fresh hs r by (auto simp: slab_at_def)
    then have "chain 0 (\<lambda>g. next_slab (hdr ?s g)) (slabs s ord) hs"
      using hs unfolding slab_chain_def by (subst chain_cong [where nx = "\<lambda>g. next_slab (hdr s g)"]) (auto simp: add_slab_def)
    then show ?thesis using h0 by (simp add: slab_chain_def add_slab_def)
  qed
  have ex: "\<exists>gs. slab_chain ?s j gs \<and> (j \<noteq> ord \<longrightarrow> slab_chain s j gs)" if "slab_range j" for j
  proof (cases "j = ord")
    case False
    obtain gs where "slab_chain s j gs" using wf_chain [OF wf \<open>slab_range j\<close>] by blast
    then show ?thesis using keep [OF False that] by blast
  qed (use new in auto)
  have at: "slab_at ?s j g \<longleftrightarrow> slab_at s j g \<or> (j, g) = (ord, h)" for j g
  proof (cases "slab_range j \<and> j \<noteq> ord")
    case True
    then obtain gs where gs: "slab_chain ?s j gs" "slab_chain s j gs" using ex by blast
    then have "slab_at ?s j g \<longleftrightarrow> g \<in> set gs" "slab_at s j g \<longleftrightarrow> g \<in> set gs"
      using True chain_unique unfolding slab_at_def slab_chain_def by metis+
    then show ?thesis using True by simp
  next
    case False
    show ?thesis
    proof (cases "j = ord")
      case True
      have "slab_at ?s ord g \<longleftrightarrow> g \<in> set (h # hs)" "slab_at s ord g \<longleftrightarrow> g \<in> set hs"
        using new hs r chain_unique unfolding slab_at_def slab_chain_def by metis+
      then show ?thesis using True by auto
    qed (use False in \<open>auto simp: slab_at_def\<close>)
  qed
  then show "slab_at ?s j g \<longleftrightarrow> slab_at s j g \<or> (j, g) = (ord, h)" .
  note ch = new_slab_chain [OF z(1) z(5) r]
  have fh: "free_chain ?s h (map (\<lambda>k. slot_addr h ord (Suc k)) [0..<slot_cnt ord])"
    using ch(1) by (simp add: free_chain_def add_slab_def)
  have all: "set (map (\<lambda>k. slot_addr h ord (Suc k)) [0..<slot_cnt ord]) = slots h ord"
    by (auto simp: slots_def image_iff) (metis Suc_le_D Suc_le_lessD atLeast0LessThan lessThan_iff)
  have fold: "free_chain ?s g gs \<longleftrightarrow> free_chain s g gs" if at1: "slab_at s j g" and "set gs \<subseteq> slots g j" for j g gs
  proof -
    obtain q where q: "slab_block (zone s) g q" using wf_block [OF wf at1] by blast
    have nh: "a \<notin> slots h ord" if "a \<in> set gs" for a
      using slots_one_block [OF z(1) z(5) r, of a] old [OF q] at_range [OF \<open>slab_at s j g\<close>] that \<open>set gs \<subseteq> slots g j\<close> by blast
    have "next_free ?s a = next_free s a" if "a \<in> set gs" for a
      using ch(2) [OF nh [OF that]] by (simp add: add_slab_def)
    then have "chain 0 (next_free ?s) x gs = chain 0 (next_free s) x gs" for x by (rule chain_cong)
    moreover have "hdr ?s g = hdr s g" using old [OF q] by (simp add: add_slab_def)
    ultimately show ?thesis unfolding free_chain_def by simp
  qed
  have ok: "slab_ok ?s j g" if "slab_at ?s j g" for j g
  proof -
    from that consider "slab_at s j g" | "(j, g) = (ord, h)" by (auto simp: at)
    then show ?thesis
    proof cases
      case 1
      obtain fs where fs: "free_chain s g fs" "set fs \<subseteq> slots g j" using wf_ok [OF wf 1] by (auto simp: slab_ok_def)
      moreover obtain q where "slab_block (zone s) g q" using wf_block [OF wf 1] by blast
      ultimately show ?thesis using old fold [OF 1 fs(2)] wf_ok [OF wf 1] by (auto simp: slab_ok_def add_slab_def)
    next
      case 2
      then show ?thesis using fh all z(5) by (auto simp: slab_ok_def add_slab_def)
    qed
  qed
  have "\<exists>j g q. slab_at ?s j g \<and> slab_block z g q \<and> i \<in> frames q 9"
    if "i < page_num z" "pg_slab (pages z i) \<noteq> 0" for i
  proof (cases "i \<in> frames p 9")
    case True
    then show ?thesis using z(5) at [of ord h] by blast
  next
    case False
    then have "i < page_num (zone s)" "pg_slab (pages (zone s) i) \<noteq> 0" using that z(4,6) by auto
    then obtain j g q where "slab_at s j g" "slab_block (zone s) g q" "i \<in> frames q 9"
      using wf by (auto simp: slab_wf_def)
    then show ?thesis using old at by blast
  qed
  moreover have "zone ?s = z" by (simp add: add_slab_def)
  moreover have "\<exists>gs. slab_chain ?s j gs" if "slab_range j" for j using ex [OF that] by blast
  ultimately show wf': "slab_wf ?s" using ok z(1) unfolding slab_wf_def by metis
  have free: "slot_free ?s j a \<longleftrightarrow> slot_free s j a \<or> (j = ord \<and> a \<in> slots h ord)" for j a
  proof
    assume "slot_free ?s j a"
    then obtain g gs where g: "slab_at ?s j g" "free_chain ?s g gs" "a \<in> set gs" by (auto simp: slot_free_def)
    have sub: "set gs \<subseteq> slots g j" by (rule wf_free_slots [OF wf' g(1,2)])
    show "slot_free s j a \<or> (j = ord \<and> a \<in> slots h ord)"
      using g sub fold [of j g gs] at [of j g] by (auto simp: slot_free_def)
  next
    assume "slot_free s j a \<or> (j = ord \<and> a \<in> slots h ord)"
    then show "slot_free ?s j a"
    proof
      assume "slot_free s j a"
      then obtain g gs where g: "slab_at s j g" "free_chain s g gs" "a \<in> set gs" by (auto simp: slot_free_def)
      then show ?thesis using fold [OF g(1) wf_free_slots [OF wf g(1,2)]] at by (auto simp: slot_free_def)
    next
      assume "j = ord \<and> a \<in> slots h ord"
      then show ?thesis using fh all at [of ord h] unfolding slot_free_def by blast
    qed
  qed
  have "a \<notin> slots h ord" if "slab_at s j g" "a \<in> slots g j" for j g a
    using wf_block [OF wf that(1)] slots_one_block [OF z(1) z(5) r, of a] old at_range [OF that(1)] that(2) by blast
  then show "slot_live ?s j a \<longleftrightarrow> slot_live s j a"
    unfolding slot_live_def free at by auto
qed

lemma init_slab_cache_cases:
  assumes wf: "slab_wf s" and r: "slab_range ord"
  shows "init_slab_cache ord SLAB_INIT_SIZE s = Inl Bug_On \<and>
      (\<forall>q. 512 dvd q \<longrightarrow> \<not> frames q 9 \<subseteq> free_frames (zone s)) \<or>
    (\<exists>h s1. init_slab_cache ord SLAB_INIT_SIZE s = Inr (h, s1) \<and> h \<noteq> 0 \<and> slabs s1 = slabs s \<and>
       (slabs s ord = 0 \<longrightarrow> next_slab (hdr s1 h) = slabs s ord) \<and>
       (\<exists>z. s1\<lparr>hdr := (hdr s1)(h := (hdr s1 h)\<lparr>next_slab := slabs s ord\<rparr>), slabs := (slabs s)(ord := h)\<rparr>
          = add_slab ord h z s \<and> zone s1 = z \<and> free_list_head (hdr s1 h) \<noteq> 0 \<and>
          slab_wf (add_slab ord h z s) \<and>
          (\<exists>p. spec_get_pages 9 p (abs_zone_of (zone s)) (abs_zone_of z)) \<and>
          page_num z = page_num (zone s) \<and> start_addr z = start_addr (zone s) \<and>
          end_addr z = end_addr (zone s) \<and>
          big_blk z = big_blk (zone s) \<and>
          (\<forall>j g. slab_at (add_slab ord h z s) j g \<longleftrightarrow> slab_at s j g \<or> (j, g) = (ord, h)) \<and>
          (\<forall>j a. slot_live (add_slab ord h z s) j a \<longleftrightarrow> slot_live s j a)))"
proof -
  note c = slot_cnt_words [OF r]
  from alloc_slab_memory_correct [OF wf_sane [OF wf]] show ?thesis
  proof (elim disjE exE conjE)
    assume "alloc_slab_memory SLAB_INIT_SIZE (zone s) = Inl Bug_On"
      "\<forall>q. 512 dvd q \<longrightarrow> \<not> frames q 9 \<subseteq> free_frames (zone s)"
    then show ?thesis by (simp add: init_slab_cache_def)
  next
    fix p z
    let ?h = "page_to_virt (zone s) (Some p)"
    assume m: "alloc_slab_memory SLAB_INIT_SIZE (zone s) = Inr (?h, z)"
      and z: "zone_sane z" "spec_get_pages 9 p (abs_zone_of (zone s)) (abs_zone_of z)"
        "start_addr z = start_addr (zone s)" "page_num z = page_num (zone s)" "slab_block z ?h p"
        "\<forall>i. i \<notin> frames p 9 \<longrightarrow> pg_slab (pages z i) = pg_slab (pages (zone s) i)"
        "end_addr z = end_addr (zone s)"
    note add = add_slab_wf [OF wf r z(1-5)] z(6)
    have e: "init_slab_cache ord SLAB_INIT_SIZE s = Inr (?h, s\<lparr>zone := z,
        hdr := (hdr s)(?h := \<lparr>free_list_head = ?h + order_to_size ord, next_slab = 0, sh_order = ord\<rparr>),
        next_free := link_slots (slot_cnt ord - 1) (?h + order_to_size ord) (order_to_size ord) (next_free s)\<rparr>)"
      using m by (simp add: init_slab_cache_def Let_def c(1) [simplified])
    have h0: "?h \<noteq> 0"
      using slab_block_unat(1) [OF z(1,5)] z(1) by (auto simp: zone_sane_def unat_eq_zero)
    have "?h + order_to_size ord \<in> slots ?h ord"
      using c(2) slot_addr_step [of ?h ord 0] by (auto simp: slots_def)
    then have f0: "?h + order_to_size ord \<noteq> 0" by (rule slots_memD [OF z(1,5) r])
    have "buddy_inv (zone s)" using wf_sane [OF wf] by (simp add: zone_sane_def buddy_okay_def)
    then have big: "big_blk z = big_blk (zone s)" using big_blk_new_slab [OF _ z(2,5) h0] z(6) by blast
    show ?thesis
      using e h0 f0 add z big by (intro disjI2) (auto simp: add_slab_def)
  qed
qed

section \<open>Allocation\<close>

lemma slabs_at:
  assumes "slab_inv s" "slab_range ord"
  shows "slab_at s ord (slabs s ord)"
proof -
  obtain hs where "slab_chain s ord hs"
    using wf_chain [of s ord] assms unfolding slab_inv_def by blast
  moreover have "slabs s ord \<noteq> 0" using assms by (simp add: slab_inv_def)
  ultimately have "slabs s ord \<in> set hs" by (auto simp: slab_chain_def chain_nonnull)
  then show ?thesis using assms(2) \<open>slab_chain s ord hs\<close> by (auto simp: slab_at_def)
qed

text \<open>What an allocation from the slabs of one order does, as far as its client is concerned.\<close>

definition slab_alloc_post :: "nat \<Rightarrow> slab_state \<Rightarrow> u64 \<Rightarrow> slab_state \<Rightarrow> bool" where
  "slab_alloc_post ord s a s' \<longleftrightarrow> slab_inv s' \<and> \<not> slot_live s ord a \<and>
     big_blk (zone s') = big_blk (zone s) \<and> start_addr (zone s') = start_addr (zone s) \<and>
     (\<forall>j b. slot_live s' j b \<longleftrightarrow> slot_live s j b \<or> (j, b) = (ord, a))"

lemma pop_post:
  assumes inv: "slab_inv s" and at: "slab_at s ord h" and ne: "free_list_head (hdr s h) \<noteq> 0"
  shows "\<exists>a s'. pop_slot h s = (a, s') \<and> slab_alloc_post ord s a s'"
proof -
  obtain a s' where pop: "pop_slot h s = (a, s')" by fastforce
  have wf: "slab_wf s" using inv by (simp add: slab_inv_def)
  note p = pop_slot_correct [OF wf at ne pop]
  then have "slab_inv s'" using inv by (simp add: slab_inv_def)
  then show ?thesis using p(4,6,7) pop by (auto simp: slab_alloc_post_def)
qed

lemma alloc_in_slab_nolock_correct:
  assumes inv: "slab_inv s" and r: "slab_range ord"
  shows "alloc_in_slab_nolock (slabs s ord) ord s = Some (Inl Bug_On) \<and>
      (\<forall>a. \<not> slot_free s ord a) \<and> (\<forall>q. 512 dvd q \<longrightarrow> \<not> frames q 9 \<subseteq> free_frames (zone s)) \<or>
    (\<exists>a s'. alloc_in_slab_nolock (slabs s ord) ord s = Some (Inr (a, s')) \<and> slab_alloc_post ord s a s')"
proof -
  let ?h = "slabs s ord"
  have wf: "slab_wf s" using inv by (simp add: slab_inv_def)
  have h0: "?h \<noteq> 0" using inv r by (simp add: slab_inv_def)
  have at: "slab_at s ord ?h" by (rule slabs_at [OF inv r])
  obtain hs where hs: "slab_chain s ord hs" using wf_chain [OF wf r] by blast
  then obtain gs where gs: "hs = ?h # gs" "chain 0 (\<lambda>h. next_slab (hdr s h)) (next_slab (hdr s ?h)) gs"
    using h0 by (auto simp: slab_chain_def chain_nonnull)
  show ?thesis
  proof (cases "free_list_head (hdr s ?h) = 0")
    case False
    obtain a s' where "pop_slot ?h s = (a, s')" "slab_alloc_post ord s a s'"
      using pop_post [OF inv at False] by blast
    then show ?thesis using h0 False by (subst (1 2) alloc_in_slab_nolock.simps) simp
  next
    case empty: True
    from find_free_slab_cases [OF gs(2)] show ?thesis
    proof (elim disjE conjE bexE)
      fix g
      assume g: "g \<in> set gs" "g \<noteq> 0" "find_free_slab (hdr s) (next_slab (hdr s ?h)) = Some g"
        "free_list_head (hdr s g) \<noteq> 0"
      have "slab_at s ord g" using g(1) hs gs(1) r by (auto simp: slab_at_def)
      then obtain a s' where "pop_slot g s = (a, s')" "slab_alloc_post ord s a s'"
        using pop_post [OF inv _ g(4)] by blast
      then show ?thesis using h0 empty g by (subst (1 2) alloc_in_slab_nolock.simps) simp
    next
      assume none: "find_free_slab (hdr s) (next_slab (hdr s ?h)) = Some 0" "\<forall>g \<in> set gs. free_list_head (hdr s g) = 0"
      have nofree: "\<not> slot_free s ord a" for a
      proof
        assume "slot_free s ord a"
        then obtain g fs where g: "slab_at s ord g" "free_chain s g fs" "a \<in> set fs" by (auto simp: slot_free_def)
        then have "g \<in> set hs" using hs chain_unique unfolding slab_at_def slab_chain_def by metis
        then have "free_list_head (hdr s g) = 0" using gs(1) none(2) empty by auto
        then show False using g(2,3) by (simp add: free_chain_def)
      qed
      from init_slab_cache_cases [OF wf r] show ?thesis
      proof (elim disjE exE conjE)
        assume "init_slab_cache ord SLAB_INIT_SIZE s = Inl Bug_On"
          "\<forall>q. 512 dvd q \<longrightarrow> \<not> frames q 9 \<subseteq> free_frames (zone s)"
        then show ?thesis using h0 empty none(1) nofree by (subst alloc_in_slab_nolock.simps) simp
      next
        fix h s1 z
        let ?s = "add_slab ord h z s"
        assume n: "init_slab_cache ord SLAB_INIT_SIZE s = Inr (h, s1)" "h \<noteq> 0" "slabs s1 = slabs s"
          and eq: "s1\<lparr>hdr := (hdr s1)(h := (hdr s1 h)\<lparr>next_slab := slabs s ord\<rparr>), slabs := (slabs s)(ord := h)\<rparr> = ?s"
          and f: "free_list_head (hdr s1 h) \<noteq> 0" and big: "big_blk z = big_blk (zone s)" "start_addr z = start_addr (zone s)"
          and z: "slab_wf ?s" "\<forall>j g. slab_at ?s j g \<longleftrightarrow> slab_at s j g \<or> (j, g) = (ord, h)"
            "\<forall>j a. slot_live ?s j a \<longleftrightarrow> slot_live s j a"
        have step: "alloc_in_slab_nolock ?h ord s = alloc_in_slab_nolock h ord ?s"
          using h0 empty none(1) n eq by (subst alloc_in_slab_nolock.simps) simp
        have inv': "slab_inv ?s"
          using inv z(1) n(2) by (auto simp: slab_inv_def add_slab_def)
        have fl: "free_list_head (hdr ?s h) \<noteq> 0"
          using f arg_cong [OF eq, of "\<lambda>s. free_list_head (hdr s h)"] by simp
        obtain a s' where "pop_slot h ?s = (a, s')" "slab_alloc_post ord ?s a s'"
          using pop_post [OF inv' _ fl] z(2) by blast
        then show ?thesis
          using n(2) fl z(3) big unfolding step
          by (subst (1 2) alloc_in_slab_nolock.simps) (auto simp: slab_alloc_post_def add_slab_def)
      qed
    qed
  qed
qed

section \<open>Freeing\<close>

lemma slot_in_chain_eq: "chain 0 nf cur fs \<Longrightarrow> slot_in_chain nf cur a = Some (a \<in> set fs)"
proof (induction fs arbitrary: cur)
  case Nil
  then show ?case by (subst slot_in_chain.simps) simp
next
  case (Cons x xs)
  then show ?case by (subst slot_in_chain.simps) auto
qed

text \<open>A live slot leads back to its slab through its page.\<close>

lemma slot_slab:
  assumes wf: "slab_wf s" and at: "slab_at s ord h" and a: "a \<in> slots h ord"
  shows "\<exists>i. virt_to_page (zone s) a = Inr i \<and> pg_slab (pages (zone s) i) = h" "h \<noteq> 0" "a \<noteq> 0"
proof -
  note z = wf_sane [OF wf]
  obtain p where p: "slab_block (zone s) h p" using wf_block [OF wf at] by blast
  note r = at_range [OF at]
  obtain k where k: "unat a = unat h + k * 2 ^ ord" "unat a + 2 ^ ord \<le> unat h + 2 ^ 21" and a0: "a \<noteq> 0"
    by (rule slots_memD [OF z p r a])
  show "\<exists>i. virt_to_page (zone s) a = Inr i \<and> pg_slab (pages (zone s) i) = h"
  proof -
    have "unat h \<le> unat a" "unat a < unat h + 2 ^ 21" using k zero_less_power [of "2::nat" ord] by linarith+
    then show ?thesis using slot_page [OF z p, of a] p unfolding slab_block_def by blast
  qed
  show "h \<noteq> 0"
    using slab_block_unat(1) [OF z p] z by (auto simp: zone_sane_def unat_eq_zero)
  show "a \<noteq> 0" by (rule a0)
qed

lemma free_here:
  assumes wf: "slab_wf s" and at: "slab_at s ord h" and fs: "free_chain s h fs" and b: "b \<in> slots h ord"
  shows "slot_free s ord b \<longleftrightarrow> b \<in> set fs"
proof
  assume "slot_free s ord b"
  then obtain g gs where g: "slab_at s ord g" "free_chain s g gs" "b \<in> set gs" by (auto simp: slot_free_def)
  then have "g = h" using wf_slots_one [OF wf at g(1)] wf_free_slots [OF wf g(1,2)] b by blast
  then show "b \<in> set fs" using g fs chain_unique unfolding free_chain_def by metis
qed (use at fs in \<open>auto simp: slot_free_def\<close>)

lemma check_slot_is_free_live:
  assumes wf: "slab_wf s" and at: "slab_at s ord h" and a: "slot_live s ord a"
  shows "check_slot_is_free s h a = Some False"
proof -
  obtain hs where hs: "slab_chain s ord hs" using wf_chain [OF wf at_range [OF at]] by blast
  have none: "slot_in_chain (next_free s) (free_list_head (hdr s g)) a = Some False" if g: "slab_at s ord g" for g
  proof -
    obtain fs where fs: "free_chain s g fs" using wf_ok [OF wf g] by (auto simp: slab_ok_def)
    then have "a \<notin> set fs" using a g by (auto simp: slot_live_def slot_free_def)
    then show ?thesis
      using slot_in_chain_eq [of "next_free s" "free_list_head (hdr s g)" fs a] fs by (simp add: free_chain_def)
  qed
  have walk: "chain 0 (\<lambda>h. next_slab (hdr s h)) g gs \<Longrightarrow> \<forall>x \<in> set gs. slab_at s ord x \<Longrightarrow>
      check_next_slabs s g a = Some False" for g gs
  proof (induction gs arbitrary: g)
    case Nil
    then show ?case by (subst check_next_slabs.simps) simp
  next
    case (Cons x xs)
    then show ?case by (subst check_next_slabs.simps) (simp add: none)
  qed
  have "h \<in> set hs" using at hs chain_unique unfolding slab_at_def slab_chain_def by metis
  then obtain us vs where uv: "hs = us @ h # vs" by (auto simp: in_set_conv_decomp)
  then have "chain 0 (\<lambda>h. next_slab (hdr s h)) (next_slab (hdr s h)) vs"
    using hs chain_split [of 0 "\<lambda>h. next_slab (hdr s h)" "slabs s ord" us h vs] by (simp add: slab_chain_def)
  moreover have "\<forall>x \<in> set vs. slab_at s ord x" using hs uv at_range [OF at] by (auto simp: slab_at_def)
  ultimately show ?thesis using none [OF at] walk by (simp add: check_slot_is_free_def)
qed

lemma free_in_slab_correct:
  assumes inv: "slab_inv s" and a: "slot_live s ord a"
  shows "\<exists>s'. free_in_slab_checked d a s = Inr s' \<and> slab_inv s' \<and> zone s' = zone s \<and>
    slot_free s' ord a \<and> (\<forall>j b. slot_live s' j b \<longleftrightarrow> slot_live s j b \<and> (j, b) \<noteq> (ord, a))"
proof -
  have wf: "slab_wf s" using inv by (simp add: slab_inv_def)
  obtain h where at: "slab_at s ord h" and sl: "a \<in> slots h ord" using a by (auto simp: slot_live_def)
  obtain i where i: "virt_to_page (zone s) a = Inr i" "pg_slab (pages (zone s) i) = h"
    using slot_slab(1) [OF wf at sl] by blast
  note ne = slot_slab(2,3) [OF wf at sl]
  obtain fs where fs: "free_chain s h fs" "set fs \<subseteq> slots h ord"
    using wf_ok [OF wf at] by (auto simp: slab_ok_def)
  have nf: "a \<notin> set fs" using a free_here [OF wf at fs(1) sl] by (simp add: slot_live_def)
  define s' where "s' = s\<lparr>next_free := (next_free s)(a := free_list_head (hdr s h)),
      hdr := (hdr s)(h := (hdr s h)\<lparr>free_list_head := a\<rparr>)\<rparr>"
  have fs': "free_chain s' h (a # fs)"
    using chain_push [of 0 "next_free s" "free_list_head (hdr s h)" fs a] fs(1) nf ne
    by (simp add: free_chain_def s'_def)
  have same: "zone s' = zone s" "slabs s' = slabs s" "\<And>g. next_slab (hdr s' g) = next_slab (hdr s g)"
      "\<And>g. sh_order (hdr s' g) = sh_order (hdr s g)"
      "\<forall>g. g \<noteq> h \<longrightarrow> free_list_head (hdr s' g) = free_list_head (hdr s g)"
      "\<forall>b. b \<notin> slots h ord \<longrightarrow> next_free s' b = next_free s b"
    using sl by (auto simp: s'_def)
  have sub: "set (a # fs) \<subseteq> slots h ord" using fs(2) sl by simp
  note re = relink_slab [OF wf at same fs' sub]
  have live: "slot_live s' j b \<longleftrightarrow> slot_live s j b \<and> (j, b) \<noteq> (ord, a)" for j b
    unfolding slot_live_def re(2,3) using free_here [OF wf at fs(1), of b] sl at by auto
  have "free_in_slab_checked d a s = Inr s'"
    using i ne check_slot_is_free_live [OF wf at a]
    by (simp add: free_in_slab_checked_def returns_def Let_def s'_def)
  moreover have "slab_inv s'" using re(1) inv same(2) by (simp add: slab_inv_def)
  moreover have "slot_free s' ord a" using re(3) [of ord a] sl by simp
  ultimately show ?thesis using live same(1) by blast
qed

section \<open>Initialisation\<close>

text \<open>All frames are free but those of the blocks of order 9 that start at \<open>U\<close>.\<close>

definition used_blocks :: "global_mem \<Rightarrow> nat set \<Rightarrow> bool" where
  "used_blocks z U \<longleftrightarrow> finite U \<and> (\<forall>p \<in> U. 512 dvd p) \<and>
     free_frames z = {..<page_num z} - (\<Union>p \<in> U. frames p 9)"

lemma used_blocks_run:
  assumes u: "used_blocks z U" and n: "(card U + 1) * 512 \<le> page_num z"
  shows "\<exists>q. 512 dvd q \<and> frames q 9 \<subseteq> free_frames z"
proof -
  let ?S = "(\<lambda>k. k * 512) ` {..card U}"
  have "card ?S = card U + 1" by (subst card_image) (auto simp: inj_on_def)
  then have "\<not> ?S \<subseteq> U" using u card_mono [of U ?S] by (auto simp: used_blocks_def)
  then obtain k where k: "k \<le> card U" "k * 512 \<notin> U" by auto
  have in_range: "frames (k * 512) 9 \<subseteq> {..<page_num z}"
  proof -
    have "(k + 1) * 512 \<le> (card U + 1) * 512" using k(1) by simp
    then show ?thesis using n by (auto simp: frames_def)
  qed
  have "frames (k * 512) 9 \<inter> frames p 9 = {}" if p: "p \<in> U" for p
  proof (rule ccontr)
    assume m: "frames (k * 512) 9 \<inter> frames p 9 \<noteq> {}"
    have "2 ^ 9 dvd k * 512" "2 ^ 9 dvd p" using u p by (simp_all add: used_blocks_def)
    from dyadic_nested [OF this order.refl m] have "k * 512 = p"
      using dyadic_nested [OF \<open>2 ^ 9 dvd p\<close> \<open>2 ^ 9 dvd k * 512\<close> order.refl] m
      by (simp add: frames_def ivl_subset)
    then show False using p k(2) by simp
  qed
  then have "frames (k * 512) 9 \<subseteq> free_frames z" using in_range u by (auto simp: used_blocks_def)
  then show ?thesis by (intro exI [of _ "k * 512"]) simp
qed

lemma used_blocks_insert:
  assumes "used_blocks z U" "spec_get_pages 9 p (abs_zone_of z) (abs_zone_of z')" "page_num z' = page_num z"
  shows "used_blocks z' (insert p U)"
proof -
  have "free_frames z' = free_frames z - frames p 9" "512 dvd p"
    using assms(2) by (simp_all add: spec_get_pages_def abs_zone_of_def)
  then show ?thesis using assms(1,3) by (auto simp: used_blocks_def)
qed

definition zone_extent :: "global_mem \<Rightarrow> nat \<times> u64 \<times> u64" where
  "zone_extent z = (page_num z, start_addr z, end_addr z)"

lemma init_slab_orders_correct:
  "slab_wf s \<Longrightarrow> distinct os \<Longrightarrow> (\<forall>ord \<in> set os. slab_range ord \<and> slabs s ord = 0) \<Longrightarrow>
   used_blocks (zone s) U \<Longrightarrow> (card U + length os) * 512 \<le> page_num (zone s) \<Longrightarrow>
   (\<forall>j a. \<not> slot_live s j a) \<Longrightarrow>
   \<exists>s'. init_slab_orders os s = Inr s' \<and> slab_wf s' \<and> (\<forall>j a. \<not> slot_live s' j a) \<and>
     zone_extent (zone s') = zone_extent (zone s) \<and> big_blk (zone s') = big_blk (zone s) \<and>
     (\<forall>ord. slabs s' ord \<noteq> 0 \<longleftrightarrow> ord \<in> set os \<or> slabs s ord \<noteq> 0)"
proof (induction os arbitrary: s U)
  case Nil
  then show ?case by simp
next
  case (Cons ord os)
  have r: "slab_range ord" "slabs s ord = 0" using Cons.prems by auto
  have "(card U + 1) * 512 \<le> page_num (zone s)" using Cons.prems(5) by simp
  then obtain q where q: "512 dvd q" "frames q 9 \<subseteq> free_frames (zone s)"
    using used_blocks_run Cons.prems(4) by blast
  obtain h s1 z p where i: "init_slab_cache ord SLAB_INIT_SIZE s = Inr (h, s1)" "h \<noteq> 0" "slabs s1 = slabs s"
      "next_slab (hdr s1 h) = slabs s ord"
    and eq: "s1\<lparr>hdr := (hdr s1)(h := (hdr s1 h)\<lparr>next_slab := slabs s ord\<rparr>), slabs := (slabs s)(ord := h)\<rparr>
          = add_slab ord h z s" "zone s1 = z"
    and w: "slab_wf (add_slab ord h z s)" "\<forall>j a. slot_live (add_slab ord h z s) j a \<longleftrightarrow> slot_live s j a"
    and sp: "spec_get_pages 9 p (abs_zone_of (zone s)) (abs_zone_of z)" "page_num z = page_num (zone s)"
    and ext: "zone_extent z = zone_extent (zone s)" "big_blk z = big_blk (zone s)"
    using init_slab_cache_cases [OF Cons.prems(1) r(1)] q r(2) unfolding zone_extent_def by fastforce
  let ?s = "add_slab ord h z s"
  have "(hdr s1)(h := (hdr s1 h)\<lparr>next_slab := slabs s ord\<rparr>) = hdr s1"
    using i(4) by (auto simp: fun_eq_iff)
  then have e: "s1\<lparr>slabs := (slabs s1)(ord := h)\<rparr> = ?s"
    using eq(1) i(3) by (metis slab_state.surjective slab_state.update_convs(3))
  have step: "init_slab_orders (ord # os) s = init_slab_orders os ?s" using i(1) e by simp
  have u: "used_blocks (zone ?s) (insert p U)"
    using used_blocks_insert [OF Cons.prems(4) sp] by (simp add: add_slab_def)
  have "card (insert p U) \<le> Suc (card U)" by (rule card_insert_le_m1) simp_all
  then have "(card (insert p U) + length os) * 512 \<le> (card U + length (ord # os)) * 512" by simp
  then have "(card (insert p U) + length os) * 512 \<le> page_num (zone ?s)"
    using Cons.prems(5) sp(2) by (simp add: add_slab_def)
  moreover have sl: "slabs ?s = (slabs s)(ord := h)" by (simp add: add_slab_def)
  moreover have "\<forall>o' \<in> set os. slab_range o' \<and> slabs ?s o' = 0"
    using Cons.prems(2,3) by (auto simp: sl)
  ultimately obtain s' where "init_slab_orders os ?s = Inr s'" "slab_wf s'" "\<forall>j a. \<not> slot_live s' j a"
    "zone_extent (zone s') = zone_extent (zone ?s)" "big_blk (zone s') = big_blk (zone ?s)"
    "\<forall>o'. slabs s' o' \<noteq> 0 \<longleftrightarrow> o' \<in> set os \<or> slabs ?s o' \<noteq> 0"
    using Cons.IH [of ?s "insert p U"] w u Cons.prems(2,6) by fastforce
  moreover have "zone ?s = z" by (simp add: add_slab_def)
  ultimately show ?case using i(2) step ext by (auto simp: sl)
qed

lemma init_slab_correct:
  assumes z: "zone_sane z" "\<forall>i < page_num z. pg_slab (pages z i) = 0" "free_frames z = {..<page_num z}"
    and n: "7 * 512 \<le> page_num z"
    and s: "zone s = z" "\<forall>ord. slabs s ord = 0"
  shows "\<exists>s'. init_slab s = Inr s' \<and> slab_inv s' \<and> (\<forall>j a. \<not> slot_live s' j a) \<and>
    zone_extent (zone s') = zone_extent z \<and> big_blk (zone s') = big_blk z"
proof -
  have ch: "slab_chain s ord hs \<longleftrightarrow> hs = []" for ord hs by (simp add: slab_chain_def s)
  have at: "\<not> slab_at s ord h" for ord h by (simp add: slab_at_def ch)
  have wf: "slab_wf s" using z s by (simp add: slab_wf_def at ch)
  have u: "used_blocks (zone s) {}" using z(3) s by (simp add: used_blocks_def)
  let ?os = "[SLAB_MIN_ORDER..<SLAB_MAX_ORDER + 1]"
  have os: "distinct ?os" "set ?os = {ord. slab_range ord}" "length ?os = 7"
    by (auto simp: slab_range_def SLAB_MIN_ORDER_def SLAB_MAX_ORDER_def)
  have "\<forall>ord \<in> set ?os. slab_range ord \<and> slabs s ord = 0" using os(2) s by auto
  moreover have "(card ({} :: nat set) + length ?os) * 512 \<le> page_num (zone s)" using n s(1) os(3) by simp
  moreover have "\<forall>j a. \<not> slot_live s j a" by (simp add: slot_live_def at)
  ultimately obtain s' where "init_slab_orders ?os s = Inr s'" "slab_wf s'" "\<forall>j a. \<not> slot_live s' j a"
    "zone_extent (zone s') = zone_extent (zone s)" "big_blk (zone s') = big_blk (zone s)"
    "\<forall>ord. slabs s' ord \<noteq> 0 \<longleftrightarrow> ord \<in> set ?os \<or> slabs s ord \<noteq> 0"
    using init_slab_orders_correct [OF wf os(1) _ u] by blast
  then show ?thesis unfolding os(2) using s(1) by (simp add: init_slab_def slab_inv_def)
qed

lemma slab_order_fits:
  assumes "unat sz \<le> 2048"
  shows "slab_range (slab_order sz)" "unat sz \<le> 2 ^ slab_order sz"
    "slab_order sz = max SLAB_MIN_ORDER (ceil_log2 (unat sz))"
proof -
  have c: "size_to_order sz = ceil_log2 (unat sz)"
  proof (cases "unat sz = 0")
    case True
    then have "sz = 0" by (simp add: unat_eq_zero)
    moreover have "ceil_log2 0 = 0" by (rule ceil_log2_eqI) simp_all
    ultimately show ?thesis by (simp add: size_to_order_0)
  next
    case False
    then show ?thesis using assms by (intro size_to_order_eq) simp_all
  qed
  then show e: "slab_order sz = max SLAB_MIN_ORDER (ceil_log2 (unat sz))" by (simp add: slab_order_def)
  have "ceil_log2 (unat sz) \<le> 11" using assms by (simp add: ceil_log2_le_iff)
  then show "slab_range (slab_order sz)" unfolding e by (simp add: slab_range_def SLAB_MIN_ORDER_def SLAB_MAX_ORDER_def)
  show "unat sz \<le> 2 ^ slab_order sz" unfolding e by (simp add: ceil_log2_le_iff [symmetric])
qed

lemma alloc_in_slab_cases:
  assumes inv: "slab_inv s" and sz: "unat sz \<le> 2048"
  shows "alloc_in_slab sz s = Inl Bug_On \<and> (\<forall>a. \<not> slot_free s (slab_order sz) a) \<and>
      (\<forall>q. 512 dvd q \<longrightarrow> \<not> frames q 9 \<subseteq> free_frames (zone s)) \<or>
    (\<exists>a s'. alloc_in_slab sz s = Inr (a, s') \<and> slab_alloc_post (slab_order sz) s a s')"
proof -
  have "\<not> order_to_size SLAB_MAX_ORDER < sz"
    using sz unat_order_to_size [of 11] by (simp add: word_less_nat_alt SLAB_MAX_ORDER_def)
  then show ?thesis
    using alloc_in_slab_nolock_correct [OF inv slab_order_fits(1) [OF sz]]
    by (auto simp: alloc_in_slab_def alloc_in_slab_locked_def returns_def)
qed

text \<open>The bytes of a slot.\<close>

definition slot_bytes :: "nat \<Rightarrow> u64 \<Rightarrow> nat set" where
  "slot_bytes ord a = {unat a ..< unat a + 2 ^ ord}"

lemma slots_disjoint:
  assumes wf: "slab_wf s" and h: "slab_at s i h" "a \<in> slots h i" and g: "slab_at s j g" "b \<in> slots g j"
    and ne: "(i, a) \<noteq> (j, b)"
  shows "slot_bytes i a \<inter> slot_bytes j b = {}"
proof -
  note z = wf_sane [OF wf]
  obtain p where p: "slab_block (zone s) h p" using wf_block [OF wf h(1)] by blast
  obtain q where q: "slab_block (zone s) g q" using wf_block [OF wf g(1)] by blast
  obtain k where k: "unat a = unat h + k * 2 ^ i" "unat a + 2 ^ i \<le> unat h + 2 ^ 21" "a = slot_addr h i k"
    by (rule slots_memD [OF z p at_range [OF h(1)] h(2)])
  obtain l where l: "unat b = unat g + l * 2 ^ j" "unat b + 2 ^ j \<le> unat g + 2 ^ 21" "b = slot_addr g j l"
    by (rule slots_memD [OF z q at_range [OF g(1)] g(2)])
  show ?thesis
  proof (cases "g = h")
    case True
    then have ji: "j = i" using at_unique [OF wf h(1)] g(1) by simp
    then have "k \<noteq> l" using ne k(3) l(3) True by auto
    then consider "k + 1 \<le> l" | "l + 1 \<le> k" by linarith
    then have "k * 2 ^ i + 2 ^ i \<le> l * 2 ^ i \<or> l * 2 ^ i + 2 ^ i \<le> k * (2::nat) ^ i"
      using mult_le_mono1 [of "k + 1" l "2 ^ i"] mult_le_mono1 [of "l + 1" k "2 ^ i"]
      by cases (simp_all add: add.commute)
    then show ?thesis using k(1) l(1) True ji by (auto simp: slot_bytes_def)
  next
    case False
    have "p \<noteq> q" using False p q by (auto simp: slab_block_def)
    then have fr: "frames p 9 \<inter> frames q 9 = {}"
      using inv_disjD [of "zone s" p 9 q 9] z p q
      by (simp add: zone_sane_def buddy_okay_def slab_block_def blk_def)
    then have "p + 512 \<le> q \<or> q + 512 \<le> p"
      using frames_self [of p 9] frames_self [of q 9] by (auto simp: frames_def)
    then have "unat h + 2 ^ 21 \<le> unat g \<or> unat g + 2 ^ 21 \<le> unat h"
      using slab_block_unat(1) [OF z p] slab_block_unat(1) [OF z q] by auto
    then show ?thesis using k(1,2) l(1,2) by (auto simp: slot_bytes_def)
  qed
qed

section \<open>Properties\<close>

text \<open>
  With memory for seven slabs, \<^verbatim>\<open>init_slab\<close> returns a well-formed allocator that has a
  slab for every object size and no live object.
\<close>

theorem init_slab_establishes:
  assumes "zone_sane z" "\<forall>i < page_num z. pg_slab (pages z i) = 0"
    "free_frames z = {..<page_num z}" "7 * 512 \<le> page_num z"
  shows "\<exists>s'. init_slab \<lparr>zone = z, slabs = (\<lambda>_. 0), hdr = hs, next_free = nf\<rparr> = Inr s' \<and>
    slab_inv s' \<and> (\<forall>ord a. \<not> slot_live s' ord a)"
  using init_slab_correct [OF assms, of "\<lparr>zone = z, slabs = (\<lambda>_. 0), hdr = hs, next_free = nf\<rparr>"] by auto

lemma demo_big_zone:
  obtains z where "zone_sane z" "\<forall>i < page_num z. pg_slab (pages z i) = 0"
    "free_frames z = {..<page_num z}" "7 * 512 \<le> page_num z"
    "init_buddy (\<lambda>_. zero_page) 4096 3584 = Inr z"
proof -
  obtain z where z: "init_buddy (\<lambda>_. zero_page) 4096 3584 = Inr z" "init_upto 3584 z" "page_num z = 3584"
    "start_addr z = 4096" "end_addr z = 4096 + of_nat 3584 * BUDDY_PAGE_SIZE"
    "\<forall>i < 3584. pg_slab (pages z i) = 0"
    using init_buddy_correct [of 3584 "\<lambda>_. zero_page" 4096] by (auto simp: zero_page_def)
  then have "zone_sane z"
    by (simp add: zone_sane_def init_upto_def buddy_okay_def zone_addr_ok_def BUDDY_PAGE_SIZE_4096)
  then show thesis using that [of z] z by (simp add: init_upto_def)
qed

theorem init_slab_establishes_witness:
  "\<exists>z s'. init_buddy (\<lambda>_. zero_page) 4096 3584 = Inr z \<and>
     init_slab \<lparr>zone = z, slabs = (\<lambda>_. 0), hdr = (\<lambda>_. \<lparr>free_list_head = 0, next_slab = 0, sh_order = 0\<rparr>),
       next_free = (\<lambda>_. 0)\<rparr> = Inr s' \<and> slab_inv s' \<and> (\<forall>ord a. \<not> slot_live s' ord a)"
proof -
  obtain z where z: "zone_sane z" "\<forall>i < page_num z. pg_slab (pages z i) = 0"
    "free_frames z = {..<page_num z}" "7 * 512 \<le> page_num z"
    "init_buddy (\<lambda>_. zero_page) 4096 3584 = Inr z"
    by (rule demo_big_zone)
  from init_slab_establishes [OF z(1-4)] z(5) show ?thesis by blast
qed

lemma demo_slabs:
  obtains s where "slab_inv s" "\<forall>ord a. \<not> slot_live s ord a"
proof -
  obtain z where z: "zone_sane z" "\<forall>i < page_num z. pg_slab (pages z i) = 0"
    "free_frames z = {..<page_num z}" "7 * 512 \<le> page_num z"
    by (rule demo_big_zone)
  let ?s = "\<lparr>zone = z, slabs = (\<lambda>_. 0), hdr = (\<lambda>_. \<lparr>free_list_head = 0, next_slab = 0, sh_order = 0\<rparr>),
      next_free = (\<lambda>_. 0)\<rparr>"
  show thesis using init_slab_correct [OF z, of ?s] that by auto
qed

text \<open>
  C7: \<^verbatim>\<open>alloc_in_slab\<close> for at most 2048 bytes either stops in \<^verbatim>\<open>BUG_ON\<close>, when its order has no
  free slot and no free 2 MB run is left, or returns a slot that is large enough, was not
  live, and shares no byte with a live object of any size; nothing else changes hands.
\<close>

theorem alloc_in_slab_sound:
  assumes "slab_inv s" "unat sz \<le> 2048"
  shows "(alloc_in_slab sz s = Inl Bug_On \<and> (\<forall>a. \<not> slot_free s (slab_order sz) a) \<and>
      (\<forall>q. 512 dvd q \<longrightarrow> \<not> frames q 9 \<subseteq> free_frames (zone s))) \<or>
    (\<exists>a s'. alloc_in_slab sz s = Inr (a, s') \<and> slab_inv s' \<and> unat sz \<le> 2 ^ slab_order sz \<and>
       \<not> slot_live s (slab_order sz) a \<and>
       (\<forall>j b. slot_live s' j b \<longleftrightarrow> slot_live s j b \<or> (j, b) = (slab_order sz, a)) \<and>
       (\<forall>j b. slot_live s j b \<longrightarrow> slot_bytes (slab_order sz) a \<inter> slot_bytes j b = {}))"
proof -
  have "slot_bytes (slab_order sz) a \<inter> slot_bytes j b = {}"
    if post: "slab_alloc_post (slab_order sz) s a s'" and "slot_live s j b" for a s' j b
  proof -
    have wf: "slab_wf s'" and l: "slot_live s' (slab_order sz) a" "slot_live s' j b"
      using that by (auto simp: slab_alloc_post_def slab_inv_def)
    have "(slab_order sz, a) \<noteq> (j, b)" using that by (auto simp: slab_alloc_post_def)
    moreover obtain h g where "slab_at s' (slab_order sz) h" "a \<in> slots h (slab_order sz)"
      "slab_at s' j g" "b \<in> slots g j"
      using l by (auto simp: slot_live_def)
    ultimately show ?thesis by (intro slots_disjoint [OF wf])
  qed
  then show ?thesis
    using alloc_in_slab_cases [OF assms] slab_order_fits(2) [OF assms(2)]
    by (auto simp: slab_alloc_post_def)
qed

theorem alloc_in_slab_sound_witness:
  "\<exists>s. slab_inv s \<and>
    ((alloc_in_slab 100 s = Inl Bug_On \<and> (\<forall>a. \<not> slot_free s (slab_order 100) a) \<and>
      (\<forall>q. 512 dvd q \<longrightarrow> \<not> frames q 9 \<subseteq> free_frames (zone s))) \<or>
    (\<exists>a s'. alloc_in_slab 100 s = Inr (a, s') \<and> slab_inv s' \<and> unat (100 :: u64) \<le> 2 ^ slab_order 100 \<and>
       \<not> slot_live s (slab_order 100) a \<and>
       (\<forall>j b. slot_live s' j b \<longleftrightarrow> slot_live s j b \<or> (j, b) = (slab_order 100, a)) \<and>
       (\<forall>j b. slot_live s j b \<longrightarrow> slot_bytes (slab_order 100) a \<inter> slot_bytes j b = {})))"
proof -
  obtain s where s: "slab_inv s" by (rule demo_slabs)
  show ?thesis
    by (rule exI [of _ s], rule conjI, rule s, rule alloc_in_slab_sound [OF s]) simp
qed

text \<open>
  C8: \<^verbatim>\<open>free_in_slab\<close> of a live object, with or without double-free detection, returns and makes
  exactly that object dead.
\<close>

theorem free_in_slab_sound:
  assumes "slab_inv s" "slot_live s ord a"
  shows "\<exists>s'. free_in_slab_checked detect a s = Inr s' \<and> slab_inv s' \<and>
    (\<forall>j b. slot_live s' j b \<longleftrightarrow> slot_live s j b \<and> (j, b) \<noteq> (ord, a))"
  using free_in_slab_correct [OF assms] by blast

lemma demo_live:
  obtains s a where "slab_inv s" "slot_live s 5 a"
proof -
  obtain s where s: "slab_inv s" by (rule demo_slabs)
  have wf: "slab_wf s" using s by (simp add: slab_inv_def)
  have r: "slab_range 5" by (simp add: slab_range_def SLAB_MIN_ORDER_def SLAB_MAX_ORDER_def)
  let ?h = "slabs s 5"
  have at: "slab_at s 5 ?h" by (rule slabs_at [OF s r])
  show thesis
  proof (cases "free_list_head (hdr s ?h) = 0")
    case True
    have "slot_addr ?h 5 1 \<in> slots ?h 5" by (auto simp: slots_def slot_cnt_def)
    moreover have "free_chain s ?h []" using True by (simp add: free_chain_def)
    ultimately have "slot_live s 5 (slot_addr ?h 5 1)"
      using free_here [OF wf at] at by (auto simp: slot_live_def)
    then show thesis using s that by blast
  next
    case False
    then show thesis using pop_post [OF s at] that by (auto simp: slab_alloc_post_def)
  qed
qed

theorem free_in_slab_sound_witness:
  "\<exists>s a s'. slot_live s 5 a \<and> free_in_slab_checked True a s = Inr s' \<and> slab_inv s' \<and>
    (\<forall>j b. slot_live s' j b \<longleftrightarrow> slot_live s j b \<and> (j, b) \<noteq> (5, a))"
proof -
  obtain s a where s: "slab_inv s" "slot_live s 5 a" by (rule demo_live)
  from free_in_slab_sound [OF s, of True] s(2) show ?thesis by blast
qed

text \<open>
  C9: With \<^verbatim>\<open>DETECTING_DOUBLE_FREE_IN_SLAB\<close> on, freeing a slot that is already free always ends
  in \<^verbatim>\<open>BUG_ON\<close>.
\<close>

theorem double_free_detected:
  assumes "slab_inv s" "slot_free s ord a"
  shows "free_in_slab_checked True a s = Inl Bug_On"
proof -
  have wf: "slab_wf s" using assms(1) by (simp add: slab_inv_def)
  obtain h fs where h: "slab_at s ord h" "free_chain s h fs" "a \<in> set fs" using assms(2) by (auto simp: slot_free_def)
  have sl: "a \<in> slots h ord" using wf_free_slots [OF wf h(1,2)] h(3) by blast
  obtain i where i: "virt_to_page (zone s) a = Inr i" "pg_slab (pages (zone s) i) = h"
    using slot_slab(1) [OF wf h(1) sl] by blast
  have "check_slot_is_free s h a = Some True"
    using slot_in_chain_eq [of "next_free s" "free_list_head (hdr s h)" fs a] h(2,3)
    by (simp add: check_slot_is_free_def free_chain_def)
  then show ?thesis
    using i slot_slab(2) [OF wf h(1) sl] by (simp add: free_in_slab_checked_def returns_def Let_def)
qed

theorem double_free_detected_witness:
  "\<exists>s a s'. slot_live s 5 a \<and> free_in_slab_checked False a s = Inr s' \<and>
     free_in_slab_checked True a s' = Inl Bug_On"
proof -
  obtain s a where s: "slab_inv s" "slot_live s 5 a" by (rule demo_live)
  obtain s' where s': "free_in_slab_checked False a s = Inr s'" "slab_inv s'" "slot_free s' 5 a"
    using free_in_slab_correct [OF s, of False] by blast
  from double_free_detected [OF s'(2,3)] s s' show ?thesis by blast
qed

section \<open>A stale slab header\<close>

text \<open>
  \<^verbatim>\<open>alloc_in_slab\<close> reads \<^verbatim>\<open>slabs[order]\<close> before it takes the lock. When another CPU puts a new
  slab in front in between, the walk starts at the old header \<open>h\<close>, and a further new slab
  is linked to \<open>h\<close>: the slab that the other CPU added is no longer on the chain.
\<close>

lemma stale_header_drops_slab:
  assumes "h \<noteq> 0" "free_list_head (hdr s h) = 0" "next_slab (hdr s h) = 0"
    and "init_slab_cache ord SLAB_INIT_SIZE s = Inr (n, s1)" "n \<noteq> 0" "n \<noteq> h"
    and "hdr s1 h = hdr s h" "free_list_head (hdr s1 n) \<noteq> 0"
  shows "\<exists>a s'. alloc_in_slab_locked h ord s = Inr (a, s') \<and> slab_chain s' ord [n, h]"
proof -
  have f: "find_free_slab (hdr s) 0 = Some 0" by (subst find_free_slab.simps) simp
  let ?s = "s1\<lparr>hdr := (hdr s1)(n := (hdr s1 n)\<lparr>next_slab := h\<rparr>), slabs := (slabs s1)(ord := n)\<rparr>"
  have "alloc_in_slab_nolock h ord s = alloc_in_slab_nolock n ord ?s"
    using assms f by (subst alloc_in_slab_nolock.simps) simp
  also have "\<dots> = Some (Inr (pop_slot n ?s))"
    using assms by (subst alloc_in_slab_nolock.simps) simp
  finally show ?thesis
    using assms by (auto simp: alloc_in_slab_locked_def returns_def pop_slot_def Let_def slab_chain_def)
qed

end
