(* ===== verification/Kmalloc.thy ===== *)
theory Kmalloc
  imports Slab
begin

text \<open>
  The kernel's general allocator, \<^verbatim>\<open>kernel/mm/kmalloc.c\<close>, and the initialisation of memory
  management, \<^verbatim>\<open>kernel/mm/mm.c\<close> with \<^verbatim>\<open>arch/aarch64/mm/mmparse.c\<close>. Requests of up to
  2048 bytes go to the slabs, larger ones to the buddy allocator; \<^verbatim>\<open>kfree\<close> finds out
  which of the two an address came from by the back pointer of its page. The bytes of the
  objects are a map of their own, which only \<^verbatim>\<open>kzalloc\<close> writes.
\<close>

section \<open>Operations\<close>

record kmem =
  km :: slab_state
  km_bytes :: "u64 \<Rightarrow> 8 word"

definition kmem_zone :: "kmem \<Rightarrow> global_mem" where
  "kmem_zone k = zone (km k)"

definition set_zone :: "global_mem \<Rightarrow> kmem \<Rightarrow> kmem" where
  "set_zone z k = k\<lparr>km := (km k)\<lparr>zone := z\<rparr>\<rparr>"

definition size_to_page_order :: "u64 \<Rightarrow> nat" where
  "size_to_page_order sz =
     (let pg_num = unat (ROUND_UP sz BUDDY_PAGE_SIZE div BUDDY_PAGE_SIZE);
          ord = halvings pg_num 0
      in if 2 ^ ord < pg_num then ord + 1 else ord)"

definition get_pages :: "nat \<Rightarrow> kmem \<Rightarrow> (u64 \<times> kmem) res" where
  "get_pages ord k =
     bind_res (buddy_get_pages ord (kmem_zone k)) (\<lambda>(p_page, z).
       Inr (page_to_virt z p_page, set_zone z k))"

definition kmalloc :: "u64 \<Rightarrow> kmem \<Rightarrow> (u64 \<times> kmem) res" where
  "kmalloc sz k =
     (if sz \<le> push_bit SLAB_MAX_ORDER 1
      then bind_res (alloc_in_slab sz (km k)) (\<lambda>(a, s). Inr (a, k\<lparr>km := s\<rparr>))
      else let ord = (if sz \<le> BUDDY_PAGE_SIZE then 0 else size_to_page_order sz)
           in bind_res (buddy_get_pages ord (kmem_zone k)) (\<lambda>(p_page, z).
                Inr (page_to_virt z p_page, set_zone z k)))"

definition memset_zero :: "u64 \<Rightarrow> u64 \<Rightarrow> kmem \<Rightarrow> kmem" where
  "memset_zero ptr sz k =
     k\<lparr>km_bytes := (\<lambda>a. if a - ptr < sz then 0 else km_bytes k a)\<rparr>"

definition kzalloc :: "u64 \<Rightarrow> kmem \<Rightarrow> (u64 \<times> kmem) res" where
  "kzalloc sz k =
     bind_res (kmalloc sz k) (\<lambda>(ptr, k1).
       if ptr = 0 then Inr (0, k1) else Inr (ptr, memset_zero ptr sz k1))"

definition kfree :: "u64 \<Rightarrow> kmem \<Rightarrow> kmem res" where
  "kfree ptr k =
     bind_res (virt_to_page (kmem_zone k) ptr) (\<lambda>p_page.
       if pg_slab (pages (kmem_zone k) p_page) \<noteq> 0
       then bind_res (free_in_slab ptr (km k)) (\<lambda>s. Inr (k\<lparr>km := s\<rparr>))
       else bind_res (buddy_free_pages p_page (kmem_zone k)) (\<lambda>z. Inr (set_zone z k)))"

definition free_pages :: "u64 \<Rightarrow> kmem \<Rightarrow> kmem res" where
  "free_pages addr k =
     bind_res (virt_to_page (kmem_zone k) addr) (\<lambda>p_page.
       bind_res (buddy_free_pages p_page (kmem_zone k)) (\<lambda>z. Inr (set_zone z k)))"

section \<open>Initialisation\<close>

definition KBASE :: u64 where "KBASE = 0xFFFFFF0000000000"
definition PAGE_SIZE :: u64 where "PAGE_SIZE = 0x1000"
definition NPAGES :: u64 where "NPAGES = 128 * 1024"
definition SIZE_1G :: u64 where "SIZE_1G = push_bit 30 1"

text \<open>\<^verbatim>\<open>sizeof(struct page)\<close>: a list node of two pointers, two 64-bit words and a pointer.\<close>

definition sizeof_page :: u64 where "sizeof_page = 40"

definition phys_to_virt :: "u64 \<Rightarrow> u64" where "phys_to_virt x = x + KBASE"
definition virt_to_phys :: "u64 \<Rightarrow> u64" where "virt_to_phys x = x - KBASE"

definition parse_mem_map :: "u64 \<Rightarrow> (u64 \<times> u64) list res" where
  "parse_mem_map img_end =
     (let free_mem_start = ROUND_UP img_end PAGE_SIZE;
          free_mem_end = free_mem_start + NPAGES * (PAGE_SIZE + sizeof_page)
      in bug_on (SIZE_1G < free_mem_end) (Inr [(free_mem_start, free_mem_end)]))"

definition mm_init :: "u64 \<Rightarrow> (nat \<Rightarrow> page) \<Rightarrow> kmem \<Rightarrow> kmem res" where
  "mm_init img_end mem k =
     bind_res (parse_mem_map img_end) (\<lambda>physmem_map.
       case physmem_map of
         [(lo, hi)] \<Rightarrow>
           (let free_mem_start = phys_to_virt lo;
                free_mem_end = phys_to_virt hi;
                npages = (free_mem_end - free_mem_start) div (PAGE_SIZE + sizeof_page);
                start_vaddr = ROUND_UP (free_mem_start + npages * sizeof_page) PAGE_SIZE
            in bind_res (init_buddy mem start_vaddr (unat npages)) (\<lambda>z.
               bind_res (init_slab ((km k)\<lparr>zone := z\<rparr>)) (\<lambda>s.
                 Inr (k\<lparr>km := s\<rparr>))))
       | _ \<Rightarrow> Inl Bug_On)"

section \<open>Exchanging the zone under the slabs\<close>

lemma zone_change:
  assumes wf: "slab_wf s" and z: "zone_sane z" "zone_geo z = zone_geo (zone s)"
    and keep: "\<And>ord h q. slab_at s ord h \<Longrightarrow> slab_block (zone s) h q \<Longrightarrow> alloc_blk z q 9"
  shows "slab_wf (s\<lparr>zone := z\<rparr>)" "slab_at (s\<lparr>zone := z\<rparr>) = slab_at s"
    "slot_free (s\<lparr>zone := z\<rparr>) = slot_free s" "slot_live (s\<lparr>zone := z\<rparr>) = slot_live s"
proof -
  let ?s = "s\<lparr>zone := z\<rparr>"
  have geo: "page_num z = page_num (zone s)" "start_addr z = start_addr (zone s)"
    "\<And>i. pg_slab (pages z i) = pg_slab (pages (zone s) i)"
    using z(2) by (auto simp: zone_geo_def fun_eq_iff)
  have ch: "slab_chain ?s = slab_chain s" "free_chain ?s = free_chain s"
    by (simp_all add: slab_chain_def free_chain_def fun_eq_iff)
  show at: "slab_at ?s = slab_at s" by (simp add: slab_at_def ch fun_eq_iff)
  show fr: "slot_free ?s = slot_free s" by (simp add: slot_free_def ch at fun_eq_iff)
  show "slot_live ?s = slot_live s" by (simp add: slot_live_def at fr fun_eq_iff)
  have blk: "slab_block z h q" if "slab_at s ord h" "slab_block (zone s) h q" for ord h q
    using keep [OF that] that(2) by (simp add: slab_block_def geo page_to_virt_cong [OF geo(2)])
  have "slab_ok ?s ord h" if "slab_at s ord h" for ord h
    using wf_ok [OF wf that] blk [OF that] by (auto simp: slab_ok_def ch)
  moreover have "\<exists>ord h p. slab_at s ord h \<and> slab_block z h p \<and> i \<in> frames p 9"
    if i: "i < page_num (zone s)" "pg_slab (pages (zone s) i) \<noteq> 0" for i
  proof -
    obtain ord h p where "slab_at s ord h" "slab_block (zone s) h p" "i \<in> frames p 9"
      using wf i unfolding slab_wf_def by blast
    then show ?thesis using blk by blast
  qed
  ultimately show "slab_wf ?s"
    using wf z(1) by (simp add: slab_wf_def at ch geo)
qed

section \<open>Objects\<close>

definition kmem_inv :: "kmem \<Rightarrow> bool" where
  "kmem_inv k \<longleftrightarrow> slab_inv (km k)"

text \<open>An object that \<^verbatim>\<open>kmalloc\<close> has handed out: a live slot, or a block that is no slab.\<close>

definition mem_obj :: "kmem \<Rightarrow> u64 \<Rightarrow> nat \<Rightarrow> bool" where
  "mem_obj k a n \<longleftrightarrow>
     (\<exists>ord. slot_live (km k) ord a \<and> n = 2 ^ ord) \<or>
     (\<exists>p ord. big_blk (kmem_zone k) p ord \<and> a = page_to_virt (kmem_zone k) (Some p) \<and> n = 4096 * 2 ^ ord)"

definition obj_bytes :: "u64 \<Rightarrow> nat \<Rightarrow> nat set" where
  "obj_bytes a n = {unat a ..< unat a + n}"

definition boot_kmem :: kmem where
  "boot_kmem = \<lparr>km = \<lparr>zone = \<lparr>page_num = 0, page_size = 0, start_addr = 0, end_addr = 0,
       free_lists = (\<lambda>_. \<lparr>fl_list = [], nr_free = 0\<rparr>), pages = (\<lambda>_. zero_page)\<rparr>,
     slabs = (\<lambda>_. 0),
     hdr = (\<lambda>_. \<lparr>free_list_head = 0, next_slab = 0, sh_order = 0\<rparr>), next_free = (\<lambda>_. 0)\<rparr>,
     km_bytes = (\<lambda>_. 0)\<rparr>"

lemma kmem_facts:
  assumes "kmem_inv k"
  shows "slab_wf (km k)" "zone_sane (kmem_zone k)" "buddy_inv (kmem_zone k)" "zone_addr_ok (kmem_zone k)"
  using assms wf_sane by (auto simp: kmem_inv_def slab_inv_def kmem_zone_def zone_sane_def buddy_okay_def)

lemma big_blk_addr:
  assumes "zone_sane z" "alloc_blk z p ord"
  shows "unat (page_to_virt z (Some p)) = unat (start_addr z) + p * 4096" "p + 2 ^ ord \<le> page_num z"
    "page_to_virt z (Some p) \<noteq> 0"
proof -
  have al: "aligned_blk z p ord"
    using assms inv_alignedD by (auto simp: zone_sane_def buddy_okay_def blk_def)
  then show "p + 2 ^ ord \<le> page_num z" by (simp add: aligned_blk_def)
  show u: "unat (page_to_virt z (Some p)) = unat (start_addr z) + p * 4096"
    using assms aligned_blk_lt [OF al] by (simp add: zone_sane_def unat_page_to_virt)
  show "page_to_virt z (Some p) \<noteq> 0" using u assms(1) by (auto simp: zone_sane_def unat_eq_zero)
qed

text \<open>A slot lies inside the block of its slab, so it meets no other block.\<close>

lemma slot_big_apart:
  assumes inv: "kmem_inv k" and l: "slab_at (km k) i h" "a \<in> slots h i" and b: "big_blk (kmem_zone k) p ord"
  shows "obj_bytes a (2 ^ i) \<inter> obj_bytes (page_to_virt (kmem_zone k) (Some p)) (4096 * 2 ^ ord) = {}"
proof -
  note f = kmem_facts [OF inv]
  let ?z = "kmem_zone k"
  obtain q where q: "slab_block ?z h q" using wf_block [OF f(1) l(1)] by (auto simp: kmem_zone_def)
  obtain m where m: "unat a = unat h + m * 2 ^ i" "unat a + 2 ^ i \<le> unat h + 2 ^ 21"
    by (rule slots_memD [OF f(2) q at_range [OF l(1)] l(2)])
  have al: "alloc_blk ?z p ord" "pg_slab (pages ?z p) = 0" using b by (simp_all add: big_blk_def)
  have "h \<noteq> 0" by (rule slot_slab(2) [OF f(1) l])
  then have "p \<noteq> q" using q al(2) frames_self by (auto simp: slab_block_def)
  then have "frames q 9 \<inter> frames p ord = {}"
    using inv_disjD [OF f(3), of q 9 p ord] q al(1) by (simp add: slab_block_def blk_def)
  then have "q + 512 \<le> p \<or> p + 2 ^ ord \<le> q"
    using frames_self [of p ord] frames_self [of q 9] by (auto simp: frames_def)
  then have "(q + 512) * 4096 \<le> p * 4096 \<or> (p + 2 ^ ord) * 4096 \<le> q * 4096"
    using mult_le_mono1 by blast
  then show ?thesis
    using m slab_block_unat(1) [OF f(2) q] big_blk_addr(1) [OF f(2) al(1)]
    by (auto simp: obj_bytes_def algebra_simps)
qed

lemma big_big_apart:
  assumes inv: "kmem_inv k" and b: "alloc_blk (kmem_zone k) p i" "alloc_blk (kmem_zone k) q j" "(p, i) \<noteq> (q, j)"
  shows "obj_bytes (page_to_virt (kmem_zone k) (Some p)) (4096 * 2 ^ i)
    \<inter> obj_bytes (page_to_virt (kmem_zone k) (Some q)) (4096 * 2 ^ j) = {}"
proof -
  note f = kmem_facts [OF inv]
  have "frames p i \<inter> frames q j = {}" using inv_disjD [OF f(3)] b by (simp add: blk_def)
  then have "p + 2 ^ i \<le> q \<or> q + 2 ^ j \<le> p"
    using frames_self [of p i] frames_self [of q j] by (auto simp: frames_def)
  then have "(p + 2 ^ i) * 4096 \<le> q * 4096 \<or> (q + 2 ^ j) * 4096 \<le> p * 4096"
    using mult_le_mono1 by blast
  then show ?thesis
    using big_blk_addr(1) [OF f(2) b(1)] big_blk_addr(1) [OF f(2) b(2)]
    by (auto simp: obj_bytes_def algebra_simps)
qed

text \<open>Objects never overlap.\<close>

lemma objects_apart:
  assumes inv: "kmem_inv k" and o: "mem_obj k a m" "mem_obj k b n" and ne: "(a, m) \<noteq> (b, n)"
  shows "obj_bytes a m \<inter> obj_bytes b n = {}"
proof -
  note f = kmem_facts [OF inv]
  have ss: "obj_bytes a m \<inter> obj_bytes b n = {}"
    if L: "slot_live (km k) i a" "m = 2 ^ i" "slot_live (km k) j b" "n = 2 ^ j" for i j
  proof -
    obtain h g where "slab_at (km k) i h" "a \<in> slots h i" "slab_at (km k) j g" "b \<in> slots g j"
      using L by (auto simp: slot_live_def)
    then have "slot_bytes i a \<inter> slot_bytes j b = {}"
      using ne L by (intro slots_disjoint [OF f(1)]) auto
    then show ?thesis using L by (simp add: slot_bytes_def obj_bytes_def)
  qed
  have sb: "obj_bytes x (2 ^ i) \<inter> obj_bytes (page_to_virt (kmem_zone k) (Some p)) (4096 * 2 ^ ord) = {}"
    if "slot_live (km k) i x" "big_blk (kmem_zone k) p ord" for i x p ord
    using that slot_big_apart [OF inv] unfolding slot_live_def by blast
  have bb: "obj_bytes (page_to_virt (kmem_zone k) (Some p)) (4096 * 2 ^ i)
    \<inter> obj_bytes (page_to_virt (kmem_zone k) (Some q)) (4096 * 2 ^ j) = {}"
    if "big_blk (kmem_zone k) p i" "big_blk (kmem_zone k) q j" "(p, i) \<noteq> (q, j)" for p i q j
    using that big_big_apart [OF inv, of p i q j] by (simp add: big_blk_def)
  from o show ?thesis
    unfolding mem_obj_def
  proof (elim disjE exE conjE)
    fix i j
    assume "slot_live (km k) i a" "m = 2 ^ i" "slot_live (km k) j b" "n = 2 ^ j"
    then show ?thesis by (rule ss)
  next
    fix i p j
    assume "slot_live (km k) i a" "m = 2 ^ i" "big_blk (kmem_zone k) p j"
      "b = page_to_virt (kmem_zone k) (Some p)" "n = 4096 * 2 ^ j"
    then show ?thesis using sb by simp
  next
    fix p i j
    assume "big_blk (kmem_zone k) p i" "a = page_to_virt (kmem_zone k) (Some p)" "m = 4096 * 2 ^ i"
      "slot_live (km k) j b" "n = 2 ^ j"
    then show ?thesis using sb [of j b p i] by (simp add: Int_commute)
  next
    fix p i q j
    assume "big_blk (kmem_zone k) p i" "a = page_to_virt (kmem_zone k) (Some p)" "m = 4096 * 2 ^ i"
      "big_blk (kmem_zone k) q j" "b = page_to_virt (kmem_zone k) (Some q)" "n = 4096 * 2 ^ j"
    then show ?thesis using bb [of p i q j] ne by auto
  qed
qed

section \<open>Allocation\<close>

lemma size_to_page_order_fits:
  assumes "0 < unat sz" "unat sz + 4095 < 2 ^ 64"
  shows "size_to_page_order sz = ceil_log2 ((unat sz + 4095) div 4096)"
    "unat sz \<le> 4096 * 2 ^ size_to_page_order sz"
proof -
  define n where "n = (unat sz + 4095) div 4096"
  have pg: "unat (ROUND_UP sz BUDDY_PAGE_SIZE div BUDDY_PAGE_SIZE) = n"
    using unat_ROUND_UP_4096 [OF assms(2)] by (simp add: BUDDY_PAGE_SIZE_4096 unat_div n_def)
  have n0: "0 < n" using assms(1) by (simp add: n_def div_greater_zero_iff)
  show e: "size_to_page_order sz = ceil_log2 n"
    unfolding size_to_page_order_def pg Let_def by (rule halvings_ceil [OF n0 refl])
  have "n \<le> 2 ^ ceil_log2 n" by (simp add: ceil_log2_le_iff [symmetric])
  moreover have "unat sz \<le> 4096 * n"
    using mult_div_mod_eq [of 4096 "unat sz + 4095"] mod_less_divisor [of 4096 "unat sz + 4095"]
    unfolding n_def by linarith
  ultimately show "unat sz \<le> 4096 * 2 ^ size_to_page_order sz"
    unfolding e using mult_le_mono2 [of n "2 ^ ceil_log2 n" 4096] by linarith
qed

definition page_order :: "u64 \<Rightarrow> nat" where
  "page_order sz = (if sz \<le> BUDDY_PAGE_SIZE then 0 else size_to_page_order sz)"

lemma page_order_fits:
  assumes "0 < unat sz" "unat sz \<le> 2 ^ 25"
  shows "page_order sz < BUDDY_MAX_ORDER" "unat sz \<le> 4096 * 2 ^ page_order sz"
proof -
  have "unat sz + 4095 < 2 ^ 64" using assms(2) by simp
  note f = size_to_page_order_fits [OF assms(1) this]
  have "(unat sz + 4095) div 4096 \<le> (2 ^ 25 + 4095) div 4096"
    using assms(2) by (intro div_le_mono) simp
  then have "ceil_log2 ((unat sz + 4095) div 4096) \<le> 13" by (simp add: ceil_log2_le_iff)
  then show "page_order sz < BUDDY_MAX_ORDER" using f(1) by (simp add: page_order_def BUDDY_MAX_ORDER_def)
  show "unat sz \<le> 4096 * 2 ^ page_order sz"
    using f(2) by (simp add: page_order_def word_le_nat_alt BUDDY_PAGE_SIZE_4096)
qed

text \<open>Allocation and release of a block under the slabs.\<close>

lemma slab_blocks_alloc:
  "slab_block z h q \<Longrightarrow> (q, 9) \<in> az_alloc (abs_zone_of z)"
  by (simp add: slab_block_def abs_zone_of_def)

lemma get_block_correct:
  assumes inv: "kmem_inv k" and o: "ord < BUDDY_MAX_ORDER"
  shows "(buddy_get_pages ord (kmem_zone k) = Inr (None, kmem_zone k) \<and>
      (\<forall>q. 2 ^ ord dvd q \<longrightarrow> \<not> frames q ord \<subseteq> free_frames (kmem_zone k))) \<or>
    (\<exists>p z. buddy_get_pages ord (kmem_zone k) = Inr (Some p, z) \<and> kmem_inv (set_zone z k) \<and>
      page_to_virt z = page_to_virt (kmem_zone k) \<and> page_to_virt z (Some p) \<noteq> 0 \<and>
      slot_live (km (set_zone z k)) = slot_live (km k) \<and>
      (\<forall>q j. big_blk z q j \<longleftrightarrow> big_blk (kmem_zone k) q j \<or> (q, j) = (p, ord)) \<and>
      \<not> big_blk (kmem_zone k) p ord)"
proof -
  note f = kmem_facts [OF inv]
  let ?z = "kmem_zone k"
  have ok: "buddy_okay ?z" using f(2) by (simp add: zone_sane_def)
  from buddy_get_pages_correct [OF f(3) o] show ?thesis
  proof (elim disjE exE conjE)
    assume n: "buddy_get_pages ord ?z = Inr (None, ?z)"
    then show ?thesis using buddy.get_run [OF ok o n] by (auto simp: abs_zone_of_def)
  next
    fix p z
    assume g: "buddy_get_pages ord ?z = Inr (Some p, z)" and i: "buddy_inv z"
      and sp: "spec_get_pages ord p (abs_zone_of ?z) (abs_zone_of z)"
      and c: "coalesced ?z \<longrightarrow> coalesced z" and geo: "zone_geo z = zone_geo ?z"
    have fz: "page_num z = page_num ?z" "start_addr z = start_addr ?z" "end_addr z = end_addr ?z"
      "\<And>i. pg_slab (pages z i) = pg_slab (pages ?z i)"
      using geo by (auto simp: zone_geo_def fun_eq_iff)
    have s: "zone_sane z" using f(2) i c fz by (simp add: zone_sane_def buddy_okay_def zone_addr_ok_def)
    have al: "alloc_blk z q j \<longleftrightarrow> alloc_blk ?z q j \<or> (q, j) = (p, ord)" for q j
    proof -
      have "(q, j) \<in> az_alloc (abs_zone_of z) \<longleftrightarrow> (q, j) \<in> insert (p, ord) (az_alloc (abs_zone_of ?z))"
        using sp by (simp add: spec_get_pages_def)
      then show ?thesis by (auto simp: abs_zone_of_def)
    qed
    have ch: "slab_wf ((km k)\<lparr>zone := z\<rparr>)" "slot_live ((km k)\<lparr>zone := z\<rparr>) = slot_live (km k)"
      using zone_change [OF f(1) s] geo al by (auto simp: kmem_zone_def slab_block_def)
    have sub: "frames p ord \<subseteq> free_frames ?z" using sp by (simp add: spec_get_pages_def abs_zone_of_def)
    have new: "pg_slab (pages ?z p) = 0"
    proof (rule ccontr)
      assume "pg_slab (pages ?z p) \<noteq> 0"
      moreover have "p < page_num ?z"
        using big_blk_addr(2) [OF s, of p ord] al fz(1) less_le_trans [of p "p + 2 ^ ord"] by simp
      ultimately obtain j h q where "slab_block ?z h q" "p \<in> frames q 9"
        using f(1) unfolding slab_wf_def kmem_zone_def by blast
      then show False
        using alloc_free_apart [OF f(3), of q 9] sub frames_self [of p ord] unfolding slab_block_def by blast
    qed
    have na: "\<not> alloc_blk ?z p ord" using alloc_free_apart [OF f(3), of p ord] sub frames_self [of p ord] by blast
    have "kmem_inv (set_zone z k)" using ch(1) inv by (simp add: kmem_inv_def set_zone_def slab_inv_def)
    moreover have "page_to_virt z = page_to_virt ?z" by (rule page_to_virt_cong [OF fz(2)])
    moreover have "page_to_virt z (Some p) \<noteq> 0" using big_blk_addr(3) [OF s] al by blast
    moreover have "big_blk z q j \<longleftrightarrow> big_blk ?z q j \<or> (q, j) = (p, ord)" for q j
      using al new fz(4) by (auto simp: big_blk_def)
    ultimately show ?thesis
      using g ch(2) na by (intro disjI2) (auto simp: set_zone_def big_blk_def)
  qed
qed

lemma mem_obj_set_zone:
  assumes "slot_live (km (set_zone z k)) = slot_live (km k)" "page_to_virt z = page_to_virt (kmem_zone k)"
  shows "mem_obj (set_zone z k) b n \<longleftrightarrow>
    (\<exists>ord. slot_live (km k) ord b \<and> n = 2 ^ ord) \<or>
    (\<exists>p ord. big_blk z p ord \<and> b = page_to_virt (kmem_zone k) (Some p) \<and> n = 4096 * 2 ^ ord)"
  using assms by (simp add: mem_obj_def kmem_zone_def set_zone_def)

text \<open>What \<^verbatim>\<open>kmalloc\<close> promises about a non-null result.\<close>

definition kmalloc_post :: "kmem \<Rightarrow> u64 \<Rightarrow> nat \<Rightarrow> kmem \<Rightarrow> bool" where
  "kmalloc_post k a n k' \<longleftrightarrow> a \<noteq> 0 \<and> kmem_inv k' \<and> mem_obj k' a n \<and>
     (\<forall>b m. mem_obj k' b m \<longleftrightarrow> mem_obj k b m \<or> (b, m) = (a, n)) \<and>
     (\<forall>b m. mem_obj k b m \<longrightarrow> obj_bytes a n \<inter> obj_bytes b m = {})"

lemma obj_bytes_nonempty: "mem_obj k a n \<Longrightarrow> unat a \<in> obj_bytes a n"
  by (auto simp: mem_obj_def obj_bytes_def)

lemma kmalloc_postI:
  assumes "a \<noteq> 0" "kmem_inv k'" "\<not> mem_obj k a n"
    and "\<And>b m. mem_obj k' b m \<longleftrightarrow> mem_obj k b m \<or> (b, m) = (a, n)"
  shows "kmalloc_post k a n k'"
proof -
  have "obj_bytes a n \<inter> obj_bytes b m = {}" if "mem_obj k b m" for b m
    using that assms(3) by (intro objects_apart [OF assms(2)]) (auto simp: assms(4))
  then show ?thesis using assms by (simp add: kmalloc_post_def)
qed

lemma kmalloc_slab:
  assumes inv: "kmem_inv k" and sz: "unat sz \<le> 2048"
  shows "(kmalloc sz k = Inl Bug_On \<and> (\<forall>q. 512 dvd q \<longrightarrow> \<not> frames q 9 \<subseteq> free_frames (kmem_zone k))) \<or>
    (\<exists>a n k'. kmalloc sz k = Inr (a, k') \<and> unat sz \<le> n \<and> kmalloc_post k a n k')"
proof -
  have le: "sz \<le> push_bit SLAB_MAX_ORDER 1"
    using sz unat_order_to_size [of 11] by (simp add: word_le_nat_alt SLAB_MAX_ORDER_def order_to_size_def)
  let ?o = "slab_order sz"
  from alloc_in_slab_cases [OF inv [unfolded kmem_inv_def] sz] show ?thesis
  proof (elim disjE exE conjE)
    assume "alloc_in_slab sz (km k) = Inl Bug_On"
      "\<forall>q. 512 dvd q \<longrightarrow> \<not> frames q 9 \<subseteq> free_frames (zone (km k))"
    then show ?thesis using le by (simp add: kmalloc_def kmem_zone_def)
  next
    fix a s
    assume al: "alloc_in_slab sz (km k) = Inr (a, s)" and post: "slab_alloc_post ?o (km k) a s"
    let ?k = "k\<lparr>km := s\<rparr>"
    have inv': "kmem_inv ?k" using post by (simp add: kmem_inv_def slab_alloc_post_def)
    have live: "slot_live s j b \<longleftrightarrow> slot_live (km k) j b \<or> (j, b) = (?o, a)" "\<not> slot_live (km k) ?o a" for j b
      using post by (auto simp: slab_alloc_post_def)
    have big: "big_blk (kmem_zone ?k) = big_blk (kmem_zone k)"
      "page_to_virt (kmem_zone ?k) = page_to_virt (kmem_zone k)"
      using post page_to_virt_cong [of "zone s" "zone (km k)"] by (simp_all add: slab_alloc_post_def kmem_zone_def)
    obtain h where h: "slab_at s ?o h" "a \<in> slots h ?o" using live(1) [of ?o a] by (auto simp: slot_live_def)
    have a0: "a \<noteq> 0" using slot_slab(3) [OF _ h] post by (simp add: slab_alloc_post_def slab_inv_def)
    have "\<not> mem_obj k a (2 ^ ?o)"
    proof
      assume "mem_obj k a (2 ^ ?o)"
      then consider j where "slot_live (km k) j a" "(2::nat) ^ ?o = 2 ^ j"
        | p j where "big_blk (kmem_zone ?k) p j" "a = page_to_virt (kmem_zone ?k) (Some p)"
        unfolding mem_obj_def big by blast
      then show False
      proof cases
        case 1
        then show False using live(2) by simp
      next
        case 2
        have "obj_bytes a (2 ^ ?o) \<inter> obj_bytes a (4096 * 2 ^ j) = {}"
          using slot_big_apart [OF inv' _ h(2) 2(1)] h(1) 2(2) by simp
        then show False by (auto simp: obj_bytes_def)
      qed
    qed
    moreover have "mem_obj ?k b m \<longleftrightarrow> mem_obj k b m \<or> (b, m) = (a, 2 ^ ?o)" for b m
      unfolding mem_obj_def big using live(1) by auto
    ultimately have "kmalloc_post k a (2 ^ ?o) ?k" using a0 inv' by (intro kmalloc_postI)
    then show ?thesis
      using al le slab_order_fits(2) [OF sz] by (auto simp: kmalloc_def)
  qed
qed

lemma kmalloc_big:
  assumes inv: "kmem_inv k" and sz: "2048 < unat sz" "unat sz \<le> 2 ^ 25"
  shows "(kmalloc sz k = Inr (0, k) \<and>
      (\<forall>q. 2 ^ page_order sz dvd q \<longrightarrow> \<not> frames q (page_order sz) \<subseteq> free_frames (kmem_zone k))) \<or>
    (\<exists>a n k'. kmalloc sz k = Inr (a, k') \<and> unat sz \<le> n \<and> kmalloc_post k a n k')"
proof -
  let ?o = "page_order sz"
  note fit = page_order_fits [of sz]
  have o: "?o < BUDDY_MAX_ORDER" using fit(1) sz by simp
  have "\<not> sz \<le> push_bit SLAB_MAX_ORDER 1"
    using sz unat_order_to_size [of 11] by (simp add: word_le_nat_alt SLAB_MAX_ORDER_def order_to_size_def)
  then have eq: "kmalloc sz k = bind_res (buddy_get_pages ?o (kmem_zone k)) (\<lambda>(p_page, z).
      Inr (page_to_virt z p_page, set_zone z k))"
    by (simp add: kmalloc_def page_order_def Let_def)
  from get_block_correct [OF inv o] show ?thesis
  proof (elim disjE exE conjE)
    assume "buddy_get_pages ?o (kmem_zone k) = Inr (None, kmem_zone k)"
      "\<forall>q. 2 ^ ?o dvd q \<longrightarrow> \<not> frames q ?o \<subseteq> free_frames (kmem_zone k)"
    moreover have "set_zone (kmem_zone k) k = k" by (simp add: set_zone_def kmem_zone_def)
    ultimately show ?thesis by (simp add: eq page_to_virt_def)
  next
    fix p z
    let ?a = "page_to_virt (kmem_zone k) (Some p)"
    assume g: "buddy_get_pages ?o (kmem_zone k) = Inr (Some p, z)" and inv': "kmem_inv (set_zone z k)"
      and pv: "page_to_virt z = page_to_virt (kmem_zone k)" and ne: "page_to_virt z (Some p) \<noteq> 0"
      and live: "slot_live (km (set_zone z k)) = slot_live (km k)"
      and big: "\<forall>q j. big_blk z q j \<longleftrightarrow> big_blk (kmem_zone k) q j \<or> (q, j) = (p, ?o)"
      and new: "\<not> big_blk (kmem_zone k) p ?o"
    have zz: "kmem_zone (set_zone z k) = z" by (simp add: kmem_zone_def set_zone_def)
    have "\<not> mem_obj k ?a (4096 * 2 ^ ?o)"
    proof
      assume "mem_obj k ?a (4096 * 2 ^ ?o)"
      then consider j where "slot_live (km k) j ?a" "4096 * 2 ^ ?o = (2::nat) ^ j"
        | q j where "big_blk (kmem_zone k) q j" "?a = page_to_virt (kmem_zone k) (Some q)" "(2::nat) ^ ?o = 2 ^ j"
        unfolding mem_obj_def by auto
      then show False
      proof cases
        case 1
        then obtain h where h: "slab_at (km (set_zone z k)) j h" "?a \<in> slots h j"
          using live by (auto simp: slot_live_def fun_eq_iff)
        have "big_blk (kmem_zone (set_zone z k)) p ?o" using big zz by simp
        from slot_big_apart [OF inv' h this] show False by (auto simp: zz pv obj_bytes_def)
      next
        case 2
        have "big_blk z q j" "big_blk z p ?o" using big 2 by auto
        then have "alloc_blk (kmem_zone (set_zone z k)) q j" "alloc_blk (kmem_zone (set_zone z k)) p ?o"
          by (simp_all add: zz big_blk_def)
        from big_big_apart [OF inv' this] 2(2) have "(q, j) = (p, ?o)"
          by (auto simp: zz pv obj_bytes_def)
        then show False using new 2 by simp
      qed
    qed
    moreover have "mem_obj (set_zone z k) b m \<longleftrightarrow> mem_obj k b m \<or> (b, m) = (?a, 4096 * 2 ^ ?o)" for b m
      using mem_obj_set_zone [OF live pv, of b m] big by (auto simp: mem_obj_def [of k])
    ultimately have "kmalloc_post k ?a (4096 * 2 ^ ?o) (set_zone z k)"
      using ne inv' pv by (intro kmalloc_postI) simp_all
    then show ?thesis using g fit(2) sz by (intro disjI2) (auto simp: eq pv)
  qed
qed

section \<open>Release\<close>

lemma block_page:
  assumes "zone_sane z" "alloc_blk z p ord"
  shows "virt_to_page z (page_to_virt z (Some p)) = Inr p"
proof -
  have z: "zone_addr_ok z" using assms(1) by (simp add: zone_sane_def)
  have "p < page_num z"
    using big_blk_addr(2) [OF assms] less_le_trans [of p "p + 2 ^ ord"] by simp
  then show ?thesis using virt_to_page_block [OF z, of p 0] by simp
qed

lemma free_block_correct:
  assumes inv: "kmem_inv k" and b: "big_blk (kmem_zone k) p ord"
  shows "\<exists>z. buddy_free_pages p (kmem_zone k) = Inr z \<and> kmem_inv (set_zone z k) \<and>
    page_to_virt z = page_to_virt (kmem_zone k) \<and>
    slot_live (km (set_zone z k)) = slot_live (km k) \<and>
    (\<forall>q j. big_blk z q j \<longleftrightarrow> big_blk (kmem_zone k) q j \<and> (q, j) \<noteq> (p, ord))"
proof -
  note f = kmem_facts [OF inv]
  let ?z = "kmem_zone k"
  have al: "alloc_blk ?z p ord" using b by (simp add: big_blk_def)
  obtain z where g: "buddy_free_pages p ?z = Inr z" and i: "buddy_inv z"
    and sp: "abs_zone_of z = spec_free_pages p ord (abs_zone_of ?z)"
    and c: "coalesced ?z \<longrightarrow> coalesced z" and geo: "zone_geo z = zone_geo ?z"
    using buddy_free_pages_correct [OF f(3) al] by blast
  have fz: "page_num z = page_num ?z" "start_addr z = start_addr ?z" "end_addr z = end_addr ?z"
    "\<And>i. pg_slab (pages z i) = pg_slab (pages ?z i)"
    using geo by (auto simp: zone_geo_def fun_eq_iff)
  have s: "zone_sane z" using f(2) i c fz by (simp add: zone_sane_def buddy_okay_def zone_addr_ok_def)
  have al': "alloc_blk z q j \<longleftrightarrow> alloc_blk ?z q j \<and> (q, j) \<noteq> (p, ord)" for q j
  proof -
    have "(q, j) \<in> az_alloc (abs_zone_of z) \<longleftrightarrow> (q, j) \<in> az_alloc (abs_zone_of ?z) - {(p, ord)}"
      unfolding sp by (simp add: spec_free_pages_def)
    then show ?thesis by (auto simp: abs_zone_of_def)
  qed
  have keep: "alloc_blk z q 9" if "slab_at (km k) j h" "slab_block (zone (km k)) h q" for j h q
  proof -
    have "h \<noteq> 0" using slab_block_unat(1) [OF f(2), of h q] that(2) f(2)
      by (auto simp: zone_sane_def unat_eq_zero kmem_zone_def)
    then have "q \<noteq> p" using that(2) b frames_self by (auto simp: slab_block_def big_blk_def kmem_zone_def)
    then show ?thesis using that(2) by (auto simp: al' slab_block_def kmem_zone_def)
  qed
  note ch = zone_change [OF f(1) s geo [unfolded kmem_zone_def] keep]
  have "kmem_inv (set_zone z k)" using ch(1) inv by (simp add: kmem_inv_def set_zone_def slab_inv_def)
  moreover have "page_to_virt z = page_to_virt ?z" by (rule page_to_virt_cong [OF fz(2)])
  moreover have "slot_live (km (set_zone z k)) = slot_live (km k)" using ch(4) by (simp add: set_zone_def)
  ultimately show ?thesis using g al' fz(4) by (auto simp: big_blk_def)
qed

lemma kfree_correct:
  assumes inv: "kmem_inv k" and o: "mem_obj k a n"
  shows "\<exists>k'. kfree a k = Inr k' \<and> kmem_inv k' \<and>
    (\<forall>b m. mem_obj k' b m \<longleftrightarrow> mem_obj k b m \<and> (b, m) \<noteq> (a, n))"
  using o unfolding mem_obj_def [of k a n]
proof (elim disjE exE conjE)
  fix ord
  assume l: "slot_live (km k) ord a" and n: "n = 2 ^ ord"
  have wf: "slab_wf (km k)" by (rule kmem_facts [OF inv])
  obtain h where h: "slab_at (km k) ord h" "a \<in> slots h ord" using l by (auto simp: slot_live_def)
  obtain i where i: "virt_to_page (kmem_zone k) a = Inr i" "pg_slab (pages (kmem_zone k) i) \<noteq> 0"
    using slot_slab(1,2) [OF wf h] by (auto simp: kmem_zone_def)
  obtain s where s: "free_in_slab_checked DETECTING_DOUBLE_FREE_IN_SLAB a (km k) = Inr s" "slab_inv s"
    "zone s = zone (km k)" "\<forall>j b. slot_live s j b \<longleftrightarrow> slot_live (km k) j b \<and> (j, b) \<noteq> (ord, a)"
    using free_in_slab_correct [OF inv [unfolded kmem_inv_def] l] by blast
  have "kfree a k = Inr (k\<lparr>km := s\<rparr>)" using i s(1) by (simp add: kfree_def free_in_slab_def)
  moreover have "mem_obj (k\<lparr>km := s\<rparr>) b m \<longleftrightarrow> mem_obj k b m \<and> (b, m) \<noteq> (a, n)" for b m
  proof -
    have zz: "kmem_zone (k\<lparr>km := s\<rparr>) = kmem_zone k" using s(3) by (simp add: kmem_zone_def)
    have nb: "a \<noteq> page_to_virt (kmem_zone k) (Some p)" if "big_blk (kmem_zone k) p j" for p j
      using slot_big_apart [OF inv h that] by (auto simp: obj_bytes_def)
    show ?thesis
    proof (cases "b = a")
      case True
      then show ?thesis using s(4) n nb by (auto simp: mem_obj_def zz)
    next
      case False
      then show ?thesis using s(4) by (simp add: mem_obj_def zz)
    qed
  qed
  ultimately show ?thesis using s(2) by (auto simp: kmem_inv_def)
next
  fix p ord
  assume b: "big_blk (kmem_zone k) p ord" and a: "a = page_to_virt (kmem_zone k) (Some p)" and n: "n = 4096 * 2 ^ ord"
  note f = kmem_facts [OF inv]
  have v: "virt_to_page (kmem_zone k) a = Inr p"
    using block_page [OF f(2), of p ord] b a by (simp add: big_blk_def)
  obtain z where z: "buddy_free_pages p (kmem_zone k) = Inr z" "kmem_inv (set_zone z k)"
    "page_to_virt z = page_to_virt (kmem_zone k)" "slot_live (km (set_zone z k)) = slot_live (km k)"
    "\<forall>q j. big_blk z q j \<longleftrightarrow> big_blk (kmem_zone k) q j \<and> (q, j) \<noteq> (p, ord)"
    using free_block_correct [OF inv b] by blast
  have "kfree a k = Inr (set_zone z k)" using v z(1) b by (simp add: kfree_def big_blk_def)
  moreover have "mem_obj (set_zone z k) b' m \<longleftrightarrow> mem_obj k b' m \<and> (b', m) \<noteq> (a, n)" for b' m
  proof -
    have nl: "\<not> slot_live (km k) j a" for j
    proof
      assume "slot_live (km k) j a"
      then obtain h where "slab_at (km k) j h" "a \<in> slots h j" by (auto simp: slot_live_def)
      from slot_big_apart [OF inv this b] a show False by (auto simp: obj_bytes_def)
    qed
    have inj: "q = p \<and> j = ord"
      if "big_blk (kmem_zone k) q j" "page_to_virt (kmem_zone k) (Some q) = a" for q j
    proof (rule ccontr)
      assume "\<not> (q = p \<and> j = ord)"
      then have "obj_bytes a (4096 * 2 ^ j) \<inter> obj_bytes a (4096 * 2 ^ ord) = {}"
        using big_big_apart [OF inv, of q j p ord] that b a by (simp add: big_blk_def)
      then show False by (auto simp: obj_bytes_def)
    qed
    have eq: "mem_obj (set_zone z k) b' m \<longleftrightarrow> (\<exists>j. slot_live (km k) j b' \<and> m = 2 ^ j) \<or>
      (\<exists>q j. (big_blk (kmem_zone k) q j \<and> (q, j) \<noteq> (p, ord)) \<and>
         b' = page_to_virt (kmem_zone k) (Some q) \<and> m = 4096 * 2 ^ j)"
      using mem_obj_set_zone [OF z(4,3), of b' m] z(5) by simp
    show ?thesis
    proof (cases "b' = a")
      case True
      have "\<not> mem_obj (set_zone z k) a m" using eq nl inj unfolding True by blast
      moreover have "mem_obj k a m \<Longrightarrow> m = n" unfolding mem_obj_def using nl inj n by blast
      ultimately show ?thesis using True by blast
    next
      case False
      then have "(q, j) \<noteq> (p, ord)" if "b' = page_to_virt (kmem_zone k) (Some q)" for q j
        using that a by auto
      then show ?thesis unfolding eq mem_obj_def [of k] using False by blast
    qed
  qed
  ultimately show ?thesis using z(2) by auto
qed

section \<open>Boot\<close>

lemma unat_of_nat_lt: "n < 2 ^ 64 \<Longrightarrow> unat (of_nat n :: u64) = n"
  by (simp add: unat_of_nat take_bit_nat_eq_self)

lemma ROUND_UP_aligned:
  assumes "4096 dvd unat x" "unat x + 4095 < 2 ^ 64"
  shows "ROUND_UP x 4096 = x"
proof -
  obtain m where m: "unat x = 4096 * m" using assms(1) by (rule dvdE)
  have "(4096 * m + 4095) div 4096 = m" by simp
  then have "unat (ROUND_UP x 4096) = unat x" using unat_ROUND_UP_4096 [OF assms(2)] m by simp
  then show ?thesis by (simp only: word_unat_eq_iff)
qed

lemma boot_layout:
  assumes "unat img_end \<le> 531628032"
  defines "lo \<equiv> ROUND_UP img_end PAGE_SIZE"
  shows "parse_mem_map img_end = Inr [(lo, lo + 542113792)]"
    and "(phys_to_virt (lo + 542113792) - phys_to_virt lo) div (PAGE_SIZE + sizeof_page) = 131072"
    and "ROUND_UP (phys_to_virt lo + 131072 * sizeof_page) PAGE_SIZE = phys_to_virt lo + 5242880"
    and "unat (phys_to_virt lo + 5242880) = unat KBASE + unat lo + 5242880"
    and "unat lo \<le> 531628032"
proof -
  have lo: "unat lo = (unat img_end + 4095) div 4096 * 4096"
    using unat_ROUND_UP_4096 [of img_end] assms by (simp add: PAGE_SIZE_def)
  have "(unat img_end + 4095) div 4096 \<le> (531628032 + 4095) div 4096"
    using assms by (intro div_le_mono) simp
  then show le: "unat lo \<le> 531628032" using lo by simp
  have "unat (lo + 542113792) = unat lo + 542113792" using unat_add_lt [of lo 542113792] le by simp
  then show "parse_mem_map img_end = Inr [(lo, lo + 542113792)]"
    using le unfolding parse_mem_map_def lo_def [symmetric]
    by (simp add: NPAGES_def sizeof_page_def SIZE_1G_def Let_def word_less_nat_alt bug_on_def)
      (simp add: PAGE_SIZE_def)
  show "(phys_to_virt (lo + 542113792) - phys_to_virt lo) div (PAGE_SIZE + sizeof_page) = 131072"
    by (simp add: phys_to_virt_def PAGE_SIZE_def sizeof_page_def)
  have "unat (lo + 5242880) = unat lo + 5242880" using unat_add_lt [of lo 5242880] le by simp
  then have "unat ((lo + 5242880) + KBASE) = unat lo + 5242880 + unat KBASE"
    using unat_add_lt [of "lo + 5242880" KBASE] le by (simp add: KBASE_def)
  then show u: "unat (phys_to_virt lo + 5242880) = unat KBASE + unat lo + 5242880"
    by (simp add: phys_to_virt_def algebra_simps)
  have "4096 dvd unat lo" using lo by simp
  then have "4096 dvd unat (phys_to_virt lo + 5242880)"
    unfolding u by (intro dvd_add) (simp_all add: KBASE_def)
  then show "ROUND_UP (phys_to_virt lo + 131072 * sizeof_page) PAGE_SIZE = phys_to_virt lo + 5242880"
    using u le ROUND_UP_aligned [of "phys_to_virt lo + 5242880"] by (simp add: sizeof_page_def PAGE_SIZE_def KBASE_def)
qed

lemma mm_init_correct:
  assumes "unat img_end \<le> 531628032" "\<forall>ord. slabs (km k) ord = 0"
  shows "\<exists>k'. mm_init img_end mem k = Inr k' \<and> kmem_inv k' \<and> (\<forall>a n. \<not> mem_obj k' a n) \<and>
    page_num (kmem_zone k') = 131072 \<and>
    start_addr (kmem_zone k') = phys_to_virt (ROUND_UP img_end PAGE_SIZE) + 131072 * sizeof_page \<and>
    end_addr (kmem_zone k') = phys_to_virt (ROUND_UP img_end PAGE_SIZE + NPAGES * (PAGE_SIZE + sizeof_page))"
proof -
  note b = boot_layout [OF assms(1)]
  let ?lo = "ROUND_UP img_end PAGE_SIZE"
  let ?va = "phys_to_virt ?lo + 5242880"
  obtain z where z: "init_buddy mem ?va 131072 = Inr z" "init_upto 131072 z" "page_num z = 131072"
    "start_addr z = ?va" "end_addr z = ?va + of_nat 131072 * BUDDY_PAGE_SIZE"
    "\<forall>i < 131072. pg_slab (pages z i) = 0"
    using init_buddy_correct [of 131072 mem ?va] by auto
  have e: "unat (?va + 536870912) = unat ?va + 536870912"
    using unat_add_lt [of ?va 536870912] b(4,5) by (simp add: KBASE_def)
  have sane: "zone_sane z"
    using z e b(4,5) unfolding zone_sane_def init_upto_def buddy_okay_def zone_addr_ok_def
    by (auto simp: BUDDY_PAGE_SIZE_4096 KBASE_def unat_eq_zero)
  obtain s where s: "init_slab ((km k)\<lparr>zone := z\<rparr>) = Inr s" "slab_inv s" "\<forall>j a. \<not> slot_live s j a"
    "zone_extent (zone s) = zone_extent z" "big_blk (zone s) = big_blk z"
    using init_slab_correct [OF sane, of "(km k)\<lparr>zone := z\<rparr>"] z assms(2) by (auto simp: init_upto_def)
  have "mm_init img_end mem k = Inr (k\<lparr>km := s\<rparr>)"
    using b z(1) s(1) by (simp add: mm_init_def Let_def)
  moreover have "\<not> big_blk (zone s) p ord" for p ord
    using z(2) s(5) by (simp add: init_upto_def big_blk_def)
  ultimately show ?thesis
    using s z by (simp add: kmem_inv_def kmem_zone_def mem_obj_def zone_extent_def)
      (simp add: phys_to_virt_def sizeof_page_def NPAGES_def PAGE_SIZE_def BUDDY_PAGE_SIZE_4096)
qed

section \<open>Contents\<close>

lemma obj_in_zone:
  assumes inv: "kmem_inv k" and o: "mem_obj k a n"
  shows "unat a + n < 2 ^ 64"
proof -
  note f = kmem_facts [OF inv]
  have e: "unat (end_addr (kmem_zone k)) < 2 ^ 64" "unat (end_addr (kmem_zone k)) =
      unat (start_addr (kmem_zone k)) + page_num (kmem_zone k) * 4096"
    using f(4) by (simp_all add: zone_addr_ok_def)
  from o show ?thesis
    unfolding mem_obj_def
  proof (elim disjE exE conjE)
    fix ord
    assume l: "slot_live (km k) ord a" and n: "n = 2 ^ ord"
    obtain h where h: "slab_at (km k) ord h" "a \<in> slots h ord" using l by (auto simp: slot_live_def)
    obtain q where q: "slab_block (kmem_zone k) h q" using wf_block [OF f(1) h(1)] by (auto simp: kmem_zone_def)
    have "unat a + 2 ^ ord \<le> unat h + 2 ^ 21"
      by (rule slots_memD [OF f(2) q at_range [OF h(1)] h(2)])
    then show ?thesis using slab_block_unat(3) [OF f(2) q] e(1) n by linarith
  next
    fix p ord
    assume b: "big_blk (kmem_zone k) p ord" "a = page_to_virt (kmem_zone k) (Some p)" "n = 4096 * 2 ^ ord"
    have al: "alloc_blk (kmem_zone k) p ord" using b(1) by (simp add: big_blk_def)
    have "(p + 2 ^ ord) * 4096 \<le> page_num (kmem_zone k) * 4096"
      using big_blk_addr(2) [OF f(2) al] by (rule mult_le_mono1)
    then show ?thesis using big_blk_addr(1) [OF f(2) al] b e by simp
  qed
qed

lemma kmalloc_bytes: "kmalloc sz k = Inr (a, k') \<Longrightarrow> km_bytes k' = km_bytes k"
  by (auto simp: kmalloc_def Let_def set_zone_def bind_res_eq_Inr split: if_splits prod.splits)

lemma outside_memset:
  assumes "unat a + n < 2 ^ 64" "unat sz \<le> n" "unat x \<notin> obj_bytes a n"
  shows "\<not> x - a < sz"
proof (cases "a \<le> x")
  case True
  then have "unat (x - a) = unat x - unat a" "unat a \<le> unat x" by (simp_all add: unat_sub word_le_nat_alt)
  then show ?thesis using assms by (auto simp: word_less_nat_alt obj_bytes_def)
next
  case False
  then have "unat (x - a) = unat x + 2 ^ 64 - unat a"
    by (subst unat_sub_if') (simp add: word_le_nat_alt)
  then show ?thesis using assms(1,2) by (simp add: word_less_nat_alt)
qed

section \<open>Properties\<close>

text \<open>States on which the properties are applied.\<close>

lemma demo_kmem:
  obtains k a where "kmem_inv k" "mem_obj k a 32"
proof -
  obtain s a where s: "slab_inv s" "slot_live s 5 a" by (rule demo_live)
  then show thesis
    by (intro that [of "\<lparr>km = s, km_bytes = (\<lambda>_. 0)\<rparr>" a])
      (auto simp: kmem_inv_def mem_obj_def intro!: exI [of _ 5])
qed

lemma demo_kmalloc:
  obtains k a k1 where "kmem_inv k" "kmalloc 32 k = Inr (a, k1)" "a \<noteq> 0"
proof -
  obtain s a where s: "slab_inv s" "slot_live s 5 a" by (rule demo_live)
  obtain s' where s': "slab_inv s'" "slot_free s' 5 a" using free_in_slab_correct [OF s, of False] by blast
  let ?k = "\<lparr>km = s', km_bytes = (\<lambda>_. 0)\<rparr>"
  have inv: "kmem_inv ?k" using s' by (simp add: kmem_inv_def)
  have "ceil_log2 32 = 5" by (rule ceil_log2_eqI) simp_all
  then have "slab_order 32 = 5" using slab_order_fits(3) [of 32] by (simp add: SLAB_MIN_ORDER_def)
  then obtain b t where al: "alloc_in_slab 32 s' = Inr (b, t)"
    using alloc_in_slab_cases [OF s'(1), of 32] s'(2) by auto
  have "kmalloc 32 ?k = Inr (b, ?k\<lparr>km := t\<rparr>)"
    using al unat_order_to_size [of 11]
    by (simp add: kmalloc_def word_le_nat_alt SLAB_MAX_ORDER_def order_to_size_def)
  moreover have "b \<noteq> 0"
    using kmalloc_slab [OF inv, of 32] calculation by (auto simp: kmalloc_post_def)
  ultimately show thesis using inv that by blast
qed

text \<open>
  C10: For an image that ends low enough, \<^verbatim>\<open>mm_init\<close> returns, whatever the memory held before:
  the page zone starts right behind its metadata, ends with the memory map, and the
  allocators are well formed with nothing handed out.
\<close>

theorem mm_init_sound:
  assumes "unat img_end \<le> 531628032" "\<forall>ord. slabs (km k) ord = 0"
  shows "\<exists>k'. mm_init img_end mem k = Inr k' \<and> kmem_inv k' \<and> (\<forall>a n. \<not> mem_obj k' a n) \<and>
    page_num (kmem_zone k') = 131072 \<and>
    start_addr (kmem_zone k') = phys_to_virt (ROUND_UP img_end PAGE_SIZE) + 131072 * sizeof_page \<and>
    end_addr (kmem_zone k') = phys_to_virt (ROUND_UP img_end PAGE_SIZE + NPAGES * (PAGE_SIZE + sizeof_page))"
  by (rule mm_init_correct [OF assms])

theorem mm_init_sound_witness:
  "\<exists>k'. mm_init 0x100000 (\<lambda>_. zero_page) boot_kmem = Inr k' \<and> kmem_inv k' \<and>
    (\<forall>a n. \<not> mem_obj k' a n) \<and> page_num (kmem_zone k') = 131072"
proof -
  have "unat (0x100000 :: u64) \<le> 531628032" "\<forall>ord. slabs (km boot_kmem) ord = 0"
    by (simp_all add: boot_kmem_def)
  from mm_init_sound [OF this] show ?thesis by blast
qed

text \<open>
  C5: \<^verbatim>\<open>kmalloc\<close> of up to 32 MB returns memory for at least the requested size that shares no byte
  with any object in use, and only that object becomes one in use. A request for more
  than 2048 bytes yields a null pointer when no aligned run of free frames is large
  enough; a small one ends in \<^verbatim>\<open>BUG_ON\<close> when the slabs need memory and there is none.
\<close>

theorem kmalloc_sound:
  assumes "kmem_inv k" "unat sz \<le> 2 ^ 25"
  shows "(\<exists>a n k'. kmalloc sz k = Inr (a, k') \<and> unat sz \<le> n \<and> a \<noteq> 0 \<and> kmem_inv k' \<and>
       (\<forall>b m. mem_obj k' b m \<longleftrightarrow> mem_obj k b m \<or> (b, m) = (a, n)) \<and>
       (\<forall>b m. mem_obj k b m \<longrightarrow> obj_bytes a n \<inter> obj_bytes b m = {})) \<or>
    (2048 < unat sz \<and> kmalloc sz k = Inr (0, k) \<and>
       (\<forall>q. 2 ^ page_order sz dvd q \<longrightarrow> \<not> frames q (page_order sz) \<subseteq> free_frames (kmem_zone k))) \<or>
    (unat sz \<le> 2048 \<and> kmalloc sz k = Inl Bug_On \<and>
       (\<forall>q. 512 dvd q \<longrightarrow> \<not> frames q 9 \<subseteq> free_frames (kmem_zone k)))"
proof (cases "unat sz \<le> 2048")
  case True
  then show ?thesis using kmalloc_slab [OF assms(1) True] unfolding kmalloc_post_def by blast
next
  case False
  then have "2048 < unat sz" by simp
  then show ?thesis using kmalloc_big [OF assms(1) _ assms(2)] unfolding kmalloc_post_def by blast
qed

theorem kmalloc_sound_witness:
  "\<exists>k. kmem_inv k \<and>
    ((\<exists>a n k'. kmalloc 5000 k = Inr (a, k') \<and> unat (5000 :: u64) \<le> n \<and> a \<noteq> 0 \<and> kmem_inv k' \<and>
       (\<forall>b m. mem_obj k' b m \<longleftrightarrow> mem_obj k b m \<or> (b, m) = (a, n)) \<and>
       (\<forall>b m. mem_obj k b m \<longrightarrow> obj_bytes a n \<inter> obj_bytes b m = {})) \<or>
    (2048 < unat (5000 :: u64) \<and> kmalloc 5000 k = Inr (0, k) \<and>
       (\<forall>q. 2 ^ page_order 5000 dvd q \<longrightarrow> \<not> frames q (page_order 5000) \<subseteq> free_frames (kmem_zone k))) \<or>
    (unat (5000 :: u64) \<le> 2048 \<and> kmalloc 5000 k = Inl Bug_On \<and>
       (\<forall>q. 512 dvd q \<longrightarrow> \<not> frames q 9 \<subseteq> free_frames (kmem_zone k))))"
proof -
  obtain k a where k: "kmem_inv k" "mem_obj k a 32" by (rule demo_kmem)
  show ?thesis
    by (rule exI [of _ k], rule conjI, rule k(1), rule kmalloc_sound [OF k(1)]) simp
qed

text \<open>
  C6: \<^verbatim>\<open>kfree\<close> of an object in use finds the allocator it came from, returns, and takes exactly
  that object out of use.
\<close>

theorem kfree_sound:
  assumes "kmem_inv k" "mem_obj k a n"
  shows "\<exists>k'. kfree a k = Inr k' \<and> kmem_inv k' \<and>
    (\<forall>b m. mem_obj k' b m \<longleftrightarrow> mem_obj k b m \<and> (b, m) \<noteq> (a, n))"
  by (rule kfree_correct [OF assms])

theorem kfree_sound_witness:
  "\<exists>k a k'. mem_obj k a 32 \<and> kfree a k = Inr k' \<and> kmem_inv k' \<and>
    (\<forall>b m. mem_obj k' b m \<longleftrightarrow> mem_obj k b m \<and> (b, m) \<noteq> (a, 32))"
proof -
  obtain k a where k: "kmem_inv k" "mem_obj k a 32" by (rule demo_kmem)
  from kfree_sound [OF k] k(2) show ?thesis by blast
qed

text \<open>
  C11: \<^verbatim>\<open>kzalloc\<close> hands out what \<^verbatim>\<open>kmalloc\<close> does, with every requested byte zero and the bytes of
  every other object unchanged.
\<close>

theorem kzalloc_zeroes:
  assumes "kmem_inv k" "unat sz \<le> 2 ^ 25" "kmalloc sz k = Inr (a, k1)" "a \<noteq> 0"
  shows "\<exists>k'. kzalloc sz k = Inr (a, k') \<and> km k' = km k1 \<and>
    (\<forall>i < unat sz. km_bytes k' (a + of_nat i) = 0) \<and>
    (\<forall>b m i. mem_obj k b m \<longrightarrow> i < m \<longrightarrow> km_bytes k' (b + of_nat i) = km_bytes k (b + of_nat i))"
proof -
  have "\<exists>n. unat sz \<le> n \<and> kmalloc_post k a n k1"
  proof (cases "unat sz \<le> 2048")
    case True
    from kmalloc_slab [OF assms(1) True] show ?thesis
      unfolding assms(3) by (elim disjE conjE exE) (simp_all, blast)
  next
    case False
    then have "2048 < unat sz" by simp
    from kmalloc_big [OF assms(1) this assms(2)] show ?thesis
      unfolding assms(3) using assms(4) by (elim disjE conjE exE) (simp_all, blast)
  qed
  then obtain n where n: "unat sz \<le> n" "kmalloc_post k a n k1" by blast
  have a: "unat a + n < 2 ^ 64" using n(2) obj_in_zone by (auto simp: kmalloc_post_def)
  let ?k = "memset_zero a sz k1"
  have kz: "kzalloc sz k = Inr (a, ?k)" using assms(3,4) by (simp add: kzalloc_def)
  have zero: "km_bytes ?k (a + of_nat i) = 0" if "i < unat sz" for i
  proof -
    have "i < 2 ^ 64" using that n(1) a by linarith
    then have "of_nat i < sz" using that unat_of_nat_lt [of i] by (simp add: word_less_nat_alt)
    then show ?thesis by (simp add: memset_zero_def)
  qed
  have keep: "km_bytes ?k (b + of_nat i) = km_bytes k (b + of_nat i)" if o: "mem_obj k b m" and i: "i < m" for b m i
  proof -
    have b: "unat b + m < 2 ^ 64" using n(2) obj_in_zone o unfolding kmalloc_post_def by blast
    then have "unat (b + of_nat i) = unat b + i"
      using i unat_add_lt [of b "of_nat i"] unat_of_nat_lt [of i] by simp
    moreover have "obj_bytes a n \<inter> obj_bytes b m = {}" using n(2) o by (simp add: kmalloc_post_def)
    moreover have "unat b + i \<in> obj_bytes b m" using i by (simp add: obj_bytes_def)
    ultimately have "unat (b + of_nat i) \<notin> obj_bytes a n" by auto
    from outside_memset [OF a n(1) this] show ?thesis
      using kmalloc_bytes [OF assms(3)] by (simp add: memset_zero_def)
  qed
  have "km ?k = km k1" by (simp add: memset_zero_def)
  then show ?thesis using kz zero keep by blast
qed

theorem kzalloc_zeroes_witness:
  "\<exists>k a k'. kzalloc 32 k = Inr (a, k') \<and> a \<noteq> 0 \<and>
    (\<forall>i < unat (32 :: u64). km_bytes k' (a + of_nat i) = 0)"
proof -
  obtain k a k1 where k: "kmem_inv k" "kmalloc 32 k = Inr (a, k1)" "a \<noteq> 0" by (rule demo_kmalloc)
  have "unat (32 :: u64) \<le> 2 ^ 25" by simp
  from kzalloc_zeroes [OF k(1) this k(2,3)] k(3) show ?thesis by blast
qed

text \<open>
  The rounding of \<^verbatim>\<open>size_to_page_order\<close> wraps around: a request within 4095 bytes of \<open>2 ^ 64\<close>
  is served with a single page.
\<close>

theorem kmalloc_huge_wraps:
  assumes "2 ^ 64 - 4096 < unat sz"
  shows "kmalloc sz k = get_pages 0 k"
proof -
  have big: "4096 < unat sz" using assms by simp
  have sum: "unat (sz + 4095) = unat sz + 4095 - 2 ^ 64"
    using assms unsigned_less [of sz, where ?'a = nat] by (simp add: unat_plus_if')
  have lt: "unat sz < 2 ^ 64" using unsigned_less [of sz, where ?'a = nat] by simp
  have "unat (ROUND_UP sz 4096) = unat (sz + 4095) div 4096 * 4096"
    using unat_ROUND_DOWN [of "sz + 4095" 12] by (simp add: ROUND_UP_DOWN)
  also have "\<dots> = 0" using sum lt by simp
  finally have "ROUND_UP sz 4096 = 0" by (simp add: unat_eq_zero)
  moreover have "halvings 0 0 = 0" by (subst halvings.simps) simp
  ultimately have "size_to_page_order sz = 0"
    by (simp add: size_to_page_order_def BUDDY_PAGE_SIZE_4096)
  moreover have "\<not> sz \<le> push_bit SLAB_MAX_ORDER 1"
    using big unat_order_to_size [of 11] by (simp add: word_le_nat_alt SLAB_MAX_ORDER_def order_to_size_def)
  ultimately show ?thesis by (simp add: kmalloc_def get_pages_def)
qed

theorem kmalloc_huge_wraps_witness: "kmalloc 0xFFFFFFFFFFFFFFFF boot_kmem = get_pages 0 boot_kmem"
  by (rule kmalloc_huge_wraps) simp

end
