(* ===== verification/Threads.thy ===== *)
theory Threads
  imports Prelude
begin

text \<open>
  Threads and the per-CPU state they run on. The records follow \<^verbatim>\<open>struct thread\<close>
  (\<^verbatim>\<open>kernel/include/object/thread.h\<close>), \<^verbatim>\<open>struct thread_ctx\<close>
  (\<^verbatim>\<open>kernel/include/sched/sched.h\<close>), \<^verbatim>\<open>struct sleep_state\<close>
  (\<^verbatim>\<open>kernel/include/irq/timer.h\<close>) and \<^verbatim>\<open>struct per_cpu_info\<close>
  (\<^verbatim>\<open>kernel/include/arch/aarch64/arch/machine/smp.h\<close>). The operations are those of
  \<^verbatim>\<open>kernel/sched/context.c\<close> and \<^verbatim>\<open>kernel/arch/aarch64/sched/\<close>: the
  register file of a thread, the thread-local-storage register and the lazily switched FPU.
  The CPU that executes an operation (\<^verbatim>\<open>smp_get_cpu_id()\<close>) is the argument \<open>cpu\<close>.
\<close>

section \<open>Constants\<close>

definition PLAT_CPU_NUM :: nat where "PLAT_CPU_NUM = 4"
definition DEFAULT_BUDGET :: u32 where "DEFAULT_BUDGET = 1"
definition MAX_PRIO :: u32 where "MAX_PRIO = 255"
definition MIN_PRIO :: u32 where "MIN_PRIO = 0"
definition NO_AFF :: s32 where "NO_AFF = -1"

definition X0 :: nat where "X0 = 0"
definition X1 :: nat where "X1 = 1"
definition SP_EL0 :: nat where "SP_EL0 = 31"
definition ELR_EL1 :: nat where "ELR_EL1 = 32"
definition SPSR_EL1 :: nat where "SPSR_EL1 = 33"
definition REG_NUM :: nat where "REG_NUM = 34"

definition SPSR_EL1_IRQ :: u64 where "SPSR_EL1_IRQ = push_bit 7 1"
definition SPSR_EL1_USER :: u64 where "SPSR_EL1_USER = 0"
definition SPSR_EL1_KERNEL :: u64 where "SPSR_EL1_KERNEL = 5"

lemmas reg_defs = X0_def X1_def SP_EL0_def ELR_EL1_def SPSR_EL1_def REG_NUM_def

section \<open>Data\<close>

datatype tid = Idle nat | Thread nat

datatype thread_state = TS_INIT | TS_READY | TS_INTER | TS_RUNNING | TS_EXIT | TS_WAITING | TS_EXITING

datatype kernel_stack = KS_FREE | KS_LOCKED

datatype thread_type = TYPE_IDLE | TYPE_KERNEL | TYPE_USER | TYPE_SHADOW | TYPE_TESTS

fun above_kernel :: "thread_type \<Rightarrow> bool" where
  "above_kernel TYPE_IDLE = False"
| "above_kernel TYPE_KERNEL = False"
| "above_kernel TYPE_USER = True"
| "above_kernel TYPE_SHADOW = True"
| "above_kernel TYPE_TESTS = True"

record aarch64_fpu_area =
  fpu :: "nat \<Rightarrow> 128 word"
  fpcr :: u32
  fpsr :: u32

record fpu_registers =
  q_regs :: "nat \<Rightarrow> 128 word"
  r_fpcr :: u64
  r_fpsr :: u64

record thread_ctx =
  ec :: "nat \<Rightarrow> u64"
  fpu_state :: "aarch64_fpu_area option"
  tls_base_reg :: u64
  sc :: "nat option"
  th_type :: thread_type
  state :: thread_state
  prio :: u32
  affinity :: s32
  cpuid :: u32
  kernel_stack_state :: kernel_stack

text \<open>\<^verbatim>\<open>prev_thread\<close> is \<^verbatim>\<open>NULL\<close>, the mark \<^verbatim>\<open>THREAD_ITSELF\<close> or a thread.\<close>

datatype prev_thread = No_Prev | THREAD_ITSELF | Prev tid

datatype timer_cb = Sleep_Timer_Cb | Notific_Timer_Cb

record sleep_state =
  wakeup_tick :: u64
  sleep_cpu :: nat
  pending_notific :: "nat option"
  cb :: "timer_cb option"

record thread =
  thread_ctx :: "thread_ctx option"
  prev_thread :: prev_thread
  th_vmspace :: "nat option"
  th_cap_group :: "nat option"
  general_ipc_config :: "nat option"
  sleep_state :: sleep_state

record per_cpu_info =
  fpu_owner :: "tid option"
  fpu_disable :: u32

datatype sched_policy = PBRR | RR

record sched_state =
  threads :: "tid \<rightharpoonup> thread"
  current_threads :: "nat \<Rightarrow> tid option"
  cpu_info :: "nat \<Rightarrow> per_cpu_info"
  fpu_regs :: "nat \<Rightarrow> fpu_registers"
  cpacr_el1 :: "nat \<Rightarrow> u32"
  tpidr_el0 :: "nat \<Rightarrow> u64"
  ttbr0_el1 :: "nat \<Rightarrow> nat option"
  history_cpus :: "nat \<Rightarrow> nat \<Rightarrow> bool"
  sched_conts :: "nat \<rightharpoonup> u32"
  rr_ready_queue :: "nat \<Rightarrow> tid list"
  pbrr_ready_queue :: "nat \<Rightarrow> nat \<Rightarrow> tid list"
  cur_sched_ops :: sched_policy

section \<open>Thread contexts\<close>

text \<open>
  \<open>ctx_of\<close> reads \<^verbatim>\<open>thread->thread_ctx\<close>; \<open>get_ctx\<close> follows the pointer and
  \<open>checked_ctx\<close> does so behind \<^verbatim>\<open>BUG_ON(!thread->thread_ctx)\<close>.
\<close>

definition ctx_of :: "sched_state \<Rightarrow> tid \<Rightarrow> thread_ctx option" where
  "ctx_of s t = (case threads s t of None \<Rightarrow> None | Some th \<Rightarrow> thread_ctx th)"

definition prev_of :: "sched_state \<Rightarrow> tid \<Rightarrow> prev_thread" where
  "prev_of s t = (case threads s t of None \<Rightarrow> No_Prev | Some th \<Rightarrow> prev_thread th)"

definition get_ctx :: "sched_state \<Rightarrow> tid \<Rightarrow> thread_ctx res" where
  "get_ctx s t = (case ctx_of s t of None \<Rightarrow> Inl Bad_Access | Some c \<Rightarrow> Inr c)"

definition checked_ctx :: "sched_state \<Rightarrow> tid \<Rightarrow> thread_ctx res" where
  "checked_ctx s t = bind_res (deref (threads s) t)
    (\<lambda>th. case thread_ctx th of None \<Rightarrow> Inl Bug_On | Some c \<Rightarrow> Inr c)"

definition upd_thread :: "tid \<Rightarrow> (thread \<Rightarrow> thread) \<Rightarrow> sched_state \<Rightarrow> sched_state" where
  "upd_thread t f s = s\<lparr>threads := (threads s)(t := map_option f (threads s t))\<rparr>"

definition upd_ctx :: "tid \<Rightarrow> (thread_ctx \<Rightarrow> thread_ctx) \<Rightarrow> sched_state \<Rightarrow> sched_state" where
  "upd_ctx t f s = upd_thread t (thread_ctx_update (map_option f)) s"

lemma upd_thread_sel [simp]:
  "current_threads (upd_thread t f s) = current_threads s"
  "cpu_info (upd_thread t f s) = cpu_info s"
  "fpu_regs (upd_thread t f s) = fpu_regs s"
  "cpacr_el1 (upd_thread t f s) = cpacr_el1 s"
  "tpidr_el0 (upd_thread t f s) = tpidr_el0 s"
  "ttbr0_el1 (upd_thread t f s) = ttbr0_el1 s"
  "history_cpus (upd_thread t f s) = history_cpus s"
  "sched_conts (upd_thread t f s) = sched_conts s"
  "rr_ready_queue (upd_thread t f s) = rr_ready_queue s"
  "pbrr_ready_queue (upd_thread t f s) = pbrr_ready_queue s"
  "cur_sched_ops (upd_thread t f s) = cur_sched_ops s"
  by (simp_all add: upd_thread_def)

lemma upd_ctx_sel [simp]:
  "current_threads (upd_ctx t f s) = current_threads s"
  "cpu_info (upd_ctx t f s) = cpu_info s"
  "fpu_regs (upd_ctx t f s) = fpu_regs s"
  "cpacr_el1 (upd_ctx t f s) = cpacr_el1 s"
  "tpidr_el0 (upd_ctx t f s) = tpidr_el0 s"
  "ttbr0_el1 (upd_ctx t f s) = ttbr0_el1 s"
  "history_cpus (upd_ctx t f s) = history_cpus s"
  "sched_conts (upd_ctx t f s) = sched_conts s"
  "rr_ready_queue (upd_ctx t f s) = rr_ready_queue s"
  "pbrr_ready_queue (upd_ctx t f s) = pbrr_ready_queue s"
  "cur_sched_ops (upd_ctx t f s) = cur_sched_ops s"
  by (simp_all add: upd_ctx_def)

lemma ctx_of_upd_ctx [simp]:
  "ctx_of (upd_ctx t f s) u = (if u = t then map_option f (ctx_of s u) else ctx_of s u)"
  by (auto simp: ctx_of_def upd_ctx_def upd_thread_def split: option.splits)

lemma prev_of_upd_ctx [simp]: "prev_of (upd_ctx t f s) u = prev_of s u"
  by (auto simp: prev_of_def upd_ctx_def upd_thread_def split: option.splits)

lemma ctx_of_upd_prev [simp]: "ctx_of (upd_thread t (prev_thread_update f) s) u = ctx_of s u"
  by (auto simp: ctx_of_def upd_thread_def split: option.splits)

lemma prev_of_upd_prev [simp]:
  "prev_of (upd_thread t (prev_thread_update f) s) u =
    (if u = t \<and> threads s t \<noteq> None then f (prev_of s u) else prev_of s u)"
  by (auto simp: prev_of_def upd_thread_def split: option.splits)

lemma threads_upd_dom [simp]:
  "threads (upd_thread t f s) u = None \<longleftrightarrow> threads s u = None"
  "threads (upd_ctx t g s) u = None \<longleftrightarrow> threads s u = None"
  by (auto simp: upd_thread_def upd_ctx_def)

lemma ctx_of_queues [simp]:
  "ctx_of (rr_ready_queue_update f s) t = ctx_of s t"
  "ctx_of (pbrr_ready_queue_update g s) t = ctx_of s t"
  "ctx_of (sched_conts_update h s) t = ctx_of s t"
  "ctx_of (current_threads_update k s) t = ctx_of s t"
  "ctx_of (cpu_info_update a s) t = ctx_of s t"
  "ctx_of (cpacr_el1_update b s) t = ctx_of s t"
  "ctx_of (tpidr_el0_update d s) t = ctx_of s t"
  "ctx_of (fpu_regs_update e s) t = ctx_of s t"
  "ctx_of (ttbr0_el1_update l s) t = ctx_of s t"
  "ctx_of (history_cpus_update m s) t = ctx_of s t"
  by (simp_all add: ctx_of_def)

lemma prev_of_queues [simp]:
  "prev_of (rr_ready_queue_update f s) t = prev_of s t"
  "prev_of (pbrr_ready_queue_update g s) t = prev_of s t"
  "prev_of (sched_conts_update h s) t = prev_of s t"
  "prev_of (current_threads_update k s) t = prev_of s t"
  "prev_of (cpu_info_update a s) t = prev_of s t"
  "prev_of (cpacr_el1_update b s) t = prev_of s t"
  "prev_of (tpidr_el0_update d s) t = prev_of s t"
  "prev_of (fpu_regs_update e s) t = prev_of s t"
  "prev_of (ttbr0_el1_update l s) t = prev_of s t"
  "prev_of (history_cpus_update m s) t = prev_of s t"
  by (simp_all add: prev_of_def)

lemma get_ctx_eq_Inr [res_simps]: "get_ctx s t = Inr c \<longleftrightarrow> ctx_of s t = Some c"
  by (simp add: get_ctx_def split: option.splits)

lemma get_ctx_Some [simp]: "ctx_of s t = Some c \<Longrightarrow> get_ctx s t = Inr c"
  by (simp add: get_ctx_def)

lemma checked_ctx_eq_Inr [res_simps]: "checked_ctx s t = Inr c \<longleftrightarrow> ctx_of s t = Some c"
  by (auto simp: checked_ctx_def ctx_of_def deref_def split: option.splits)

lemma checked_ctx_Some [simp]: "ctx_of s t = Some c \<Longrightarrow> checked_ctx s t = Inr c"
  by (simp add: checked_ctx_eq_Inr)

lemma ctx_of_threads: "ctx_of s t = Some c \<Longrightarrow> threads s t \<noteq> None"
  by (auto simp: ctx_of_def split: option.splits)

text \<open>The context a fresh, zeroed kernel stack holds.\<close>

definition zero_ctx :: thread_ctx where
  "zero_ctx = \<lparr>ec = (\<lambda>_. 0), fpu_state = None, tls_base_reg = 0, sc = None, th_type = TYPE_IDLE,
    state = TS_INIT, prio = 0, affinity = 0, cpuid = 0, kernel_stack_state = KS_FREE\<rparr>"

definition zero_fpu :: aarch64_fpu_area where
  "zero_fpu = \<lparr>fpu = (\<lambda>_. 0), fpcr = 0, fpsr = 0\<rparr>"

definition arch_init_thread_fpu :: "thread_ctx \<Rightarrow> thread_ctx" where
  "arch_init_thread_fpu ctx = ctx\<lparr>fpu_state := Some zero_fpu\<rparr>"

text \<open>
  \<open>stack\<close> tells whether \<^verbatim>\<open>kzalloc(DEFAULT_KERNEL_STACK_SZ)\<close> returned memory; the
  FPU area is small enough for a slab, whose allocation never returns \<^verbatim>\<open>NULL\<close>.
\<close>

definition create_thread_ctx :: "bool \<Rightarrow> thread_ctx option" where
  "create_thread_ctx stack = (if \<not> stack then None else Some (arch_init_thread_fpu zero_ctx))"

text \<open>
  \<open>new_sc\<close> is the scheduling context that \<^verbatim>\<open>kmalloc(sizeof(sched_cont_t))\<close> returns.
\<close>

definition init_thread_ctx ::
  "tid \<Rightarrow> u64 \<Rightarrow> u64 \<Rightarrow> u32 \<Rightarrow> thread_type \<Rightarrow> s32 \<Rightarrow> nat \<Rightarrow> sched_state \<Rightarrow> sched_state res" where
  "init_thread_ctx t stack func pr ty aff new_sc s =
    bind_res (get_ctx s t) (\<lambda>_.
      Inr (upd_ctx t (\<lambda>c. c\<lparr>ec := (ec c)(SP_EL0 := stack, ELR_EL1 := func, SPSR_EL1 := SPSR_EL1_USER),
                           prio := pr, state := TS_INIT, th_type := ty, affinity := aff,
                           sc := Some new_sc, kernel_stack_state := KS_FREE\<rparr>)
        (s\<lparr>sched_conts := (sched_conts s)(new_sc \<mapsto> DEFAULT_BUDGET)\<rparr>)))"

definition arch_free_thread_fpu :: "thread_ctx \<Rightarrow> thread_ctx" where
  "arch_free_thread_fpu ctx = ctx\<lparr>fpu_state := None\<rparr>"

text \<open>After \<open>destroy_thread_ctx\<close> the kernel stack, and with it the context, is gone.\<close>

definition destroy_thread_ctx :: "tid \<Rightarrow> sched_state \<Rightarrow> sched_state res" where
  "destroy_thread_ctx t s =
    bind_res (get_ctx s t) (\<lambda>c.
      let s1 = upd_ctx t arch_free_thread_fpu s;
          s2 = (case sc c of None \<Rightarrow> s1 | Some k \<Rightarrow> s1\<lparr>sched_conts := (sched_conts s1)(k := None)\<rparr>)
      in Inr (upd_thread t (\<lambda>th. th\<lparr>thread_ctx := None\<rparr>) s2))"

section \<open>Registers of a thread\<close>

definition set_reg :: "nat \<Rightarrow> u64 \<Rightarrow> tid \<Rightarrow> sched_state \<Rightarrow> sched_state res" where
  "set_reg r v t s = bind_res (get_ctx s t) (\<lambda>_. Inr (upd_ctx t (\<lambda>c. c\<lparr>ec := (ec c)(r := v)\<rparr>) s))"

definition get_reg :: "nat \<Rightarrow> tid \<Rightarrow> sched_state \<Rightarrow> u64 res" where
  "get_reg r t s = bind_res (get_ctx s t) (\<lambda>c. Inr (ec c r))"

definition arch_get_thread_stack :: "tid \<Rightarrow> sched_state \<Rightarrow> u64 res" where
  "arch_get_thread_stack = get_reg SP_EL0"

definition arch_set_thread_stack :: "tid \<Rightarrow> u64 \<Rightarrow> sched_state \<Rightarrow> sched_state res" where
  "arch_set_thread_stack t stack s = set_reg SP_EL0 stack t s"

definition arch_set_thread_return :: "tid \<Rightarrow> u64 \<Rightarrow> sched_state \<Rightarrow> sched_state res" where
  "arch_set_thread_return t ret s = set_reg X0 ret t s"

definition arch_set_thread_next_ip :: "tid \<Rightarrow> u64 \<Rightarrow> sched_state \<Rightarrow> sched_state res" where
  "arch_set_thread_next_ip t ip s = set_reg ELR_EL1 ip t s"

definition arch_get_thread_next_ip :: "tid \<Rightarrow> sched_state \<Rightarrow> u64 res" where
  "arch_get_thread_next_ip = get_reg ELR_EL1"

definition arch_set_thread_info_page :: "tid \<Rightarrow> u64 \<Rightarrow> sched_state \<Rightarrow> sched_state res" where
  "arch_set_thread_info_page t info_page_addr s = set_reg X0 info_page_addr t s"

definition arch_set_thread_arg :: "tid \<Rightarrow> u64 \<Rightarrow> sched_state \<Rightarrow> sched_state res" where
  "arch_set_thread_arg t arg s = set_reg X0 arg t s"

definition arch_set_thread_tls :: "tid \<Rightarrow> u64 \<Rightarrow> sched_state \<Rightarrow> sched_state res" where
  "arch_set_thread_tls t tls s =
    bind_res (get_ctx s t) (\<lambda>_. Inr (upd_ctx t (\<lambda>c. c\<lparr>tls_base_reg := tls\<rparr>) s))"

definition arch_set_thread_badge_arg :: "tid \<Rightarrow> u64 \<Rightarrow> sched_state \<Rightarrow> sched_state res" where
  "arch_set_thread_badge_arg t badge s = set_reg X1 badge t s"

definition arch_enable_interrupt :: "tid \<Rightarrow> sched_state \<Rightarrow> sched_state res" where
  "arch_enable_interrupt t s =
    bind_res (get_reg SPSR_EL1 t s) (\<lambda>v. set_reg SPSR_EL1 (v AND NOT SPSR_EL1_IRQ) t s)"

definition arch_disable_interrupt :: "tid \<Rightarrow> sched_state \<Rightarrow> sched_state res" where
  "arch_disable_interrupt t s =
    bind_res (get_reg SPSR_EL1 t s) (\<lambda>v. set_reg SPSR_EL1 (v OR SPSR_EL1_IRQ) t s)"

definition arch_idle_ctx_init :: "u64 \<Rightarrow> thread_ctx \<Rightarrow> thread_ctx" where
  "arch_idle_ctx_init func c =
    c\<lparr>ec := (\<lambda>i. if i < REG_NUM then 0 else ec c i)
              (SPSR_EL1 := SPSR_EL1_KERNEL, ELR_EL1 := func)\<rparr>"

lemma set_reg_simp [simp]:
  "ctx_of s t = Some c \<Longrightarrow> set_reg r v t s = Inr (upd_ctx t (\<lambda>c. c\<lparr>ec := (ec c)(r := v)\<rparr>) s)"
  by (simp add: set_reg_def)

lemma get_reg_simp [simp]: "ctx_of s t = Some c \<Longrightarrow> get_reg r t s = Inr (ec c r)"
  by (simp add: get_reg_def)

section \<open>Thread-local storage\<close>

definition switch_tls_info :: "nat \<Rightarrow> tid option \<Rightarrow> tid option \<Rightarrow> sched_state \<Rightarrow> sched_state res" where
  "switch_tls_info cpu from to s =
    bind_res
      (case from of None \<Rightarrow> Inr s
       | Some f \<Rightarrow> bind_res (get_ctx s f) (\<lambda>c.
           if above_kernel (th_type c)
           then Inr (upd_ctx f (\<lambda>c. c\<lparr>tls_base_reg := tpidr_el0 s cpu\<rparr>) s) else Inr s))
      (\<lambda>s1. case to of None \<Rightarrow> Inr s1
       | Some t \<Rightarrow> bind_res (get_ctx s1 t) (\<lambda>c.
           if above_kernel (th_type c)
           then Inr (s1\<lparr>tpidr_el0 := (tpidr_el0 s1)(cpu := tls_base_reg c)\<rparr>) else Inr s1))"

section \<open>The FPU\<close>

definition save_fpu_state :: "nat \<Rightarrow> tid option \<Rightarrow> sched_state \<Rightarrow> sched_state res" where
  "save_fpu_state cpu to s = (case to of None \<Rightarrow> Inr s
    | Some t \<Rightarrow> bind_res (get_ctx s t) (\<lambda>c.
        if \<not> above_kernel (th_type c) then Inr s
        else (case fpu_state c of None \<Rightarrow> Inl Bad_Access
          | Some _ \<Rightarrow> let r = fpu_regs s cpu in
              Inr (upd_ctx t (\<lambda>c. c\<lparr>fpu_state :=
                Some \<lparr>fpu = q_regs r, fpcr = ucast (r_fpcr r), fpsr = ucast (r_fpsr r)\<rparr>\<rparr>) s))))"

definition restore_fpu_state :: "nat \<Rightarrow> tid option \<Rightarrow> sched_state \<Rightarrow> sched_state res" where
  "restore_fpu_state cpu to s = (case to of None \<Rightarrow> Inr s
    | Some t \<Rightarrow> bind_res (get_ctx s t) (\<lambda>c.
        if \<not> above_kernel (th_type c) then Inr s
        else (case fpu_state c of None \<Rightarrow> Inl Bad_Access
          | Some a \<Rightarrow> Inr (s\<lparr>fpu_regs := (fpu_regs s)(cpu :=
              \<lparr>q_regs = fpu a, r_fpcr = ucast (fpcr a), r_fpsr = ucast (fpsr a)\<rparr>)\<rparr>))))"

definition CPACR_EL1_FPEN :: nat where "CPACR_EL1_FPEN = 20"

definition disable_fpu_usage :: "nat \<Rightarrow> sched_state \<Rightarrow> sched_state" where
  "disable_fpu_usage cpu s =
    (if fpu_disable (cpu_info s cpu) = 0
     then s\<lparr>cpacr_el1 := (cpacr_el1 s)(cpu :=
              (cpacr_el1 s cpu AND NOT (push_bit CPACR_EL1_FPEN 3)) OR push_bit CPACR_EL1_FPEN 1),
            cpu_info := (cpu_info s)(cpu := (cpu_info s cpu)\<lparr>fpu_disable := 1\<rparr>)\<rparr>
     else s)"

definition enable_fpu_usage :: "nat \<Rightarrow> sched_state \<Rightarrow> sched_state" where
  "enable_fpu_usage cpu s =
    s\<lparr>cpacr_el1 := (cpacr_el1 s)(cpu := cpacr_el1 s cpu OR push_bit CPACR_EL1_FPEN 3),
      cpu_info := (cpu_info s)(cpu := (cpu_info s cpu)\<lparr>fpu_disable := 0\<rparr>)\<rparr>"

definition set_fpu_owner :: "nat \<Rightarrow> tid option \<Rightarrow> sched_state \<Rightarrow> sched_state" where
  "set_fpu_owner cpu o' s =
    s\<lparr>cpu_info := (cpu_info s)(cpu := (cpu_info s cpu)\<lparr>fpu_owner := o'\<rparr>)\<rparr>"

definition change_fpu_owner :: "nat \<Rightarrow> sched_state \<Rightarrow> sched_state res" where
  "change_fpu_owner cpu s =
    (let s1 = enable_fpu_usage cpu s;
         owner = fpu_owner (cpu_info s1 cpu)
     in if owner = current_threads s1 cpu then Inr s1
        else bind_res (case owner of None \<Rightarrow> Inr s1 | Some _ \<Rightarrow> save_fpu_state cpu owner s1) (\<lambda>s2.
          let s3 = set_fpu_owner cpu (current_threads s2 cpu) s2
          in restore_fpu_state cpu (current_threads s3 cpu) s3))"

definition save_and_release_fpu :: "nat \<Rightarrow> tid \<Rightarrow> sched_state \<Rightarrow> sched_state res" where
  "save_and_release_fpu cpu t s =
    (if fpu_owner (cpu_info s cpu) = Some t
     then bind_res (save_fpu_state cpu (Some t) s) (\<lambda>s1. Inr (set_fpu_owner cpu None s1))
     else Inr s)"

definition init_per_cpu_info :: "nat \<Rightarrow> sched_state \<Rightarrow> sched_state" where
  "init_per_cpu_info cpu s =
    s\<lparr>cpu_info := (cpu_info s)(cpu := \<lparr>fpu_owner = None, fpu_disable = 0\<rparr>)\<rparr>"

end
