(* ===== verification/Sched_Core.thy ===== *)
theory Sched_Core
  imports Threads
begin

text \<open>
  The policy-independent scheduler of \<^verbatim>\<open>kernel/sched/sched.c\<close>: the switch to a chosen
  thread, the switch of the address space on the way out of the kernel, and the release of the
  previous thread's kernel stack once the CPU has left it.
\<close>

section \<open>Operations\<close>

definition sched_is_running :: "tid \<Rightarrow> sched_state \<Rightarrow> s32 res" where
  "sched_is_running target s =
    bind_res (checked_ctx s target) (\<lambda>c. Inr (if state c = TS_RUNNING then 1 else 0))"

definition switch_to_thread :: "nat \<Rightarrow> tid \<Rightarrow> sched_state \<Rightarrow> sched_state res" where
  "switch_to_thread cpu target s =
    bind_res (checked_ctx s target) (\<lambda>c.
    bug_on (state c = TS_READY)
      (if current_threads s cpu = Some target
       then Inr (upd_thread target (\<lambda>th. th\<lparr>prev_thread := THREAD_ITSELF\<rparr>)
                  (upd_ctx target (\<lambda>c. c\<lparr>state := TS_RUNNING\<rparr>) s))
       else
        let s1 = upd_ctx target (\<lambda>c. c\<lparr>cpuid := of_nat cpu, state := TS_RUNNING\<rparr>) s;
            s2 = upd_thread target (\<lambda>th. th\<lparr>prev_thread :=
                   (case current_threads s1 cpu of None \<Rightarrow> No_Prev | Some p \<Rightarrow> Prev p)\<rparr>) s1;
            s3 = (if above_kernel (th_type c) then disable_fpu_usage cpu s2 else s2)
        in bind_res (switch_tls_info cpu (current_threads s3 cpu) (Some target) s3) (\<lambda>s4.
             Inr ((upd_ctx target (\<lambda>c. c\<lparr>kernel_stack_state := KS_LOCKED\<rparr>) s4)
                    \<lparr>current_threads := (current_threads s4)(cpu := Some target)\<rparr>))))"

definition record_history_cpu :: "nat \<Rightarrow> nat \<Rightarrow> sched_state \<Rightarrow> sched_state res" where
  "record_history_cpu vmspace cpu s =
    bug_on (cpu \<ge> PLAT_CPU_NUM)
      (Inr (s\<lparr>history_cpus := (history_cpus s)(vmspace := (history_cpus s vmspace)(cpu := True))\<rparr>))"

definition switch_thread_vmspace_to :: "nat \<Rightarrow> tid \<Rightarrow> sched_state \<Rightarrow> sched_state res" where
  "switch_thread_vmspace_to cpu t s =
    bind_res (deref (threads s) t) (\<lambda>th.
      Inr (s\<lparr>ttbr0_el1 := (ttbr0_el1 s)(cpu := th_vmspace th)\<rparr>))"

text \<open>
  \<open>switch_context\<close> returns the thread whose context becomes the stack pointer;
  \<^verbatim>\<open>arch_switch_context\<close> is empty on aarch64.
\<close>

definition switch_context :: "nat \<Rightarrow> sched_state \<Rightarrow> (tid \<times> sched_state) res" where
  "switch_context cpu s = (case current_threads s cpu of None \<Rightarrow> Inl Bug_On
    | Some target \<Rightarrow> bind_res (checked_ctx s target) (\<lambda>c.
        if prev_of s target = THREAD_ITSELF then Inr (target, s)
        else if th_type c \<noteq> TYPE_IDLE \<and> th_type c \<noteq> TYPE_KERNEL \<and> th_type c \<noteq> TYPE_TESTS
        then bind_res (deref (threads s) target) (\<lambda>th. case th_vmspace th of None \<Rightarrow> Inl Bug_On
          | Some vm \<Rightarrow> bind_res (record_history_cpu vm cpu s) (\<lambda>s1.
              bind_res (switch_thread_vmspace_to cpu target s1) (\<lambda>s2. Inr (target, s2))))
        else Inr (target, s)))"

fun find_next_runnable_thread_in_list ::
  "nat \<Rightarrow> tid list \<Rightarrow> sched_state \<Rightarrow> tid option res" where
  "find_next_runnable_thread_in_list cpu [] s = Inr None"
| "find_next_runnable_thread_in_list cpu (t # ts) s =
    bind_res (get_ctx s t) (\<lambda>c.
      if kernel_stack_state c = KS_FREE \<or> current_threads s cpu = Some t then Inr (Some t)
      else find_next_runnable_thread_in_list cpu ts s)"

definition finish_switch :: "nat \<Rightarrow> sched_state \<Rightarrow> sched_state res" where
  "finish_switch cpu s = (case current_threads s cpu of None \<Rightarrow> Inl Bad_Access
    | Some t \<Rightarrow> bind_res (deref (threads s) t) (\<lambda>th. case prev_thread th of
        THREAD_ITSELF \<Rightarrow> Inr s
      | No_Prev \<Rightarrow> Inr s
      | Prev p \<Rightarrow> bind_res (get_ctx s p) (\<lambda>_.
          Inr (upd_ctx p (\<lambda>c. c\<lparr>kernel_stack_state := KS_FREE\<rparr>) s))))"

text \<open>The way back to user mode: \<^verbatim>\<open>eret_to_thread(switch_context())\<close>.\<close>

definition eret_to_thread :: "nat \<Rightarrow> sched_state \<Rightarrow> (tid \<times> sched_state) res" where
  "eret_to_thread cpu s =
    bind_res (switch_context cpu s) (\<lambda>(t, s1).
    bind_res (finish_switch cpu s1) (\<lambda>s2. Inr (t, s2)))"

section \<open>Search for a runnable thread\<close>

definition stack_usable :: "nat \<Rightarrow> sched_state \<Rightarrow> tid \<Rightarrow> bool" where
  "stack_usable cpu s t = (current_threads s cpu = Some t \<or>
    (case ctx_of s t of None \<Rightarrow> False | Some c \<Rightarrow> kernel_stack_state c = KS_FREE))"

lemma find_next_runnable_eq:
  assumes "\<forall>t\<in>set ts. ctx_of s t \<noteq> None"
  shows "find_next_runnable_thread_in_list cpu ts s = Inr (find (stack_usable cpu s) ts)"
  using assms by (induction ts) (auto simp: stack_usable_def)

section \<open>What a switch changes\<close>

text \<open>
  \<open>same_sched s s'\<close>: the two states agree on everything the scheduler decides by.
  The TLS and FPU code only touches registers and saved register contents.
\<close>

definition sched_view :: "thread_ctx \<Rightarrow> nat option \<times> thread_type \<times> thread_state \<times> u32 \<times> s32 \<times> u32 \<times> kernel_stack \<times> bool" where
  "sched_view c = (sc c, th_type c, state c, prio c, affinity c, cpuid c, kernel_stack_state c, fpu_state c = None)"

definition same_sched :: "sched_state \<Rightarrow> sched_state \<Rightarrow> bool" where
  "same_sched s s' \<longleftrightarrow>
    (\<forall>t. map_option sched_view (ctx_of s' t) = map_option sched_view (ctx_of s t)) \<and>
    (\<forall>t. prev_of s' t = prev_of s t) \<and>
    (\<forall>t. threads s' t = None \<longleftrightarrow> threads s t = None) \<and>
    (\<forall>t. map_option th_vmspace (threads s' t) = map_option th_vmspace (threads s t)) \<and>
    current_threads s' = current_threads s \<and> sched_conts s' = sched_conts s \<and>
    rr_ready_queue s' = rr_ready_queue s \<and> pbrr_ready_queue s' = pbrr_ready_queue s \<and>
    cur_sched_ops s' = cur_sched_ops s"

lemma same_sched_refl [simp]: "same_sched s s"
  by (simp add: same_sched_def)

lemma same_sched_trans: "same_sched a b \<Longrightarrow> same_sched b c \<Longrightarrow> same_sched a c"
  by (simp add: same_sched_def)

lemma same_sched_ctx:
  assumes "same_sched s s'" "ctx_of s t = Some c"
  obtains c' where "ctx_of s' t = Some c'" "sched_view c' = sched_view c"
proof -
  have "map_option sched_view (ctx_of s' t) = Some (sched_view c)"
    using assms by (simp add: same_sched_def)
  then show ?thesis using that by auto
qed

lemma sched_viewD:
  "sched_view c' = sched_view c \<Longrightarrow> sc c' = sc c \<and> th_type c' = th_type c \<and> state c' = state c \<and>
    prio c' = prio c \<and> affinity c' = affinity c \<and> cpuid c' = cpuid c \<and>
    kernel_stack_state c' = kernel_stack_state c \<and> (fpu_state c' = None \<longleftrightarrow> fpu_state c = None)"
  by (simp add: sched_view_def)

lemma upd_ctx_vmspace [simp]:
  "map_option th_vmspace (threads (upd_ctx t f s) u) = map_option th_vmspace (threads s u)"
  by (auto simp: upd_ctx_def upd_thread_def option.map_comp comp_def)

lemma same_sched_upd_ctx:
  "(\<And>c. ctx_of s t = Some c \<Longrightarrow> sched_view (f c) = sched_view c) \<Longrightarrow> same_sched s (upd_ctx t f s)"
  by (auto simp: same_sched_def option.map_comp intro!: option.map_cong)

lemma switch_tls_info_same:
  assumes f: "\<forall>f. f0 = Some f \<longrightarrow> ctx_of s f \<noteq> None" and t: "ctx_of s t \<noteq> None"
  shows "\<exists>s'. switch_tls_info cpu f0 (Some t) s = Inr s' \<and> same_sched s s'"
proof -
  have "\<exists>s1. (case f0 of None \<Rightarrow> Inr s
       | Some f \<Rightarrow> bind_res (get_ctx s f) (\<lambda>c.
           if above_kernel (th_type c)
           then Inr (upd_ctx f (\<lambda>c. c\<lparr>tls_base_reg := tpidr_el0 s cpu\<rparr>) s) else Inr s)) = Inr s1 \<and> same_sched s s1"
    using f by (cases f0) (auto intro!: same_sched_upd_ctx simp: sched_view_def)
  then obtain s1 where s1: "(case f0 of None \<Rightarrow> Inr s
       | Some f \<Rightarrow> bind_res (get_ctx s f) (\<lambda>c.
           if above_kernel (th_type c)
           then Inr (upd_ctx f (\<lambda>c. c\<lparr>tls_base_reg := tpidr_el0 s cpu\<rparr>) s) else Inr s)) = Inr s1"
    and same1: "same_sched s s1" by blast
  obtain c where "ctx_of s t = Some c" using t by auto
  then obtain c' where c': "ctx_of s1 t = Some c'" using same_sched_ctx [OF same1] by metis
  define s2 where "s2 = (if above_kernel (th_type c') then s1\<lparr>tpidr_el0 := (tpidr_el0 s1)(cpu := tls_base_reg c')\<rparr> else s1)"
  have "switch_tls_info cpu f0 (Some t) s = Inr s2"
    unfolding switch_tls_info_def s1 using c' by (simp add: s2_def)
  moreover have "same_sched s s2" using same1 by (simp add: s2_def same_sched_def)
  ultimately show ?thesis by blast
qed

lemma save_fpu_state_same:
  assumes "ctx_of s t = Some c" "fpu_state c \<noteq> None"
  obtains s' where "save_fpu_state cpu (Some t) s = Inr s'" "same_sched s s'"
    and "cpu_info s' = cpu_info s"
proof -
  have "\<exists>s'. save_fpu_state cpu (Some t) s = Inr s' \<and> same_sched s s' \<and> cpu_info s' = cpu_info s"
    using assms
    by (auto simp: save_fpu_state_def Let_def intro!: same_sched_upd_ctx) (simp add: sched_view_def)
  then show ?thesis using that by blast
qed

lemma same_sched_cpu_info [simp]: "same_sched s (cpu_info_update f s')  \<longleftrightarrow> same_sched s s'"
  by (simp add: same_sched_def)

lemma same_sched_cpacr [simp]: "same_sched s (cpacr_el1_update f s')  \<longleftrightarrow> same_sched s s'"
  by (simp add: same_sched_def)

lemma disable_fpu_usage_same [simp]: "same_sched s (disable_fpu_usage cpu s)"
  by (simp add: disable_fpu_usage_def)

lemma save_and_release_fpu_same:
  assumes "ctx_of s t = Some c" "fpu_state c \<noteq> None"
  obtains s' where "save_and_release_fpu cpu t s = Inr s'" "same_sched s s'"
proof -
  obtain s' where s': "save_fpu_state cpu (Some t) s = Inr s'" "same_sched s s'"
    using save_fpu_state_same [OF assms] by blast
  show ?thesis
  proof (cases "fpu_owner (cpu_info s cpu) = Some t")
    case True
    then show ?thesis
      using s' that [of "set_fpu_owner cpu None s'"] by (simp add: save_and_release_fpu_def set_fpu_owner_def)
  next
    case False
    then show ?thesis using that [of s] by (simp add: save_and_release_fpu_def)
  qed
qed

text \<open>
  The effect of \<open>switch_to_thread\<close> up to registers: either the current thread goes on, or the
  target takes the CPU, its stack is locked and it remembers whom it followed.
\<close>

definition switched :: "nat \<Rightarrow> tid \<Rightarrow> sched_state \<Rightarrow> sched_state" where
  "switched cpu t s =
    (if current_threads s cpu = Some t
     then upd_thread t (prev_thread_update (\<lambda>_. THREAD_ITSELF)) (upd_ctx t (\<lambda>c. c\<lparr>state := TS_RUNNING\<rparr>) s)
     else (upd_ctx t (\<lambda>c. c\<lparr>kernel_stack_state := KS_LOCKED\<rparr>)
            (upd_thread t (prev_thread_update (\<lambda>_. case current_threads s cpu of None \<Rightarrow> No_Prev | Some p \<Rightarrow> Prev p))
              (upd_ctx t (\<lambda>c. c\<lparr>cpuid := of_nat cpu, state := TS_RUNNING\<rparr>) s)))
          \<lparr>current_threads := (current_threads s)(cpu := Some t)\<rparr>)"

lemma same_sched_upd_both:
  assumes s: "same_sched s s'" and f: "\<forall>c c'. sched_view c = sched_view c' \<longrightarrow> sched_view (f c) = sched_view (f c')"
  shows "same_sched (upd_ctx t f s) (upd_ctx t f s')"
proof -
  have eq: "map_option sched_view (ctx_of s' u) = map_option sched_view (ctx_of s u)" for u
    using s by (simp add: same_sched_def)
  have "map_option sched_view (map_option f (ctx_of s' u)) = map_option sched_view (map_option f (ctx_of s u))" for u
  proof (cases "ctx_of s u")
    case None
    then have "ctx_of s' u = None" using eq [of u] by simp
    then show ?thesis using None by simp
  next
    case (Some c)
    then obtain c' where c': "ctx_of s' u = Some c'" "sched_view c' = sched_view c" using eq [of u] by auto
    then have "sched_view (f c') = sched_view (f c)" using f by blast
    then show ?thesis using Some c'(1) by simp
  qed
  then show ?thesis using s by (simp add: same_sched_def)
qed

lemma same_sched_upd_prev:
  assumes "same_sched s s'"
  shows "same_sched (upd_thread t (prev_thread_update f) s) (upd_thread t (prev_thread_update f) s')"
proof -
  have "map_option th_vmspace (threads (upd_thread t (prev_thread_update f) r) u) = map_option th_vmspace (threads r u)"
    for r u
    by (auto simp: upd_thread_def option.map_comp comp_def)
  then show ?thesis using assms by (auto simp add: same_sched_def)
qed

lemma same_sched_current:
  "same_sched s s' \<Longrightarrow> same_sched (s\<lparr>current_threads := f\<rparr>) (s'\<lparr>current_threads := f\<rparr>)"
  by (simp add: same_sched_def)

lemma ctx_of_disable_fpu [simp]: "ctx_of (disable_fpu_usage cpu s) t = ctx_of s t"
  by (simp add: disable_fpu_usage_def)

lemma upd_upd_ctx [simp]: "upd_ctx t f (upd_ctx t g s) = upd_ctx t (\<lambda>c. f (g c)) s"
  by (simp add: upd_ctx_def upd_thread_def option.map_comp comp_def)

lemma switch_to_thread_ok:
  assumes c: "ctx_of s t = Some c" "state c \<noteq> TS_READY"
    and cur: "\<forall>p. current_threads s cpu = Some p \<longrightarrow> ctx_of s p \<noteq> None"
  obtains s' where "switch_to_thread cpu t s = Inr s'" "same_sched (switched cpu t s) s'"
proof (cases "current_threads s cpu = Some t")
  case True
  then show ?thesis using that c by (simp add: switch_to_thread_def switched_def)
next
  case False
  define s2 where "s2 = upd_thread t (prev_thread_update (\<lambda>_.
                   (case current_threads s cpu of None \<Rightarrow> No_Prev | Some p \<Rightarrow> Prev p)))
      (upd_ctx t (\<lambda>c. c\<lparr>cpuid := of_nat cpu, state := TS_RUNNING\<rparr>) s)"
  define s3 where "s3 = (if above_kernel (th_type c) then disable_fpu_usage cpu s2 else s2)"
  have cur3: "current_threads s3 = current_threads s"
    by (simp add: s3_def s2_def disable_fpu_usage_def)
  have ctx3: "ctx_of s3 u = None \<longleftrightarrow> ctx_of s u = None" for u by (simp add: s3_def s2_def)
  obtain s4 where s4: "switch_tls_info cpu (current_threads s cpu) (Some t) s3 = Inr s4" "same_sched s3 s4"
    using switch_tls_info_same [of "current_threads s cpu" s3 t cpu] cur c(1) unfolding ctx3 by auto
  define s5 where "s5 = (upd_ctx t (\<lambda>c. c\<lparr>kernel_stack_state := KS_LOCKED\<rparr>) s4)
      \<lparr>current_threads := (current_threads s4)(cpu := Some t)\<rparr>"
  have "switch_to_thread cpu t s = bind_res (switch_tls_info cpu (current_threads s3 cpu) (Some t) s3)
      (\<lambda>s4. Inr ((upd_ctx t (\<lambda>c. c\<lparr>kernel_stack_state := KS_LOCKED\<rparr>) s4)
                    \<lparr>current_threads := (current_threads s4)(cpu := Some t)\<rparr>))"
    using c False by (simp add: switch_to_thread_def Let_def s3_def s2_def)
  then have res: "switch_to_thread cpu t s = Inr s5" using s4(1) cur3 by (simp add: s5_def)
  have "same_sched s2 s4" using s4(2) by (simp add: s3_def same_sched_trans [OF disable_fpu_usage_same] split: if_splits)
  then have "same_sched (upd_ctx t (\<lambda>c. c\<lparr>kernel_stack_state := KS_LOCKED\<rparr>) s2)
      (upd_ctx t (\<lambda>c. c\<lparr>kernel_stack_state := KS_LOCKED\<rparr>) s4)"
    by (rule same_sched_upd_both) (simp add: sched_view_def)
  moreover have "switched cpu t s = (upd_ctx t (\<lambda>c. c\<lparr>kernel_stack_state := KS_LOCKED\<rparr>) s2)
      \<lparr>current_threads := (current_threads s4)(cpu := Some t)\<rparr>"
    using False s4(2) cur3 by (simp add: switched_def s2_def same_sched_def)
  ultimately show ?thesis using that [of s5] res by (simp add: s5_def same_sched_current)
qed

lemma switched_sel [simp]:
  "sched_conts (switched cpu t s) = sched_conts s"
  "rr_ready_queue (switched cpu t s) = rr_ready_queue s"
  "pbrr_ready_queue (switched cpu t s) = pbrr_ready_queue s"
  "cur_sched_ops (switched cpu t s) = cur_sched_ops s"
  "current_threads (switched cpu t s) = (current_threads s)(cpu := Some t)"
  by (auto simp: switched_def)

lemma ctx_of_switched:
  "ctx_of (switched cpu t s) u = (if u = t then map_option (\<lambda>c.
      if current_threads s cpu = Some t then c\<lparr>state := TS_RUNNING\<rparr>
      else c\<lparr>cpuid := of_nat cpu, state := TS_RUNNING, kernel_stack_state := KS_LOCKED\<rparr>) (ctx_of s u)
    else ctx_of s u)"
  by (simp add: switched_def option.map_comp comp_def)

lemma prev_of_switched:
  "threads s t \<noteq> None \<Longrightarrow> prev_of (switched cpu t s) u = (if u = t then
      (if current_threads s cpu = Some t then THREAD_ITSELF
       else (case current_threads s cpu of None \<Rightarrow> No_Prev | Some p \<Rightarrow> Prev p)) else prev_of s u)"
  by (simp add: switched_def)

end
