(* ===== verification/Ready_Queues.thy ===== *)
theory Ready_Queues
  imports Sched_Core "HOL-Library.Multiset"
begin

text \<open>
  The contract of \<^verbatim>\<open>struct sched_ops\<close> (\<^verbatim>\<open>kernel/include/sched/sched.h\<close>): what
  the scheduler and the rest of the kernel rely on when they enqueue, dequeue and choose threads,
  for either of the two policies. A policy presents its ready queues as one list per CPU, in the
  order in which it considers the threads.
\<close>

section \<open>Vocabulary of the contract\<close>

text \<open>The CPU whose queue takes a thread: its affinity, or the local CPU.\<close>

definition target_cpu :: "nat \<Rightarrow> thread_ctx \<Rightarrow> u32" where
  "target_cpu cpu c = (if affinity c = NO_AFF then of_nat cpu else word_of_int (affinity c))"

definition drop_queues :: "sched_state \<Rightarrow> sched_state" where
  "drop_queues s = s\<lparr>rr_ready_queue := (\<lambda>_. []), pbrr_ready_queue := (\<lambda>_ _. [])\<rparr>"

text \<open>
  Up to ready queues and registers, \<open>s'\<close> is \<open>s\<close> with thread \<open>t\<close> in state \<open>st\<close> and assigned to CPU \<open>k\<close>.
\<close>

definition restated :: "tid \<Rightarrow> thread_state \<Rightarrow> u32 \<Rightarrow> sched_state \<Rightarrow> sched_state \<Rightarrow> bool" where
  "restated t st k s s' =
    same_sched (drop_queues (upd_ctx t (\<lambda>c. c\<lparr>state := st, cpuid := k\<rparr>) s)) (drop_queues s')"

definition ready_on :: "sched_state \<Rightarrow> tid \<Rightarrow> nat \<Rightarrow> bool" where
  "ready_on s t k = (k < PLAT_CPU_NUM \<and> (case ctx_of s t of None \<Rightarrow> False
    | Some c \<Rightarrow> state c = TS_READY \<and> cpuid c = of_nat k))"

text \<open>A context that the policies accept: a valid affinity and priority, an FPU area, a budget.\<close>

definition ctx_ok :: "sched_state \<Rightarrow> thread_ctx \<Rightarrow> bool" where
  "ctx_ok s c = ((affinity c = NO_AFF \<or> (0 \<le> affinity c \<and> affinity c < int PLAT_CPU_NUM)) \<and>
    prio c \<le> MAX_PRIO \<and> fpu_state c \<noteq> None \<and> (case sc c of None \<Rightarrow> False | Some k \<Rightarrow> sched_conts s k \<noteq> None))"

lemma ctx_ok_fpu: "ctx_ok s c \<Longrightarrow> fpu_state c \<noteq> None"
  by (simp add: ctx_ok_def)

lemma ctx_ok_upd [simp]: "ctx_ok (upd_ctx t f s) c = ctx_ok s c" "ctx_ok s (c\<lparr>state := st\<rparr>) = ctx_ok s c"
  by (simp_all add: ctx_ok_def split: option.splits)

lemma small_cpu [simp]: "k < PLAT_CPU_NUM \<Longrightarrow> unat (of_nat k :: u32) = k"
  by (simp add: PLAT_CPU_NUM_def unat_of_nat take_bit_nat_eq_self)

lemma small_cpu_eq: "j < PLAT_CPU_NUM \<Longrightarrow> k < PLAT_CPU_NUM \<Longrightarrow> (of_nat j :: u32) = of_nat k \<longleftrightarrow> j = k"
  by (metis small_cpu)

lemma target_cpu_lt:
  "ctx_ok s c \<Longrightarrow> cpu < PLAT_CPU_NUM \<Longrightarrow> unat (target_cpu cpu c) < PLAT_CPU_NUM"
proof -
  assume a: "ctx_ok s c" "cpu < PLAT_CPU_NUM"
  show ?thesis
  proof (cases "affinity c = NO_AFF")
    case True
    then show ?thesis using a by (simp add: target_cpu_def)
  next
    case False
    then obtain k where "affinity c = int k" "k < PLAT_CPU_NUM"
      using a by (auto simp: ctx_ok_def) (metis nat_0_le of_nat_less_iff)
    then show ?thesis using False by (simp add: target_cpu_def)
  qed
qed

text \<open>
  The common body of \<open>rr_sched\<close> and \<open>pbrr_sched\<close>: keep the current thread while it has budget,
  otherwise refill it, enqueue it if it still runs, and switch to the chosen thread.
\<close>

definition budget_of :: "sched_state \<Rightarrow> thread_ctx \<Rightarrow> u32 option" where
  "budget_of s c = (case sc c of None \<Rightarrow> None | Some k \<Rightarrow> sched_conts s k)"

definition refill :: "thread_ctx \<Rightarrow> u32 \<Rightarrow> sched_state \<Rightarrow> sched_state" where
  "refill c b s = (case sc c of None \<Rightarrow> s | Some k \<Rightarrow> s\<lparr>sched_conts := (sched_conts s)(k \<mapsto> b)\<rparr>)"

definition release_current ::
  "(nat \<Rightarrow> tid \<Rightarrow> sched_state \<Rightarrow> (s32 \<times> sched_state) res) \<Rightarrow> nat \<Rightarrow> sched_state \<Rightarrow> (bool \<times> sched_state) res" where
  "release_current enq cpu s = (case current_threads s cpu of None \<Rightarrow> Inr (True, s)
    | Some old \<Rightarrow> bind_res (get_ctx s old) (\<lambda>c.
        bug_on (state c \<noteq> TS_RUNNING \<and> state c \<noteq> TS_WAITING)
        (if state c = TS_WAITING then Inr (True, s)
         else case budget_of s c of None \<Rightarrow> Inl Bad_Access
           | Some b \<Rightarrow> if b \<noteq> 0 then Inr (False, s)
             else bind_res (enq cpu old (upd_ctx old (\<lambda>c. c\<lparr>state := TS_INTER\<rparr>) (refill c DEFAULT_BUDGET s)))
               (\<lambda>(ret, s1). bug_on (ret \<noteq> 0) (Inr (True, s1))))))"

definition policy_sched ::
  "(nat \<Rightarrow> tid \<Rightarrow> sched_state \<Rightarrow> (s32 \<times> sched_state) res) \<Rightarrow>
   (nat \<Rightarrow> sched_state \<Rightarrow> (tid \<times> sched_state) res) \<Rightarrow> nat \<Rightarrow> sched_state \<Rightarrow> sched_state res" where
  "policy_sched enq pick cpu s =
    bind_res (release_current enq cpu s) (\<lambda>(go, s1).
      if \<not> go then Inr s1
      else bind_res (pick cpu s1) (\<lambda>(new, s2). switch_to_thread cpu new s2))"

lemma drop_queues_sel [simp]:
  "ctx_of (drop_queues s) = ctx_of s" "prev_of (drop_queues s) = prev_of s" "threads (drop_queues s) = threads s"
  "current_threads (drop_queues s) = current_threads s" "sched_conts (drop_queues s) = sched_conts s"
  "cur_sched_ops (drop_queues s) = cur_sched_ops s"
  "rr_ready_queue (drop_queues s) = (\<lambda>_. [])" "pbrr_ready_queue (drop_queues s) = (\<lambda>_ _. [])"
  by (auto simp: drop_queues_def ctx_of_def prev_of_def fun_eq_iff)

text \<open>What a state has in common with another up to registers, thread by thread.\<close>

abbreviation view :: "sched_state \<Rightarrow> tid \<Rightarrow> (nat option \<times> thread_type \<times> thread_state \<times> u32 \<times> s32 \<times> u32 \<times> kernel_stack \<times> bool) option" where
  "view s t \<equiv> map_option sched_view (ctx_of s t)"

lemma view_SomeD: "view s' t = view s t \<Longrightarrow> ctx_of s t = Some c \<Longrightarrow> \<exists>c'. ctx_of s' t = Some c' \<and> sched_view c' = sched_view c"
  by auto

lemma ready_on_view: "view s' t = view s t \<Longrightarrow> ready_on s' t k = ready_on s t k"
  by (cases "ctx_of s t"; cases "ctx_of s' t") (auto simp: ready_on_def dest: sched_viewD)

lemma restated_view: "restated t st k s s' \<Longrightarrow> u \<noteq> t \<Longrightarrow> view s' u = view s u"
  by (simp add: restated_def same_sched_def)

lemma restated_self:
  "restated t st k s s' \<Longrightarrow> ctx_of s t = Some c \<Longrightarrow>
    \<exists>c'. ctx_of s' t = Some c' \<and> sched_view c' = sched_view (c\<lparr>state := st, cpuid := k\<rparr>)"
proof -
  assume a: "restated t st k s s'" "ctx_of s t = Some c"
  then have "view s' t = Some (sched_view (c\<lparr>state := st, cpuid := k\<rparr>))"
    by (simp add: restated_def same_sched_def)
  then show ?thesis by auto
qed

lemma restated_sel:
  assumes "restated t st k s s'"
  shows "current_threads s' = current_threads s" "sched_conts s' = sched_conts s"
    "prev_of s' u = prev_of s u" "threads s' u = None \<longleftrightarrow> threads s u = None"
    "map_option th_vmspace (threads s' u) = map_option th_vmspace (threads s u)"
  using assms by (simp_all add: restated_def same_sched_def)

section \<open>The contract\<close>

locale ready_queues =
  fixes queued :: "sched_state \<Rightarrow> nat \<Rightarrow> tid list"
    and enq :: "nat \<Rightarrow> tid \<Rightarrow> sched_state \<Rightarrow> (s32 \<times> sched_state) res"
    and deq :: "tid \<Rightarrow> sched_state \<Rightarrow> (s32 \<times> sched_state) res"
    and pick :: "nat \<Rightarrow> sched_state \<Rightarrow> (tid \<times> sched_state) res"
  assumes queued_cong: "rr_ready_queue s' = rr_ready_queue s \<Longrightarrow>
      pbrr_ready_queue s' = pbrr_ready_queue s \<Longrightarrow> queued s' = queued s"
    and enq_ok: "ctx_of s t = Some c \<Longrightarrow> state c \<noteq> TS_READY \<Longrightarrow> th_type c \<noteq> TYPE_IDLE \<Longrightarrow>
      ctx_ok s c \<Longrightarrow> cpu < PLAT_CPU_NUM \<Longrightarrow>
      \<exists>s'. enq cpu t s = Inr (0, s') \<and> restated t TS_READY (target_cpu cpu c) s s' \<and>
        (\<forall>j. j \<noteq> unat (target_cpu cpu c) \<longrightarrow> queued s' j = queued s j) \<and>
        mset (queued s' (unat (target_cpu cpu c))) = add_mset t (mset (queued s (unat (target_cpu cpu c))))"
    and enq_again: "ctx_of s t = Some c \<Longrightarrow> state c = TS_READY \<Longrightarrow> th_type c \<noteq> TYPE_IDLE \<Longrightarrow>
      ctx_ok s c \<Longrightarrow> cpu < PLAT_CPU_NUM \<Longrightarrow>
      \<exists>s'. enq cpu t s = Inr (- EINVAL, s') \<and> same_sched s s'"
    and deq_ok: "ctx_of s t = Some c \<Longrightarrow> state c = TS_READY \<Longrightarrow> th_type c \<noteq> TYPE_IDLE \<Longrightarrow>
      ctx_ok s c \<Longrightarrow> unat (cpuid c) < PLAT_CPU_NUM \<Longrightarrow> \<forall>j. distinct (queued s j) \<Longrightarrow>
      \<exists>s'. deq t s = Inr (0, s') \<and> restated t TS_INTER (cpuid c) s s' \<and>
        (\<forall>j. mset (queued s' j) = mset (queued s j) - {#t#})"
    and pick_ok: "\<forall>t\<in>set (queued s cpu). ready_on s t cpu \<Longrightarrow> cpu < PLAT_CPU_NUM \<Longrightarrow>
      \<forall>j. distinct (queued s j) \<Longrightarrow> find (stack_usable cpu s) (queued s cpu) = Some t \<Longrightarrow>
      \<exists>s'. pick cpu s = Inr (t, s') \<and> restated t TS_INTER (of_nat cpu) s s' \<and>
        (\<forall>j. mset (queued s' j) = mset (queued s j) - {#t#})"
begin

text \<open>A thread is ready exactly when it is in the queue of the CPU it is assigned to, and once.\<close>

definition queue_inv :: "sched_state \<Rightarrow> bool" where
  "queue_inv s = ((\<forall>k. distinct (queued s k)) \<and> (\<forall>k t. t \<in> set (queued s k) \<longleftrightarrow> ready_on s t k) \<and>
    (\<forall>t c. ctx_of s t = Some c \<longrightarrow> state c = TS_READY \<longrightarrow> unat (cpuid c) < PLAT_CPU_NUM))"

lemma ready_cpu: "queue_inv s \<Longrightarrow> ctx_of s t = Some c \<Longrightarrow> state c = TS_READY \<Longrightarrow> unat (cpuid c) < PLAT_CPU_NUM"
  by (simp add: queue_inv_def)

lemma queue_inv_same: "queue_inv s \<Longrightarrow> same_sched s s' \<Longrightarrow> queue_inv s'"
proof -
  assume q: "queue_inv s" and ss: "same_sched s s'"
  have qd: "queued s' = queued s" using ss by (intro queued_cong) (simp_all add: same_sched_def)
  have v: "view s' t = view s t" for t using ss by (simp add: same_sched_def)
  have r: "ready_on s' t k = ready_on s t k" for t k using ready_on_view [OF v] .
  have "\<forall>t c. ctx_of s' t = Some c \<longrightarrow> state c = TS_READY \<longrightarrow> unat (cpuid c) < PLAT_CPU_NUM"
  proof (intro allI impI)
    fix t c assume c: "ctx_of s' t = Some c" "state c = TS_READY"
    obtain c0 where c0: "ctx_of s t = Some c0" "sched_view c0 = sched_view c"
      using view_SomeD [OF v [symmetric] c(1)] by blast
    show "unat (cpuid c) < PLAT_CPU_NUM" using ready_cpu [OF q c0(1)] sched_viewD [OF c0(2)] c(2) by simp
  qed
  then show ?thesis using q qd r by (simp add: queue_inv_def)
qed

text \<open>A change of one thread that keeps the queues in step with the thread states.\<close>

lemma queue_inv_step:
  assumes q: "queue_inv s" and v: "\<forall>u. u \<noteq> t \<longrightarrow> view s' u = view s u"
    and d: "\<forall>k. distinct (queued s' k)" and other: "\<forall>k. set (queued s' k) - {t} = set (queued s k) - {t}"
    and self: "\<forall>k. t \<in> set (queued s' k) \<longleftrightarrow> ready_on s' t k"
    and cpu: "\<forall>c. ctx_of s' t = Some c \<longrightarrow> state c = TS_READY \<longrightarrow> unat (cpuid c) < PLAT_CPU_NUM"
  shows "queue_inv s'"
proof -
  have "u \<in> set (queued s' k) \<longleftrightarrow> ready_on s' u k" for u k
  proof (cases "u = t")
    case False
    then have "u \<in> set (queued s' k) \<longleftrightarrow> u \<in> set (queued s k)" using other by blast
    also have "\<dots> \<longleftrightarrow> ready_on s u k" using q by (simp add: queue_inv_def)
    also have "\<dots> \<longleftrightarrow> ready_on s' u k" using False v ready_on_view [of s' u s k] by simp
    finally show ?thesis .
  qed (use self in simp)
  moreover have "unat (cpuid c) < PLAT_CPU_NUM" if c: "ctx_of s' u = Some c" "state c = TS_READY" for u c
  proof (cases "u = t")
    case False
    then have "view s u = view s' u" using v by simp
    then obtain c0 where c0: "ctx_of s u = Some c0" "sched_view c0 = sched_view c"
      using view_SomeD c(1) by blast
    show ?thesis using ready_cpu [OF q c0(1)] sched_viewD [OF c0(2)] c(2) by simp
  qed (use cpu c in blast)
  ultimately show ?thesis using d by (simp add: queue_inv_def)
qed

lemma queue_inv_enq:
  assumes q: "queue_inv s" and c: "ctx_of s t = Some c" "state c \<noteq> TS_READY" "th_type c \<noteq> TYPE_IDLE" "ctx_ok s c"
    and cpu: "cpu < PLAT_CPU_NUM"
  shows "\<exists>s'. enq cpu t s = Inr (0, s') \<and> restated t TS_READY (target_cpu cpu c) s s' \<and> queue_inv s'"
proof -
  let ?k = "unat (target_cpu cpu c)"
  obtain s' where s': "enq cpu t s = Inr (0, s')" "restated t TS_READY (target_cpu cpu c) s s'"
    and oth: "\<forall>j. j \<noteq> ?k \<longrightarrow> queued s' j = queued s j"
    and ms: "mset (queued s' ?k) = add_mset t (mset (queued s ?k))"
    using enq_ok [OF c cpu] by blast
  have k: "?k < PLAT_CPU_NUM" using target_cpu_lt [OF c(4) cpu] .
  have nt: "t \<notin> set (queued s j)" for j using q c by (simp add: queue_inv_def ready_on_def)
  have ms': "mset (queued s' ?k) = mset (t # queued s ?k)" using ms by simp
  obtain c' where c': "ctx_of s' t = Some c'" "sched_view c' = sched_view (c\<lparr>state := TS_READY, cpuid := target_cpu cpu c\<rparr>)"
    using restated_self [OF s'(2) c(1)] by blast
  have c'': "state c' = TS_READY" "cpuid c' = target_cpu cpu c" using sched_viewD [OF c'(2)] by simp_all
  have "queue_inv s'"
  proof (rule queue_inv_step [OF q])
    show "\<forall>u. u \<noteq> t \<longrightarrow> view s' u = view s u" using restated_view [OF s'(2)] by blast
    show "\<forall>j. distinct (queued s' j)"
    proof
      fix j show "distinct (queued s' j)"
        using oth q nt mset_eq_imp_distinct_iff [OF ms'] by (cases "j = ?k") (auto simp: queue_inv_def)
    qed
    show "\<forall>j. set (queued s' j) - {t} = set (queued s j) - {t}"
    proof
      fix j show "set (queued s' j) - {t} = set (queued s j) - {t}"
        using oth mset_eq_setD [OF ms'] by (cases "j = ?k") auto
    qed
    show "\<forall>j. t \<in> set (queued s' j) \<longleftrightarrow> ready_on s' t j"
    proof
      fix j show "t \<in> set (queued s' j) \<longleftrightarrow> ready_on s' t j"
      proof (cases "j = ?k")
        case True
        then show ?thesis using mset_eq_setD [OF ms'] k c'(1) c'' by (simp add: ready_on_def)
      next
        case False
        have "target_cpu cpu c \<noteq> of_nat j" if "j < PLAT_CPU_NUM" using False that by auto
        then show ?thesis using False oth nt c'(1) c'' by (auto simp: ready_on_def)
      qed
    qed
  qed (use c'(1) c'' k in simp)
  then show ?thesis using s' by blast
qed

lemma queue_inv_removed:
  assumes q: "queue_inv s" and r: "restated t TS_INTER k s s'" and c: "ctx_of s t = Some c"
    and ms: "\<forall>j. mset (queued s' j) = mset (queued s j) - {#t#}"
  shows "queue_inv s'"
proof (rule queue_inv_step [OF q])
  obtain c' where v: "ctx_of s' t = Some c'" "sched_view c' = sched_view (c\<lparr>state := TS_INTER, cpuid := k\<rparr>)"
    using restated_self [OF r c] by blast
  have c': "ctx_of s' t = Some c'" "state c' = TS_INTER" using v(1) sched_viewD [OF v(2)] by simp_all
  have dq: "distinct (queued s j)" for j using q by (simp add: queue_inv_def)
  have eq: "mset (queued s' j) = mset (remove1 t (queued s j))" for j using ms by simp
  show "\<forall>u. u \<noteq> t \<longrightarrow> view s' u = view s u" using restated_view [OF r] by blast
  show "\<forall>j. distinct (queued s' j)" using mset_eq_imp_distinct_iff [OF eq] dq by simp
  show "\<forall>j. set (queued s' j) - {t} = set (queued s j) - {t}"
    using mset_eq_setD [OF eq] dq by (auto simp: set_remove1_eq)
  show "\<forall>j. t \<in> set (queued s' j) \<longleftrightarrow> ready_on s' t j"
    using mset_eq_setD [OF eq] dq c' by (auto simp: ready_on_def set_remove1_eq)
  show "\<forall>c. ctx_of s' t = Some c \<longrightarrow> state c = TS_READY \<longrightarrow> unat (cpuid c) < PLAT_CPU_NUM"
    using c' by simp
qed

lemma queue_inv_deq:
  assumes q: "queue_inv s" and c: "ctx_of s t = Some c" "state c = TS_READY" "th_type c \<noteq> TYPE_IDLE" "ctx_ok s c"
  shows "\<exists>s'. deq t s = Inr (0, s') \<and> restated t TS_INTER (cpuid c) s s' \<and> queue_inv s'"
proof -
  have "\<forall>j. distinct (queued s j)" using q by (simp add: queue_inv_def)
  then show ?thesis using deq_ok [OF c ready_cpu [OF q c(1,2)]] queue_inv_removed [OF q _ c(1)] by blast
qed

lemma queue_inv_pick:
  assumes q: "queue_inv s" and cpu: "cpu < PLAT_CPU_NUM"
    and f: "find (stack_usable cpu s) (queued s cpu) = Some t"
  shows "\<exists>s'. pick cpu s = Inr (t, s') \<and> restated t TS_INTER (of_nat cpu) s s' \<and> queue_inv s'"
proof -
  have rd: "\<forall>t\<in>set (queued s cpu). ready_on s t cpu" using q by (simp add: queue_inv_def)
  then have "ready_on s t cpu" using f by (auto simp: find_Some_iff)
  then obtain c where "ctx_of s t = Some c" by (auto simp: ready_on_def split: option.splits)
  moreover have "\<forall>j. distinct (queued s j)" using q by (simp add: queue_inv_def)
  ultimately show ?thesis using pick_ok [OF rd cpu _ f] queue_inv_removed [OF q] by blast
qed

end

end
