(* ===== verification/Sched_RR.thy ===== *)
theory Sched_RR
  imports Ready_Queues
begin

text \<open>
  The round-robin policy of \<^verbatim>\<open>kernel/sched/policy_rr.c\<close>, the one the kernel runs: one
  ready queue per CPU, idle threads kept outside the queues. A queue's lock is taken and released
  inside each operation, so the operations are atomic on the queue. The unlocked test of
  \<^verbatim>\<open>list_empty\<close> in \<^verbatim>\<open>rr_sched_choose_thread\<close> is repeated under the lock.
\<close>

section \<open>Operations\<close>

definition rr_sched_enqueue_nolock :: "tid \<Rightarrow> u32 \<Rightarrow> sched_state \<Rightarrow> (s32 \<times> sched_state) res" where
  "rr_sched_enqueue_nolock t cpu s =
    bind_res (get_ctx s t) (\<lambda>c.
      if state c = TS_READY then Inr (- EINVAL, s)
      else Inr (0, (upd_ctx t (\<lambda>c. c\<lparr>state := TS_READY, cpuid := cpu\<rparr>) s)
        \<lparr>rr_ready_queue := (rr_ready_queue s)(unat cpu := rr_ready_queue s (unat cpu) @ [t])\<rparr>))"

definition rr_sched_enqueue :: "nat \<Rightarrow> tid \<Rightarrow> sched_state \<Rightarrow> (s32 \<times> sched_state) res" where
  "rr_sched_enqueue local_cpu t s =
    bind_res (checked_ctx s t) (\<lambda>c.
      if th_type c = TYPE_IDLE then Inr (0, s)
      else let cpu = (if affinity c = NO_AFF then of_nat local_cpu else word_of_int (affinity c)) :: u32 in
        if prio c > MAX_PRIO then Inr (- EINVAL, s)
        else if cpu \<ge> of_nat PLAT_CPU_NUM then Inr (- EINVAL, s)
        else bind_res (if cpu \<noteq> of_nat local_cpu then save_and_release_fpu local_cpu t s else Inr s) (\<lambda>s1.
          rr_sched_enqueue_nolock t cpu s1))"

text \<open>\<^verbatim>\<open>list_del\<close> takes the thread's node out of whichever queue holds it.\<close>

definition rr_sched_dequeue_nolock :: "tid \<Rightarrow> sched_state \<Rightarrow> (s32 \<times> sched_state) res" where
  "rr_sched_dequeue_nolock t s =
    bind_res (get_ctx s t) (\<lambda>c.
      if state c \<noteq> TS_READY then Inr (- EINVAL, s)
      else Inr (0, (upd_ctx t (\<lambda>c. c\<lparr>state := TS_INTER\<rparr>) s)
        \<lparr>rr_ready_queue := (\<lambda>k. remove1 t (rr_ready_queue s k))\<rparr>))"

definition rr_sched_dequeue :: "tid \<Rightarrow> sched_state \<Rightarrow> (s32 \<times> sched_state) res" where
  "rr_sched_dequeue t s =
    bind_res (checked_ctx s t) (\<lambda>c.
      bug_on (th_type c = TYPE_IDLE) (rr_sched_dequeue_nolock t s))"

definition rr_sched_choose_thread :: "nat \<Rightarrow> sched_state \<Rightarrow> (tid \<times> sched_state) res" where
  "rr_sched_choose_thread cpu s =
    (if rr_ready_queue s cpu \<noteq> []
     then bind_res (find_next_runnable_thread_in_list cpu (rr_ready_queue s cpu) s) (\<lambda>found.
       case found of None \<Rightarrow> Inr (Idle cpu, s)
       | Some t \<Rightarrow> bind_res (rr_sched_dequeue_nolock t s) (\<lambda>(ret, s1).
           bug_on (ret \<noteq> 0) (Inr (t, s1))))
     else Inr (Idle cpu, s))"

definition rr_sched_refill_budget :: "tid \<Rightarrow> u32 \<Rightarrow> sched_state \<Rightarrow> sched_state res" where
  "rr_sched_refill_budget target budget s =
    bind_res (get_ctx s target) (\<lambda>c. case sc c of None \<Rightarrow> Inl Bad_Access
      | Some k \<Rightarrow> bind_res (deref (sched_conts s) k) (\<lambda>_.
          Inr (s\<lparr>sched_conts := (sched_conts s)(k \<mapsto> budget)\<rparr>)))"

definition rr_sched :: "nat \<Rightarrow> sched_state \<Rightarrow> sched_state res" where
  "rr_sched cpu s =
    bind_res
      (case current_threads s cpu of None \<Rightarrow> Inr (True, s)
       | Some old \<Rightarrow> bind_res (checked_ctx s old) (\<lambda>c. case sc c of None \<Rightarrow> Inl Bug_On
         | Some k \<Rightarrow> bug_on (state c \<noteq> TS_RUNNING \<and> state c \<noteq> TS_WAITING)
             (if state c = TS_RUNNING
              then bind_res (deref (sched_conts s) k) (\<lambda>budget.
                if budget > 0 then Inr (False, s)
                else bind_res (rr_sched_refill_budget old DEFAULT_BUDGET s) (\<lambda>s1.
                  bind_res (rr_sched_enqueue cpu old (upd_ctx old (\<lambda>c. c\<lparr>state := TS_INTER\<rparr>) s1)) (\<lambda>(ret, s2).
                    bug_on (ret \<noteq> 0) (Inr (True, s2)))))
              else Inr (True, s))))
      (\<lambda>(go, s1). if \<not> go then Inr s1
        else bind_res (rr_sched_choose_thread cpu s1) (\<lambda>(new, s2). switch_to_thread cpu new s2))"

text \<open>
  Initialisation of one idle thread: \<open>stack\<close> tells whether its kernel stack could be allocated,
  \<open>new_sc\<close> is its scheduling context, \<open>func\<close> the address of \<^verbatim>\<open>idle_thread_routine\<close> and
  \<open>grp\<close> the fake cap group that stores the name.
\<close>

definition init_idle_thread :: "bool \<Rightarrow> nat \<Rightarrow> u64 \<Rightarrow> nat \<Rightarrow> nat \<Rightarrow> sched_state \<Rightarrow> sched_state res" where
  "init_idle_thread stack new_sc func grp i s =
    bind_res (deref (threads s) (Idle i)) (\<lambda>_. case create_thread_ctx stack of None \<Rightarrow> Inl Bug_On
      | Some c \<Rightarrow> bind_res
          (init_thread_ctx (Idle i) 0 0 MIN_PRIO TYPE_IDLE (int i) new_sc
            (upd_thread (Idle i) (\<lambda>th. th\<lparr>thread_ctx := Some c\<rparr>) s)) (\<lambda>s1.
          Inr (upd_thread (Idle i) (\<lambda>th. th\<lparr>th_vmspace := None, th_cap_group := Some grp\<rparr>)
                (upd_ctx (Idle i) (arch_idle_ctx_init func) s1))))"

fun init_idle_threads ::
  "(nat \<Rightarrow> bool) \<Rightarrow> (nat \<Rightarrow> nat) \<Rightarrow> u64 \<Rightarrow> nat \<Rightarrow> nat list \<Rightarrow> sched_state \<Rightarrow> sched_state res" where
  "init_idle_threads stacks scs func grp [] s = Inr s"
| "init_idle_threads stacks scs func grp (i # is) s =
    bind_res (init_idle_thread (stacks i) (scs i) func grp i s)
      (init_idle_threads stacks scs func grp is)"

definition rr_sched_init ::
  "(nat \<Rightarrow> bool) \<Rightarrow> (nat \<Rightarrow> nat) \<Rightarrow> u64 \<Rightarrow> nat \<Rightarrow> sched_state \<Rightarrow> sched_state res" where
  "rr_sched_init stacks scs func grp s =
    init_idle_threads stacks scs func grp [0..<PLAT_CPU_NUM]
      (s\<lparr>current_threads := (\<lambda>i. if i < PLAT_CPU_NUM then None else current_threads s i),
         rr_ready_queue := (\<lambda>i. if i < PLAT_CPU_NUM then [] else rr_ready_queue s i)\<rparr>)"

section \<open>The policy meets the contract\<close>

lemma ctx_ok_cpu_lt:
  assumes "ctx_ok s c" "cpu < PLAT_CPU_NUM"
  shows "\<not> of_nat PLAT_CPU_NUM \<le> target_cpu cpu c"
  using target_cpu_lt [OF assms] by (simp add: word_le_nat_alt PLAT_CPU_NUM_def)

lemma restated_via_same:
  assumes "same_sched s s1"
  shows "restated t st k s (upd_ctx t (\<lambda>c. c\<lparr>state := st, cpuid := k\<rparr>) s1\<lparr>rr_ready_queue := q\<rparr>)"
    "restated t st k s (upd_ctx t (\<lambda>c. c\<lparr>state := st, cpuid := k\<rparr>) s1\<lparr>pbrr_ready_queue := q'\<rparr>)"
proof -
  have "same_sched (upd_ctx t (\<lambda>c. c\<lparr>state := st, cpuid := k\<rparr>) s) (upd_ctx t (\<lambda>c. c\<lparr>state := st, cpuid := k\<rparr>) s1)"
    using same_sched_upd_both [OF assms, of "\<lambda>c. c\<lparr>state := st, cpuid := k\<rparr>" t]
    by (simp add: sched_view_def)
  then show "restated t st k s (upd_ctx t (\<lambda>c. c\<lparr>state := st, cpuid := k\<rparr>) s1\<lparr>rr_ready_queue := q\<rparr>)"
    "restated t st k s (upd_ctx t (\<lambda>c. c\<lparr>state := st, cpuid := k\<rparr>) s1\<lparr>pbrr_ready_queue := q'\<rparr>)"
    by (simp_all add: restated_def same_sched_def drop_queues_def)
qed

lemma enqueue_prefix:
  assumes "ctx_of s t = Some c" "fpu_state c \<noteq> None"
  obtains s1 where "(if b then save_and_release_fpu cpu t s else Inr s) = Inr s1" "same_sched s s1"
proof (cases b)
  case True
  then show ?thesis using that save_and_release_fpu_same [OF assms] by metis
qed (use that [of s] in simp)

lemma rr_enq_ok:
  assumes c: "ctx_of s t = Some c" "state c \<noteq> TS_READY" "th_type c \<noteq> TYPE_IDLE" "ctx_ok s c"
    and cpu: "cpu < PLAT_CPU_NUM"
  defines "k \<equiv> target_cpu cpu c"
  shows "\<exists>s'. rr_sched_enqueue cpu t s = Inr (0, s') \<and> restated t TS_READY k s s' \<and>
    rr_ready_queue s' = (rr_ready_queue s)(unat k := rr_ready_queue s (unat k) @ [t])"
proof -
  obtain s1 where s1: "(if k \<noteq> of_nat cpu then save_and_release_fpu cpu t s else Inr s) = Inr s1" "same_sched s s1"
    using enqueue_prefix [OF c(1) ctx_ok_fpu [OF c(4)]] by metis
  obtain c1 where c1: "ctx_of s1 t = Some c1" "sched_view c1 = sched_view c" using same_sched_ctx [OF s1(2) c(1)] .
  have q: "rr_ready_queue s1 = rr_ready_queue s" using s1(2) by (simp add: same_sched_def)
  define s' where "s' = (upd_ctx t (\<lambda>c. c\<lparr>state := TS_READY, cpuid := k\<rparr>) s1)
      \<lparr>rr_ready_queue := (rr_ready_queue s1)(unat k := rr_ready_queue s1 (unat k) @ [t])\<rparr>"
  have "\<not> prio c > MAX_PRIO" using c(4) by (simp add: ctx_ok_def not_less)
  moreover have "\<not> of_nat PLAT_CPU_NUM \<le> k" using ctx_ok_cpu_lt [OF c(4) cpu] by (simp add: k_def)
  moreover have "state c1 \<noteq> TS_READY" using sched_viewD [OF c1(2)] c(2) by simp
  ultimately have "rr_sched_enqueue cpu t s = Inr (0, s')"
    using c s1(1) c1(1)
    by (simp add: rr_sched_enqueue_def rr_sched_enqueue_nolock_def s'_def Let_def flip: target_cpu_def k_def)
  moreover have "restated t TS_READY k s s'" unfolding s'_def using restated_via_same(1) [OF s1(2)] .
  moreover have "rr_ready_queue s' = (rr_ready_queue s)(unat k := rr_ready_queue s (unat k) @ [t])"
    by (simp add: s'_def q)
  ultimately show ?thesis by blast
qed

lemma rr_enq_again:
  assumes c: "ctx_of s t = Some c" "state c = TS_READY" "th_type c \<noteq> TYPE_IDLE" "ctx_ok s c"
    and cpu: "cpu < PLAT_CPU_NUM"
  shows "\<exists>s'. rr_sched_enqueue cpu t s = Inr (- EINVAL, s') \<and> same_sched s s'"
proof -
  let ?k = "target_cpu cpu c"
  obtain s1 where s1: "(if ?k \<noteq> of_nat cpu then save_and_release_fpu cpu t s else Inr s) = Inr s1" "same_sched s s1"
    using enqueue_prefix [OF c(1) ctx_ok_fpu [OF c(4)]] by metis
  obtain c1 where c1: "ctx_of s1 t = Some c1" "sched_view c1 = sched_view c" using same_sched_ctx [OF s1(2) c(1)] .
  have "\<not> prio c > MAX_PRIO" using c(4) by (simp add: ctx_ok_def not_less)
  moreover have "\<not> of_nat PLAT_CPU_NUM \<le> ?k" using ctx_ok_cpu_lt [OF c(4) cpu] .
  moreover have "state c1 = TS_READY" using sched_viewD [OF c1(2)] c(2) by simp
  ultimately have "rr_sched_enqueue cpu t s = Inr (- EINVAL, s1)"
    using c s1(1) c1(1) by (simp add: rr_sched_enqueue_def rr_sched_enqueue_nolock_def Let_def flip: target_cpu_def)
  then show ?thesis using s1(2) by blast
qed

lemma rr_deq_ok:
  assumes c: "ctx_of s t = Some c" "state c = TS_READY"
  defines "s' \<equiv> (upd_ctx t (\<lambda>c. c\<lparr>state := TS_INTER\<rparr>) s)\<lparr>rr_ready_queue := (\<lambda>k. remove1 t (rr_ready_queue s k))\<rparr>"
  shows "rr_sched_dequeue_nolock t s = Inr (0, s')" "restated t TS_INTER (cpuid c) s s'"
    "mset (rr_ready_queue s' j) = mset (rr_ready_queue s j) - {#t#}"
proof -
  show "rr_sched_dequeue_nolock t s = Inr (0, s')" using c by (simp add: rr_sched_dequeue_nolock_def s'_def)
  show "restated t TS_INTER (cpuid c) s s'"
    using c by (simp add: restated_def same_sched_def s'_def sched_view_def)
  show "mset (rr_ready_queue s' j) = mset (rr_ready_queue s j) - {#t#}" by (simp add: s'_def)
qed

lemma rr_pick_ok:
  assumes rd: "\<forall>t\<in>set (rr_ready_queue s cpu). ready_on s t cpu"
    and f: "find (stack_usable cpu s) (rr_ready_queue s cpu) = Some t"
  shows "\<exists>s'. rr_sched_choose_thread cpu s = Inr (t, s') \<and> restated t TS_INTER (of_nat cpu) s s' \<and>
    rr_ready_queue s' = (\<lambda>j. remove1 t (rr_ready_queue s j)) \<and>
    (\<forall>j. mset (rr_ready_queue s' j) = mset (rr_ready_queue s j) - {#t#})"
proof -
  have "t \<in> set (rr_ready_queue s cpu)" using f by (auto simp: find_Some_iff)
  then obtain c where c: "ctx_of s t = Some c" "state c = TS_READY" "cpuid c = of_nat cpu"
    using rd by (auto simp: ready_on_def split: option.splits)
  have "\<forall>t\<in>set (rr_ready_queue s cpu). ctx_of s t \<noteq> None" using rd by (auto simp: ready_on_def split: option.splits)
  then have "find_next_runnable_thread_in_list cpu (rr_ready_queue s cpu) s = Inr (Some t)"
    using f by (simp add: find_next_runnable_eq)
  moreover have "rr_ready_queue s cpu \<noteq> []" using f by auto
  ultimately show ?thesis using rr_deq_ok [OF c(1,2)] c(3) by (simp add: rr_sched_choose_thread_def)
qed

lemma rr_pick_idle:
  assumes rd: "\<forall>t\<in>set (rr_ready_queue s cpu). ready_on s t cpu"
    and f: "find (stack_usable cpu s) (rr_ready_queue s cpu) = None"
  shows "rr_sched_choose_thread cpu s = Inr (Idle cpu, s)"
proof -
  have "\<forall>t\<in>set (rr_ready_queue s cpu). ctx_of s t \<noteq> None" using rd by (auto simp: ready_on_def split: option.splits)
  then show ?thesis using f by (simp add: rr_sched_choose_thread_def find_next_runnable_eq)
qed

interpretation rr: ready_queues rr_ready_queue rr_sched_enqueue rr_sched_dequeue rr_sched_choose_thread
proof
  fix s :: sched_state and t c cpu
  assume a: "ctx_of s t = Some c" "state c \<noteq> TS_READY" "th_type c \<noteq> TYPE_IDLE" "ctx_ok s c"
    "cpu < PLAT_CPU_NUM"
  from rr_enq_ok [OF this]
  show "\<exists>s'. rr_sched_enqueue cpu t s = Inr (0, s') \<and> restated t TS_READY (target_cpu cpu c) s s' \<and>
      (\<forall>j. j \<noteq> unat (target_cpu cpu c) \<longrightarrow> rr_ready_queue s' j = rr_ready_queue s j) \<and>
      mset (rr_ready_queue s' (unat (target_cpu cpu c))) =
        add_mset t (mset (rr_ready_queue s (unat (target_cpu cpu c))))"
    by fastforce
next
  fix s :: sched_state and t c
  assume "ctx_of s t = Some c" "state c = TS_READY" "th_type c \<noteq> TYPE_IDLE"
  then show "\<exists>s'. rr_sched_dequeue t s = Inr (0, s') \<and> restated t TS_INTER (cpuid c) s s' \<and>
      (\<forall>j. mset (rr_ready_queue s' j) = mset (rr_ready_queue s j) - {#t#})"
    using rr_deq_ok [of s t c] by (simp add: rr_sched_dequeue_def)
qed (use rr_enq_again rr_pick_ok in blast)+

text \<open>\<open>rr_sched\<close> is the common body, instantiated with this policy.\<close>

lemma rr_sched_policy:
  assumes "\<forall>t. current_threads s cpu = Some t \<longrightarrow> (\<exists>c. ctx_of s t = Some c \<and> ctx_ok s c)"
  shows "rr_sched cpu s = policy_sched rr_sched_enqueue rr_sched_choose_thread cpu s"
proof (cases "current_threads s cpu")
  case None
  then show ?thesis by (simp add: rr_sched_def policy_sched_def release_current_def)
next
  case (Some t)
  then obtain c k b where c: "ctx_of s t = Some c" "sc c = Some k" "sched_conts s k = Some b"
    using assms by (auto simp: ctx_ok_def split: option.splits)
  have pos: "b > 0 \<longleftrightarrow> b \<noteq> 0" by (simp add: word_gt_0)
  show ?thesis
    using Some c
    by (simp add: rr_sched_def policy_sched_def release_current_def budget_of_def refill_def
        rr_sched_refill_budget_def bug_on_def pos)
qed

end
