(* ===== verification/Sched_PBRR.thy ===== *)
theory Sched_PBRR
  imports Sched_RR
begin

text \<open>
  The priority-based round-robin policy of \<^verbatim>\<open>kernel/sched/policy_pbrr.c\<close>: one ready
  queue per CPU and priority, idle threads queued like any other at the lowest priority.
\<close>

section \<open>Operations\<close>

definition PRIO_NUM :: nat where "PRIO_NUM = 256"

definition pbrr_sched_enqueue_nolock :: "tid \<Rightarrow> u32 \<Rightarrow> sched_state \<Rightarrow> (s32 \<times> sched_state) res" where
  "pbrr_sched_enqueue_nolock t cpu s =
    bind_res (get_ctx s t) (\<lambda>c. let pr = unat (prio c); k = unat cpu in
      if state c = TS_READY then Inr (- EINVAL, s)
      else Inr (0, (upd_ctx t (\<lambda>c. c\<lparr>state := TS_READY, cpuid := cpu\<rparr>) s)
        \<lparr>pbrr_ready_queue := (pbrr_ready_queue s)(k :=
           (pbrr_ready_queue s k)(pr := pbrr_ready_queue s k pr @ [t]))\<rparr>))"

text \<open>An affinity outside the CPUs makes the code lock \<^verbatim>\<open>pbrr_ready_queue_lock[cpuid]\<close> out of range.\<close>

definition pbrr_sched_enqueue :: "nat \<Rightarrow> tid \<Rightarrow> sched_state \<Rightarrow> (s32 \<times> sched_state) res" where
  "pbrr_sched_enqueue local_cpu t s =
    bind_res (checked_ctx s t) (\<lambda>c.
      let cpu = (if affinity c = NO_AFF then of_nat local_cpu else word_of_int (affinity c)) :: u32 in
        if prio c > MAX_PRIO then Inr (- EINVAL, s)
        else bind_res (if cpu \<noteq> of_nat local_cpu then save_and_release_fpu local_cpu t s else Inr s) (\<lambda>s1.
          if unat cpu \<ge> PLAT_CPU_NUM then Inl Bad_Access
          else pbrr_sched_enqueue_nolock t cpu s1))"

definition pbrr_sched_dequeue_nolock :: "tid \<Rightarrow> sched_state \<Rightarrow> (s32 \<times> sched_state) res" where
  "pbrr_sched_dequeue_nolock t s =
    bind_res (get_ctx s t) (\<lambda>c.
      if state c \<noteq> TS_READY then Inr (- EINVAL, s)
      else Inr (0, (upd_ctx t (\<lambda>c. c\<lparr>state := TS_INTER\<rparr>) s)
        \<lparr>pbrr_ready_queue := (\<lambda>k p. remove1 t (pbrr_ready_queue s k p))\<rparr>))"

definition pbrr_sched_dequeue :: "tid \<Rightarrow> sched_state \<Rightarrow> (s32 \<times> sched_state) res" where
  "pbrr_sched_dequeue t s =
    bind_res (checked_ctx s t) (\<lambda>c.
      if unat (cpuid c) \<ge> PLAT_CPU_NUM \<or> unat (prio c) \<ge> PRIO_NUM then Inl Bad_Access
      else pbrr_sched_dequeue_nolock t s)"

text \<open>The loop over the priorities \<open>i < n\<close>, from the highest down.\<close>

fun pbrr_choose_below :: "nat \<Rightarrow> nat \<Rightarrow> sched_state \<Rightarrow> (tid \<times> sched_state) res" where
  "pbrr_choose_below cpu 0 s = Inl Bug_On"
| "pbrr_choose_below cpu (Suc i) s =
    (if pbrr_ready_queue s cpu i \<noteq> []
     then bind_res (find_next_runnable_thread_in_list cpu (pbrr_ready_queue s cpu i) s) (\<lambda>found.
       case found of None \<Rightarrow> pbrr_choose_below cpu i s
       | Some t \<Rightarrow> bind_res (pbrr_sched_dequeue_nolock t s) (\<lambda>(ret, s1).
           bug_on (ret \<noteq> 0) (Inr (t, s1))))
     else pbrr_choose_below cpu i s)"

definition pbrr_sched_choose_thread :: "nat \<Rightarrow> sched_state \<Rightarrow> (tid \<times> sched_state) res" where
  "pbrr_sched_choose_thread cpu s = pbrr_choose_below cpu PRIO_NUM s"

definition pbrr_sched_refill_budget :: "tid \<Rightarrow> u32 \<Rightarrow> sched_state \<Rightarrow> sched_state res" where
  "pbrr_sched_refill_budget target budget s =
    bind_res (get_ctx s target) (\<lambda>c. case sc c of None \<Rightarrow> Inl Bad_Access
      | Some k \<Rightarrow> bind_res (deref (sched_conts s) k) (\<lambda>_.
          Inr (s\<lparr>sched_conts := (sched_conts s)(k \<mapsto> budget)\<rparr>)))"

definition pbrr_sched :: "nat \<Rightarrow> sched_state \<Rightarrow> sched_state res" where
  "pbrr_sched cpu s =
    bind_res
      (case current_threads s cpu of None \<Rightarrow> Inr (True, s)
       | Some old \<Rightarrow> bind_res (get_ctx s old) (\<lambda>c. case sc c of None \<Rightarrow> Inl Bug_On
         | Some k \<Rightarrow> bug_on (state c \<noteq> TS_RUNNING \<and> state c \<noteq> TS_WAITING)
             (if state c = TS_RUNNING
              then bind_res (deref (sched_conts s) k) (\<lambda>budget.
                if budget \<noteq> 0 then Inr (False, s)
                else bind_res (pbrr_sched_refill_budget old DEFAULT_BUDGET s) (\<lambda>s1.
                  bind_res (pbrr_sched_enqueue cpu old (upd_ctx old (\<lambda>c. c\<lparr>state := TS_INTER\<rparr>) s1)) (\<lambda>(ret, s2).
                    bug_on (ret \<noteq> 0) (Inr (True, s2)))))
              else Inr (True, s))))
      (\<lambda>(go, s1). if \<not> go then Inr s1
        else bind_res (pbrr_sched_choose_thread cpu s1) (\<lambda>(new, s2). switch_to_thread cpu new s2))"

text \<open>
  The idle threads are enqueued right after they are set up; the result of
  \<^verbatim>\<open>sched_enqueue\<close> is ignored.
\<close>

fun pbrr_init_idle_threads ::
  "nat \<Rightarrow> (nat \<Rightarrow> bool) \<Rightarrow> (nat \<Rightarrow> nat) \<Rightarrow> u64 \<Rightarrow> nat \<Rightarrow> nat list \<Rightarrow> sched_state \<Rightarrow> sched_state res" where
  "pbrr_init_idle_threads cpu stacks scs func grp [] s = Inr s"
| "pbrr_init_idle_threads cpu stacks scs func grp (i # is) s =
    bind_res (init_idle_thread (stacks i) (scs i) func grp i s) (\<lambda>s1.
    bind_res (pbrr_sched_enqueue cpu (Idle i) s1) (\<lambda>(_, s2).
      pbrr_init_idle_threads cpu stacks scs func grp is s2))"

definition pbrr_sched_init ::
  "nat \<Rightarrow> (nat \<Rightarrow> bool) \<Rightarrow> (nat \<Rightarrow> nat) \<Rightarrow> u64 \<Rightarrow> nat \<Rightarrow> sched_state \<Rightarrow> sched_state res" where
  "pbrr_sched_init cpu stacks scs func grp s =
    pbrr_init_idle_threads cpu stacks scs func grp [0..<PLAT_CPU_NUM]
      (s\<lparr>current_threads := (\<lambda>i. if i < PLAT_CPU_NUM then None else current_threads s i),
         pbrr_ready_queue := (\<lambda>i j. if i < PLAT_CPU_NUM \<and> j < PRIO_NUM then [] else pbrr_ready_queue s i j)\<rparr>)"

section \<open>The policy meets the contract\<close>

text \<open>All ready threads of a CPU in the order of their priority.\<close>

fun prio_list :: "(nat \<Rightarrow> tid list) \<Rightarrow> nat \<Rightarrow> tid list" where
  "prio_list q 0 = []"
| "prio_list q (Suc i) = q i @ prio_list q i"

definition pbrr_queued :: "sched_state \<Rightarrow> nat \<Rightarrow> tid list" where
  "pbrr_queued s cpu = prio_list (pbrr_ready_queue s cpu) PRIO_NUM"

lemma prio_list_cong: "(\<And>i. i < n \<Longrightarrow> q i = q' i) \<Longrightarrow> prio_list q n = prio_list q' n"
  by (induction n) auto

lemma prio_list_append: "p < n \<Longrightarrow> mset (prio_list (q(p := q p @ [t])) n) = add_mset t (mset (prio_list q n))"
proof (induction n)
  case (Suc n)
  then show ?case by (cases "p = n") (auto cong: prio_list_cong)
qed simp

lemma prio_list_remove: "distinct (prio_list q n) \<Longrightarrow>
    mset (prio_list (\<lambda>p. remove1 t (q p)) n) = mset (prio_list q n) - {#t#}"
proof (induction n)
  case (Suc n)
  then have IH: "mset (prio_list (\<lambda>p. remove1 t (q p)) n) = mset (prio_list q n) - {#t#}" by simp
  show ?case
  proof (cases "t \<in> set (q n)")
    case True
    then have "t \<notin> set (prio_list q n)" using Suc.prems by auto
    then show ?thesis using IH True by simp
  next
    case False
    then have "mset (q n) + (mset (prio_list q n) - {#t#}) = mset (q n) + mset (prio_list q n) - {#t#}"
      by (intro multiset_eqI) (auto simp: count_eq_zero_iff [THEN iffD2])
    then show ?thesis using IH False by (simp add: remove1_idem)
  qed
qed simp

lemma pbrr_choose_below_Some:
  assumes "\<forall>t\<in>set (prio_list (pbrr_ready_queue s cpu) n). ctx_of s t \<noteq> None"
    and "find (stack_usable cpu s) (prio_list (pbrr_ready_queue s cpu) n) = Some t"
  shows "pbrr_choose_below cpu n s =
    bind_res (pbrr_sched_dequeue_nolock t s) (\<lambda>(ret, s1). bug_on (ret \<noteq> 0) (Inr (t, s1)))"
  using assms
proof (induction n)
  case (Suc n)
  have all: "\<forall>t\<in>set (pbrr_ready_queue s cpu n). ctx_of s t \<noteq> None" using Suc.prems(1) by simp
  show ?case
  proof (cases "find (stack_usable cpu s) (pbrr_ready_queue s cpu n)")
    case None
    then have "\<forall>x\<in>set (pbrr_ready_queue s cpu n). \<not> stack_usable cpu s x" by (auto simp: find_None_iff)
    then have "find (stack_usable cpu s) (prio_list (pbrr_ready_queue s cpu) n) = Some t"
      using Suc.prems(2) by (simp add: find_append None)
    then show ?thesis using Suc.IH Suc.prems(1) None by (simp add: find_next_runnable_eq [OF all])
  next
    case (Some u)
    then have "u = t" using Suc.prems(2) by (simp add: find_append)
    moreover have "pbrr_ready_queue s cpu n \<noteq> []" using Some by auto
    ultimately show ?thesis using Some by (simp add: find_next_runnable_eq [OF all])
  qed
qed simp

lemma pbrr_choose_below_None:
  assumes "\<forall>t\<in>set (prio_list (pbrr_ready_queue s cpu) n). ctx_of s t \<noteq> None"
    and "find (stack_usable cpu s) (prio_list (pbrr_ready_queue s cpu) n) = None"
  shows "pbrr_choose_below cpu n s = Inl Bug_On"
  using assms
proof (induction n)
  case (Suc n)
  have all: "\<forall>t\<in>set (pbrr_ready_queue s cpu n). ctx_of s t \<noteq> None" using Suc.prems(1) by simp
  have "find (stack_usable cpu s) (pbrr_ready_queue s cpu n) = None"
    "find (stack_usable cpu s) (prio_list (pbrr_ready_queue s cpu) n) = None"
    using Suc.prems(2) by (auto simp: find_None_iff)
  then show ?case using Suc.IH Suc.prems(1) by (simp add: find_next_runnable_eq [OF all])
qed simp

lemma pbrr_enq_ok:
  assumes c: "ctx_of s t = Some c" "state c \<noteq> TS_READY" "ctx_ok s c"
    and cpu: "cpu < PLAT_CPU_NUM"
  defines "k \<equiv> target_cpu cpu c" and "p \<equiv> unat (prio c)"
  shows "\<exists>s'. pbrr_sched_enqueue cpu t s = Inr (0, s') \<and> restated t TS_READY k s s' \<and>
    pbrr_ready_queue s' = (pbrr_ready_queue s)(unat k :=
      (pbrr_ready_queue s (unat k))(p := pbrr_ready_queue s (unat k) p @ [t]))"
proof -
  obtain s1 where s1: "(if k \<noteq> of_nat cpu then save_and_release_fpu cpu t s else Inr s) = Inr s1" "same_sched s s1"
    using enqueue_prefix [OF c(1) ctx_ok_fpu [OF c(3)]] by metis
  obtain c1 where c1: "ctx_of s1 t = Some c1" "sched_view c1 = sched_view c" using same_sched_ctx [OF s1(2) c(1)] .
  have v: "state c1 = state c" "prio c1 = prio c" using sched_viewD [OF c1(2)] by simp_all
  have q: "pbrr_ready_queue s1 = pbrr_ready_queue s" using s1(2) by (simp add: same_sched_def)
  define s' where "s' = (upd_ctx t (\<lambda>c. c\<lparr>state := TS_READY, cpuid := k\<rparr>) s1)
      \<lparr>pbrr_ready_queue := (pbrr_ready_queue s1)(unat k :=
        (pbrr_ready_queue s1 (unat k))(p := pbrr_ready_queue s1 (unat k) p @ [t]))\<rparr>"
  have "\<not> prio c > MAX_PRIO" using c(3) by (simp add: ctx_ok_def not_less)
  moreover have "\<not> PLAT_CPU_NUM \<le> unat k" using target_cpu_lt [OF c(3) cpu] by (simp add: k_def)
  ultimately have "pbrr_sched_enqueue cpu t s = Inr (0, s')"
    using c s1(1) c1(1) v
    by (simp add: pbrr_sched_enqueue_def pbrr_sched_enqueue_nolock_def s'_def Let_def p_def flip: target_cpu_def k_def)
  moreover have "restated t TS_READY k s s'" unfolding s'_def using restated_via_same(2) [OF s1(2)] .
  moreover have "pbrr_ready_queue s' = (pbrr_ready_queue s)(unat k :=
      (pbrr_ready_queue s (unat k))(p := pbrr_ready_queue s (unat k) p @ [t]))"
    by (simp add: s'_def q)
  ultimately show ?thesis by blast
qed

lemma pbrr_enq_again:
  assumes c: "ctx_of s t = Some c" "state c = TS_READY" "ctx_ok s c"
    and cpu: "cpu < PLAT_CPU_NUM"
  shows "\<exists>s'. pbrr_sched_enqueue cpu t s = Inr (- EINVAL, s') \<and> same_sched s s'"
proof -
  let ?k = "target_cpu cpu c"
  obtain s1 where s1: "(if ?k \<noteq> of_nat cpu then save_and_release_fpu cpu t s else Inr s) = Inr s1" "same_sched s s1"
    using enqueue_prefix [OF c(1) ctx_ok_fpu [OF c(3)]] by metis
  obtain c1 where c1: "ctx_of s1 t = Some c1" "sched_view c1 = sched_view c" using same_sched_ctx [OF s1(2) c(1)] .
  have "\<not> prio c > MAX_PRIO" using c(3) by (simp add: ctx_ok_def not_less)
  moreover have "\<not> PLAT_CPU_NUM \<le> unat ?k" using target_cpu_lt [OF c(3) cpu] by simp
  moreover have "state c1 = TS_READY" using sched_viewD [OF c1(2)] c(2) by simp
  ultimately have "pbrr_sched_enqueue cpu t s = Inr (- EINVAL, s1)"
    using c s1(1) c1(1) by (simp add: pbrr_sched_enqueue_def pbrr_sched_enqueue_nolock_def Let_def flip: target_cpu_def)
  then show ?thesis using s1(2) by blast
qed

lemma pbrr_deq_ok:
  assumes c: "ctx_of s t = Some c" "state c = TS_READY" and d: "\<forall>j. distinct (pbrr_queued s j)"
  defines "s' \<equiv> (upd_ctx t (\<lambda>c. c\<lparr>state := TS_INTER\<rparr>) s)
    \<lparr>pbrr_ready_queue := (\<lambda>k p. remove1 t (pbrr_ready_queue s k p))\<rparr>"
  shows "pbrr_sched_dequeue_nolock t s = Inr (0, s')" "restated t TS_INTER (cpuid c) s s'"
    "mset (pbrr_queued s' j) = mset (pbrr_queued s j) - {#t#}"
proof -
  show "pbrr_sched_dequeue_nolock t s = Inr (0, s')" using c by (simp add: pbrr_sched_dequeue_nolock_def s'_def)
  show "restated t TS_INTER (cpuid c) s s'"
    using c by (simp add: restated_def same_sched_def s'_def sched_view_def)
  show "mset (pbrr_queued s' j) = mset (pbrr_queued s j) - {#t#}"
    using prio_list_remove d by (simp add: pbrr_queued_def s'_def)
qed

lemma pbrr_pick_ok:
  assumes rd: "\<forall>t\<in>set (pbrr_queued s cpu). ready_on s t cpu" and d: "\<forall>j. distinct (pbrr_queued s j)"
    and f: "find (stack_usable cpu s) (pbrr_queued s cpu) = Some t"
  shows "\<exists>s'. pbrr_sched_choose_thread cpu s = Inr (t, s') \<and> restated t TS_INTER (of_nat cpu) s s' \<and>
    (\<forall>j. mset (pbrr_queued s' j) = mset (pbrr_queued s j) - {#t#})"
proof -
  have "t \<in> set (pbrr_queued s cpu)" using f by (auto simp: find_Some_iff)
  then obtain c where c: "ctx_of s t = Some c" "state c = TS_READY" "cpuid c = of_nat cpu"
    using rd by (auto simp: ready_on_def split: option.splits)
  have "\<forall>t\<in>set (pbrr_queued s cpu). ctx_of s t \<noteq> None" using rd by (auto simp: ready_on_def split: option.splits)
  then have "pbrr_sched_choose_thread cpu s =
      bind_res (pbrr_sched_dequeue_nolock t s) (\<lambda>(ret, s1). bug_on (ret \<noteq> 0) (Inr (t, s1)))"
    using f pbrr_choose_below_Some by (simp add: pbrr_queued_def pbrr_sched_choose_thread_def)
  then show ?thesis using pbrr_deq_ok [OF c(1,2) d] c(3) by simp
qed

lemma prio_small: "ctx_ok s c \<Longrightarrow> unat (prio c) < PRIO_NUM"
  by (simp add: ctx_ok_def MAX_PRIO_def PRIO_NUM_def word_le_nat_alt)

interpretation pbrr: ready_queues pbrr_queued pbrr_sched_enqueue pbrr_sched_dequeue pbrr_sched_choose_thread
proof
  fix s s' :: sched_state
  assume "pbrr_ready_queue s' = pbrr_ready_queue s"
  then show "pbrr_queued s' = pbrr_queued s" by (intro ext) (simp add: pbrr_queued_def)
next
  fix s :: sched_state and t c cpu
  assume a: "ctx_of s t = Some c" "state c \<noteq> TS_READY" "th_type c \<noteq> TYPE_IDLE" "ctx_ok s c"
    "cpu < PLAT_CPU_NUM"
  from pbrr_enq_ok [OF a(1,2,4,5)]
  show "\<exists>s'. pbrr_sched_enqueue cpu t s = Inr (0, s') \<and> restated t TS_READY (target_cpu cpu c) s s' \<and>
      (\<forall>j. j \<noteq> unat (target_cpu cpu c) \<longrightarrow> pbrr_queued s' j = pbrr_queued s j) \<and>
      mset (pbrr_queued s' (unat (target_cpu cpu c))) =
        add_mset t (mset (pbrr_queued s (unat (target_cpu cpu c))))"
    using prio_list_append [OF prio_small [OF a(4)]] by (fastforce simp: pbrr_queued_def)
next
  fix s :: sched_state and t c
  assume "ctx_of s t = Some c" "state c = TS_READY" "ctx_ok s c" "unat (cpuid c) < PLAT_CPU_NUM"
    "\<forall>j. distinct (pbrr_queued s j)"
  then show "\<exists>s'. pbrr_sched_dequeue t s = Inr (0, s') \<and> restated t TS_INTER (cpuid c) s s' \<and>
      (\<forall>j. mset (pbrr_queued s' j) = mset (pbrr_queued s j) - {#t#})"
    using pbrr_deq_ok [of s t c] prio_small [of s c] by (simp add: pbrr_sched_dequeue_def)
qed (use pbrr_enq_again pbrr_pick_ok in blast)+

lemma pbrr_sched_policy:
  assumes "\<forall>t. current_threads s cpu = Some t \<longrightarrow> (\<exists>c. ctx_of s t = Some c \<and> ctx_ok s c)"
  shows "pbrr_sched cpu s = policy_sched pbrr_sched_enqueue pbrr_sched_choose_thread cpu s"
proof (cases "current_threads s cpu")
  case None
  then show ?thesis by (simp add: pbrr_sched_def policy_sched_def release_current_def)
next
  case (Some t)
  then obtain c k b where c: "ctx_of s t = Some c" "sc c = Some k" "sched_conts s k = Some b"
    using assms by (auto simp: ctx_ok_def split: option.splits)
  show ?thesis
    using Some c
    by (simp add: pbrr_sched_def policy_sched_def release_current_def budget_of_def refill_def
        pbrr_sched_refill_budget_def bug_on_def)
qed

section \<open>Priorities\<close>

lemma prio_list_mem: "t \<in> set (prio_list q n) \<longleftrightarrow> (\<exists>p<n. t \<in> set (q p))"
  by (induction n) (auto simp: less_Suc_eq)

lemma find_prio_list:
  "find P (prio_list q n) = Some t \<Longrightarrow> \<exists>p<n. find P (q p) = Some t \<and> (\<forall>r. p < r \<longrightarrow> r < n \<longrightarrow> find P (q r) = None)"
proof (induction n)
  case (Suc n)
  show ?case
  proof (cases "find P (q n)")
    case None
    then have "find P (prio_list q n) = Some t" using Suc.prems by (simp add: find_append)
    then obtain p where p: "p < n" "find P (q p) = Some t" "\<forall>r. p < r \<longrightarrow> r < n \<longrightarrow> find P (q r) = None"
      using Suc.IH by blast
    then have "\<forall>r. p < r \<longrightarrow> r < Suc n \<longrightarrow> find P (q r) = None" using None less_Suc_eq by auto
    then show ?thesis using p by (intro exI [of _ p]) simp
  next
    case (Some u)
    then show ?thesis using Suc.prems by (intro exI [of _ n]) (auto simp: find_append)
  qed
qed simp

lemma find_prio_list_None: "find P (prio_list q n) = None \<Longrightarrow> p < n \<Longrightarrow> find P (q p) = None"
  by (induction n) (auto simp: find_append less_Suc_eq split: option.splits)

text \<open>
  C15: \<^verbatim>\<open>pbrr_sched_choose_thread\<close> takes the first thread with a usable kernel stack in
  the queue of the highest priority that has one, removes it from the queue, and hits its
  \<^verbatim>\<open>BUG_ON\<close> only when no queued thread of the CPU can run.
\<close>

theorem pbrr_picks_highest:
  assumes "\<forall>p<PRIO_NUM. \<forall>t\<in>set (pbrr_ready_queue s cpu p). \<exists>c. ctx_of s t = Some c \<and> state c = TS_READY"
  shows "case pbrr_sched_choose_thread cpu s of
      Inr (t, s') \<Rightarrow> \<exists>p<PRIO_NUM. find (stack_usable cpu s) (pbrr_ready_queue s cpu p) = Some t \<and>
        (\<forall>r. p < r \<longrightarrow> r < PRIO_NUM \<longrightarrow> find (stack_usable cpu s) (pbrr_ready_queue s cpu r) = None) \<and>
        pbrr_ready_queue s' cpu p = remove1 t (pbrr_ready_queue s cpu p)
    | Inl e \<Rightarrow> e = Bug_On \<and> (\<forall>p<PRIO_NUM. \<forall>t\<in>set (pbrr_ready_queue s cpu p). \<not> stack_usable cpu s t)"
proof -
  have all: "\<forall>t\<in>set (prio_list (pbrr_ready_queue s cpu) PRIO_NUM). ctx_of s t \<noteq> None"
  proof
    fix t assume "t \<in> set (prio_list (pbrr_ready_queue s cpu) PRIO_NUM)"
    then obtain p where "p < PRIO_NUM" "t \<in> set (pbrr_ready_queue s cpu p)" by (auto simp: prio_list_mem)
    then show "ctx_of s t \<noteq> None" using assms by force
  qed
  show ?thesis
  proof (cases "find (stack_usable cpu s) (prio_list (pbrr_ready_queue s cpu) PRIO_NUM)")
    case None
    then have "find (stack_usable cpu s) (pbrr_ready_queue s cpu p) = None" if "p < PRIO_NUM" for p
      using find_prio_list_None that by blast
    then show ?thesis
      using pbrr_choose_below_None [OF all None] by (auto simp: pbrr_sched_choose_thread_def find_None_iff)
  next
    case (Some t)
    obtain p where p: "p < PRIO_NUM" "find (stack_usable cpu s) (pbrr_ready_queue s cpu p) = Some t"
      "\<forall>r. p < r \<longrightarrow> r < PRIO_NUM \<longrightarrow> find (stack_usable cpu s) (pbrr_ready_queue s cpu r) = None"
      using find_prio_list [OF Some] by blast
    have "t \<in> set (pbrr_ready_queue s cpu p)" using p(2) by (auto simp: find_Some_iff)
    then obtain c where "ctx_of s t = Some c" "state c = TS_READY" using assms p(1) by blast
    then have "pbrr_sched_choose_thread cpu s = Inr (t, (upd_ctx t (\<lambda>c. c\<lparr>state := TS_INTER\<rparr>) s)
        \<lparr>pbrr_ready_queue := (\<lambda>k p. remove1 t (pbrr_ready_queue s k p))\<rparr>)"
      using pbrr_choose_below_Some [OF all Some] by (simp add: pbrr_sched_choose_thread_def pbrr_sched_dequeue_nolock_def)
    then show ?thesis using p by auto
  qed
qed

definition demo_pbrr :: sched_state where
  "demo_pbrr = \<lparr>threads = [Thread 0 \<mapsto> \<lparr>thread_ctx = Some (zero_ctx\<lparr>state := TS_READY, prio := 9\<rparr>), prev_thread = No_Prev,
      th_vmspace = None, th_cap_group = None, general_ipc_config = None,
      sleep_state = \<lparr>wakeup_tick = 0, sleep_cpu = 0, pending_notific = None, cb = None\<rparr>\<rparr>],
    current_threads = (\<lambda>_. None), cpu_info = (\<lambda>_. \<lparr>fpu_owner = None, fpu_disable = 0\<rparr>),
    fpu_regs = (\<lambda>_. \<lparr>q_regs = (\<lambda>_. 0), r_fpcr = 0, r_fpsr = 0\<rparr>), cpacr_el1 = (\<lambda>_. 0), tpidr_el0 = (\<lambda>_. 0),
    ttbr0_el1 = (\<lambda>_. None), history_cpus = (\<lambda>_ _. False), sched_conts = (\<lambda>_. None),
    rr_ready_queue = (\<lambda>_. []), pbrr_ready_queue = (\<lambda>_ p. if p = 9 then [Thread 0] else []), cur_sched_ops = PBRR\<rparr>"

theorem pbrr_picks_highest_witness:
  "\<exists>s'. pbrr_sched_choose_thread 0 demo_pbrr = Inr (Thread 0, s') \<and> pbrr_ready_queue s' 0 9 = []"
proof -
  have h: "\<forall>p<PRIO_NUM. \<forall>t\<in>set (pbrr_ready_queue demo_pbrr 0 p). \<exists>c. ctx_of demo_pbrr t = Some c \<and> state c = TS_READY"
    by (simp add: demo_pbrr_def ctx_of_def)
  have u: "stack_usable 0 demo_pbrr (Thread 0)" by (simp add: stack_usable_def demo_pbrr_def ctx_of_def zero_ctx_def)
  have q: "pbrr_ready_queue demo_pbrr 0 p = (if p = 9 then [Thread 0] else [])" for p by (simp add: demo_pbrr_def)
  have "(9::nat) < PRIO_NUM" by (simp add: PRIO_NUM_def)
  then show ?thesis
    using pbrr_picks_highest [OF h] u
    by (cases "pbrr_sched_choose_thread 0 demo_pbrr") (auto simp: q split: if_splits)
qed

end
