(* ===== verification/Sched_Smp.thy ===== *)
theory Sched_Smp
  imports Ready_Queues
begin

text \<open>
  Four CPUs scheduling at once. A CPU enters the scheduler, switches to another thread, and only
  later, on its way back to user mode, leaves the kernel stack of the thread it left
  (\<^verbatim>\<open>finish_switch\<close>). In between other CPUs may wake that thread and even find it in
  their ready queue. The invariant below says why no thread is ever run by two CPUs: a running
  thread's stack is locked, and a thread left behind stays locked until its CPU is off the stack.
\<close>

section \<open>Ownership of threads by CPUs\<close>

definition stack_locked :: "sched_state \<Rightarrow> tid \<Rightarrow> bool" where
  "stack_locked s t = (case ctx_of s t of None \<Rightarrow> False | Some c \<Rightarrow> kernel_stack_state c = KS_LOCKED)"

definition runs_on :: "sched_state \<Rightarrow> tid \<Rightarrow> nat \<Rightarrow> bool" where
  "runs_on s t k = (case ctx_of s t of None \<Rightarrow> False | Some c \<Rightarrow> state c = TS_RUNNING \<and> cpuid c = of_nat k)"

definition assigned_to :: "sched_state \<Rightarrow> tid \<Rightarrow> nat \<Rightarrow> bool" where
  "assigned_to s t k = (case ctx_of s t of None \<Rightarrow> False | Some c \<Rightarrow> cpuid c = of_nat k)"

text \<open>
  \<open>left_behind pend s k p\<close>: CPU \<open>k\<close> is on its way out of the kernel and still uses the stack of the
  thread \<open>p\<close> it switched away from.
\<close>

definition left_behind :: "(nat \<Rightarrow> bool) \<Rightarrow> sched_state \<Rightarrow> nat \<Rightarrow> tid \<Rightarrow> bool" where
  "left_behind pend s k p = (pend k \<and> (case current_threads s k of None \<Rightarrow> False | Some t \<Rightarrow> prev_of s t = Prev p))"

text \<open>\<open>X\<close> holds the CPU that is inside the scheduler, whose current thread may already be requeued.\<close>

definition owner_inv :: "(nat \<Rightarrow> bool) \<Rightarrow> nat set \<Rightarrow> sched_state \<Rightarrow> bool" where
  "owner_inv pend X s = (
    (\<forall>k t. current_threads s k = Some t \<longrightarrow> k < PLAT_CPU_NUM \<and> stack_locked s t \<and>
      (k \<notin> X \<longrightarrow> runs_on s t k) \<and> (\<forall>i. t = Idle i \<longrightarrow> i = k \<and> assigned_to s t k)) \<and>
    (\<forall>j k t. current_threads s j = Some t \<longrightarrow> current_threads s k = Some t \<longrightarrow> j = k) \<and>
    (\<forall>k p. left_behind pend s k p \<longrightarrow> stack_locked s p \<and> (\<forall>i. p = Idle i \<longrightarrow> i = k) \<and>
      (\<forall>j. current_threads s j \<noteq> Some p) \<and> (\<forall>j. left_behind pend s j p \<longrightarrow> j = k)))"

definition ctxs_ok :: "sched_state \<Rightarrow> bool" where
  "ctxs_ok s = ((\<forall>t c. ctx_of s t = Some c \<longrightarrow> ctx_ok s c \<and> (th_type c = TYPE_IDLE \<longleftrightarrow> (\<exists>i. t = Idle i))) \<and>
    (\<forall>i c. ctx_of s (Idle i) = Some c \<longrightarrow> state c \<noteq> TS_READY) \<and>
    (\<forall>i<PLAT_CPU_NUM. ctx_of s (Idle i) \<noteq> None))"

lemma stack_locked_view: "view s' t = view s t \<Longrightarrow> stack_locked s' t = stack_locked s t"
  by (cases "ctx_of s t"; cases "ctx_of s' t") (auto simp: stack_locked_def dest: sched_viewD)

lemma runs_on_view: "view s' t = view s t \<Longrightarrow> runs_on s' t k = runs_on s t k"
  by (cases "ctx_of s t"; cases "ctx_of s' t") (auto simp: runs_on_def dest: sched_viewD)

lemma assigned_view: "view s' t = view s t \<Longrightarrow> assigned_to s' t k = assigned_to s t k"
  by (cases "ctx_of s t"; cases "ctx_of s' t") (auto simp: assigned_to_def dest: sched_viewD)

lemma owner_inv_cong:
  assumes o: "owner_inv pend X s" and cur: "current_threads s' = current_threads s"
    and pr: "\<And>u. prev_of s' u = prev_of s u" and lk: "\<And>u. stack_locked s' u = stack_locked s u"
    and v: "\<And>k u. k \<notin> X \<Longrightarrow> current_threads s k = Some u \<Longrightarrow> runs_on s' u k = runs_on s u k"
    and i: "\<And>i k. assigned_to s' (Idle i) k = assigned_to s (Idle i) k"
  shows "owner_inv pend X s'"
proof -
  have "left_behind pend s' = left_behind pend s"
    unfolding left_behind_def cur pr ..
  then show ?thesis using o v i by (auto simp: owner_inv_def cur lk)
qed

lemma owner_inv_view:
  assumes "owner_inv pend X s" "current_threads s' = current_threads s"
    "\<And>u. prev_of s' u = prev_of s u" "\<And>u. view s' u = view s u"
  shows "owner_inv pend X s'"
  using assms(1,2,3) stack_locked_view [OF assms(4)] runs_on_view [OF assms(4)] assigned_view [OF assms(4)]
  by (rule owner_inv_cong)

text \<open>The part of a context that no scheduling operation changes.\<close>

definition cfg :: "thread_ctx \<Rightarrow> nat option \<times> thread_type \<times> u32 \<times> s32 \<times> bool" where
  "cfg c = (sc c, th_type c, prio c, affinity c, fpu_state c = None)"

lemma cfg_view: "view s' t = view s t \<Longrightarrow> map_option cfg (ctx_of s' t) = map_option cfg (ctx_of s t)"
  by (cases "ctx_of s t"; cases "ctx_of s' t") (auto simp: cfg_def dest: sched_viewD)

lemma ctxs_ok_cong:
  assumes o: "ctxs_ok s" and ss: "\<And>u. map_option cfg (ctx_of s' u) = map_option cfg (ctx_of s u)"
    and idle: "\<And>i c. ctx_of s' (Idle i) = Some c \<Longrightarrow> state c \<noteq> TS_READY"
    and sc: "\<forall>k. sched_conts s k \<noteq> None \<longrightarrow> sched_conts s' k \<noteq> None"
  shows "ctxs_ok s'"
  unfolding ctxs_ok_def
proof (intro conjI allI impI)
  fix t c assume c: "ctx_of s' t = Some c"
  then have "map_option cfg (ctx_of s t) = Some (cfg c)" using ss [of t] by simp
  then obtain c0 where c0: "ctx_of s t = Some c0" "cfg c0 = cfg c" by auto
  have ok: "ctx_ok s c0" "th_type c0 = TYPE_IDLE \<longleftrightarrow> (\<exists>i. t = Idle i)" using o c0(1) by (auto simp: ctxs_ok_def)
  then show "ctx_ok s' c" using c0(2) sc by (auto simp: ctx_ok_def cfg_def split: option.splits)
  show "th_type c = TYPE_IDLE \<longleftrightarrow> (\<exists>i. t = Idle i)" using ok c0(2) by (simp add: cfg_def)
next
  fix i assume i: "i < PLAT_CPU_NUM"
  then obtain c where c: "ctx_of s (Idle i) = Some c" using o by (auto simp: ctxs_ok_def)
  then have "map_option cfg (ctx_of s' (Idle i)) = Some (cfg c)" using ss [of "Idle i"] by simp
  then show "ctx_of s' (Idle i) \<noteq> None" by auto
qed (rule idle)

lemma ctxs_ok_view:
  assumes o: "ctxs_ok s" and ss: "\<And>u. view s' u = view s u" and sc: "sched_conts s' = sched_conts s"
  shows "ctxs_ok s'"
proof (rule ctxs_ok_cong [OF o cfg_view [OF ss]])
  fix i c assume c: "ctx_of s' (Idle i) = Some c"
  obtain c0 where c0: "ctx_of s (Idle i) = Some c0" "sched_view c0 = sched_view c"
    using view_SomeD [OF ss [symmetric] c] by blast
  show "state c \<noteq> TS_READY" using o c0(1) sched_viewD [OF c0(2)] by (auto simp: ctxs_ok_def)
qed (simp add: sc)

section \<open>The switch\<close>

lemma owner_not_current:
  assumes o: "owner_inv pend X s" and t: "\<not> stack_locked s t \<or> t = Idle k" "current_threads s k \<noteq> Some t"
  shows "current_threads s j \<noteq> Some t"
  using assms by (auto simp: owner_inv_def)

lemma left_behind_switched:
  assumes n: "current_threads s k \<noteq> Some t" "\<forall>j. current_threads s j \<noteq> Some t" and th: "threads s t \<noteq> None"
  shows "left_behind (pend(k := True)) (switched k t s) j p \<longleftrightarrow>
    (if j = k then current_threads s k = Some p else left_behind pend s j p)"
proof (cases "j = k")
  case True
  then show ?thesis using n th by (simp add: left_behind_def prev_of_switched split: option.splits)
next
  case False
  show ?thesis
  proof (cases "current_threads s j")
    case (Some u)
    then have "u \<noteq> t" using n by auto
    then show ?thesis using False Some th by (simp add: left_behind_def prev_of_switched)
  qed (use False in \<open>simp add: left_behind_def\<close>)
qed

lemma stack_locked_switched:
  "ctx_of s t = Some x \<Longrightarrow> stack_locked (switched k t s) u =
    (if u = t \<and> current_threads s k \<noteq> Some t then True else stack_locked s u)"
  by (auto simp: stack_locked_def ctx_of_switched split: option.splits)

lemma runs_on_switched_other: "u \<noteq> t \<Longrightarrow> runs_on (switched k t s) u j = runs_on s u j"
  by (simp add: runs_on_def ctx_of_switched)

lemma assigned_switched_other: "u \<noteq> t \<Longrightarrow> assigned_to (switched k t s) u j = assigned_to s u j"
  by (simp add: assigned_to_def ctx_of_switched)

lemma owner_switched_new:
  assumes o: "owner_inv pend {k} s" and k: "k < PLAT_CPU_NUM" "\<not> pend k" and x: "ctx_of s t = Some x"
    and t: "\<not> stack_locked s t \<or> t = Idle k" "current_threads s k \<noteq> Some t" "\<forall>i. t = Idle i \<longrightarrow> i = k"
  shows "owner_inv (pend(k := True)) {} (switched k t s)"
proof -
  have n: "current_threads s j \<noteq> Some t" for j using owner_not_current [OF o t(1,2)] .
  have th: "threads s t \<noteq> None" using ctx_of_threads [OF x] .
  have lb: "left_behind (pend(k := True)) (switched k t s) j p \<longleftrightarrow>
    (if j = k then current_threads s k = Some p else left_behind pend s j p)" for j p
    using left_behind_switched n th by blast
  have lbk: "\<not> left_behind pend s k p" for p using k(2) by (simp add: left_behind_def)
  note lk = stack_locked_switched [OF x, of k]
  have ron: "runs_on (switched k t s) t k" "assigned_to (switched k t s) t k"
    using x t(2) by (simp_all add: runs_on_def assigned_to_def ctx_of_switched)
  have A: "j < PLAT_CPU_NUM \<and> stack_locked (switched k t s) u \<and> runs_on (switched k t s) u j \<and>
      (\<forall>i. u = Idle i \<longrightarrow> i = j \<and> assigned_to (switched k t s) u j)"
    if cu: "current_threads (switched k t s) j = Some u" for j u
  proof (cases "j = k")
    case True
    then have "u = t" using cu by simp
    then show ?thesis using True k ron lk t by auto
  next
    case False
    then have "current_threads s j = Some u" "u \<noteq> t" using cu n by auto
    then show ?thesis using o False lk runs_on_switched_other assigned_switched_other by (auto simp: owner_inv_def)
  qed
  have B: "i = j" if "current_threads (switched k t s) i = Some u" "current_threads (switched k t s) j = Some u" for i j u
    using that n o by (auto simp: owner_inv_def split: if_splits)
  have pt: "p \<noteq> t" if "j \<noteq> k" "left_behind pend s j p" for j p
    using o that t by (auto simp: owner_inv_def)
  have C: "stack_locked (switched k t s) p \<and> (\<forall>i. p = Idle i \<longrightarrow> i = j) \<and>
      (\<forall>i. current_threads (switched k t s) i \<noteq> Some p) \<and>
      (\<forall>i. left_behind (pend(k := True)) (switched k t s) i p \<longrightarrow> i = j)"
    if lbp: "left_behind (pend(k := True)) (switched k t s) j p" for j p
  proof (cases "j = k")
    case True
    then have p: "current_threads s k = Some p" using lbp lb by simp
    then have f: "stack_locked s p" "\<forall>i. p = Idle i \<longrightarrow> i = k" "\<forall>i. current_threads s i = Some p \<longrightarrow> i = k"
      "\<forall>i. \<not> left_behind pend s i p" "p \<noteq> t"
      using o n by (auto simp: owner_inv_def)
    have "current_threads (switched k t s) i \<noteq> Some p" for i using f(3,5) by auto
    moreover have "i = k" if "left_behind (pend(k := True)) (switched k t s) i p" for i
      using that f(4) unfolding lb by (simp split: if_splits)
    moreover have "stack_locked (switched k t s) p" using f(1) by (simp add: lk)
    ultimately show ?thesis using True f(2) by blast
  next
    case False
    then have l: "left_behind pend s j p" using lbp lb by simp
    then have "stack_locked s p" "\<forall>i. p = Idle i \<longrightarrow> i = j" "\<forall>i. current_threads s i \<noteq> Some p"
      "\<forall>i. left_behind pend s i p \<longrightarrow> i = j" using o by (auto simp: owner_inv_def)
    then show ?thesis using False lb lk pt [OF False l] by auto
  qed
  show ?thesis
    unfolding owner_inv_def
  proof (intro conjI)
    show "\<forall>i j u. current_threads (switched k t s) i = Some u \<longrightarrow> current_threads (switched k t s) j = Some u \<longrightarrow> i = j"
      using B by blast
  qed (use A C in blast)+
qed

lemma owner_switched_self:
  assumes o: "owner_inv pend {k} s" and k: "\<not> pend k" and x: "ctx_of s t = Some x" "cpuid x = of_nat k"
    and t: "current_threads s k = Some t"
  shows "owner_inv (pend(k := True)) {} (switched k t s)"
proof -
  have th: "threads s t \<noteq> None" using ctx_of_threads [OF x(1)] .
  have cur: "current_threads (switched k t s) = current_threads s" using t by auto
  have lb: "left_behind (pend(k := True)) (switched k t s) j p \<longleftrightarrow> left_behind pend s j p" for j p
  proof (cases "j = k")
    case True
    then show ?thesis using k t th by (simp add: left_behind_def prev_of_switched)
  next
    case False
    then have "\<forall>u. current_threads s j = Some u \<longrightarrow> u \<noteq> t" using o t by (auto simp: owner_inv_def)
    then show ?thesis using False th by (auto simp: left_behind_def prev_of_switched split: option.splits)
  qed
  have "runs_on (switched k t s) u j" if "current_threads s j = Some u" for u j
  proof (cases "u = t")
    case True
    then have "j = k" using o t that by (auto simp: owner_inv_def)
    then show ?thesis using True x t by (simp add: runs_on_def ctx_of_switched)
  next
    case False
    then have "j \<noteq> k" using that t by auto
    then have "runs_on s u j" using that o by (auto simp: owner_inv_def)
    then show ?thesis using False runs_on_switched_other by simp
  qed
  moreover have "assigned_to (switched k t s) u j = assigned_to s u j" for u j
    using t x by (cases "u = t") (simp_all add: assigned_to_def ctx_of_switched)
  moreover have "stack_locked (switched k t s) u = stack_locked s u" for u
    using stack_locked_switched [OF x(1)] t by simp
  ultimately show ?thesis using o unfolding owner_inv_def lb cur by auto
qed

section \<open>Policies with idle threads outside the queues\<close>

locale idle_policy = ready_queues +
  assumes enq_idle: "ctx_of s t = Some c \<Longrightarrow> th_type c = TYPE_IDLE \<Longrightarrow> enq cpu t s = Inr (0, s)"
    and pick_idle: "\<forall>t\<in>set (queued s cpu). ready_on s t cpu \<Longrightarrow>
      find (stack_usable cpu s) (queued s cpu) = None \<Longrightarrow> pick cpu s = Inr (Idle cpu, s)"
begin

definition smp_inv :: "(nat \<Rightarrow> bool) \<Rightarrow> nat set \<Rightarrow> sched_state \<Rightarrow> bool" where
  "smp_inv pend X s = (queue_inv s \<and> ctxs_ok s \<and> owner_inv pend X s)"

lemma smp_inv_same: "smp_inv pend X s \<Longrightarrow> same_sched s s' \<Longrightarrow> smp_inv pend X s'"
proof -
  assume i: "smp_inv pend X s" and ss: "same_sched s s'"
  have v: "view s' u = view s u" for u using ss by (simp add: same_sched_def)
  have "ctxs_ok s'" using ctxs_ok_view [OF _ v] i ss by (simp add: smp_inv_def same_sched_def)
  moreover have "owner_inv pend X s'" using owner_inv_view [OF _ _ _ v] i ss by (simp add: smp_inv_def same_sched_def)
  ultimately show ?thesis using queue_inv_same [OF _ ss] i by (simp add: smp_inv_def)
qed

text \<open>The thread the policy takes next.\<close>

definition next_thread :: "nat \<Rightarrow> sched_state \<Rightarrow> tid" where
  "next_thread k s = (case find (stack_usable k s) (queued s k) of None \<Rightarrow> Idle k | Some t \<Rightarrow> t)"

lemma restated_ctxs:
  assumes o: "ctxs_ok s" and r: "restated t st k s s'" and c: "ctx_of s t = Some c" and st: "st \<noteq> TS_READY \<or> (\<forall>i. t \<noteq> Idle i)"
  shows "ctxs_ok s'"
proof (rule ctxs_ok_cong [OF o])
  obtain c' where c': "ctx_of s' t = Some c'" "sched_view c' = sched_view (c\<lparr>state := st, cpuid := k\<rparr>)"
    using restated_self [OF r c] by blast
  note v = sched_viewD [OF c'(2), simplified]
  fix u show "map_option cfg (ctx_of s' u) = map_option cfg (ctx_of s u)"
    using restated_view [OF r, of u] cfg_view [of s' u s] c c' v by (cases "u = t") (auto simp: cfg_def)
next
  fix i d assume d: "ctx_of s' (Idle i) = Some d"
  obtain c' where c': "ctx_of s' t = Some c'" "sched_view c' = sched_view (c\<lparr>state := st, cpuid := k\<rparr>)"
    using restated_self [OF r c] by blast
  show "state d \<noteq> TS_READY"
  proof (cases "t = Idle i")
    case True
    then show ?thesis using d c' sched_viewD [OF c'(2)] st by simp
  next
    case False
    then have "view s (Idle i) = view s' (Idle i)" using restated_view [OF r] by metis
    then obtain d0 where d0: "ctx_of s (Idle i) = Some d0" "sched_view d0 = sched_view d" using view_SomeD d by blast
    then show ?thesis using o sched_viewD [OF d0(2)] by (auto simp: ctxs_ok_def)
  qed
qed (simp add: restated_sel [OF r])

lemma restated_owner:
  assumes o: "owner_inv pend X s" and r: "restated t st k s s'" and c: "ctx_of s t = Some c"
    and t: "\<forall>i. t \<noteq> Idle i" "\<forall>j. j \<notin> X \<longrightarrow> current_threads s j \<noteq> Some t"
  shows "owner_inv pend X s'"
proof (rule owner_inv_cong [OF o])
  obtain c' where c': "ctx_of s' t = Some c'" "sched_view c' = sched_view (c\<lparr>state := st, cpuid := k\<rparr>)"
    using restated_self [OF r c] by blast
  show "stack_locked s' u = stack_locked s u" for u
    using restated_view [OF r, of u] stack_locked_view [of s' u s] c c' sched_viewD [OF c'(2)]
    by (cases "u = t") (auto simp: stack_locked_def)
  show "runs_on s' u j = runs_on s u j" if "j \<notin> X" "current_threads s j = Some u" for j u
    using t that restated_view [OF r] runs_on_view by metis
  show "assigned_to s' (Idle i) j = assigned_to s (Idle i) j" for i j
    using t restated_view [OF r] assigned_view by metis
qed (use restated_sel [OF r] in simp_all)

text \<open>Choosing and switching re-establishes the invariant, with the switch still to be finished.\<close>

lemma owner_idle_cpu:
  assumes "owner_inv pend X s" "current_threads s k = Some (Idle i)" "ctx_of s (Idle i) = Some x"
  shows "i = k \<and> cpuid x = of_nat k"
proof -
  have "i = k" "assigned_to s (Idle i) k" using assms(1,2) unfolding owner_inv_def by blast+
  then show ?thesis using assms(3) by (simp add: assigned_to_def)
qed

lemma pick_ready:
  assumes i: "smp_inv pend {k} s" and k: "k < PLAT_CPU_NUM"
    and f: "find (stack_usable k s) (queued s k) = Some t"
  obtains s2 x where "pick k s = Inr (t, s2)" "smp_inv pend {k} s2" "current_threads s2 = current_threads s"
    "ctx_of s2 t = Some x" "state x = TS_INTER" "cpuid x = of_nat k"
    "current_threads s k \<noteq> Some t \<longrightarrow> \<not> stack_locked s2 t" "\<forall>i. t \<noteq> Idle i" "\<forall>u. u \<noteq> t \<longrightarrow> view s2 u = view s u"
proof -
  have q: "queue_inv s" and o: "owner_inv pend {k} s" and cs: "ctxs_ok s" using i by (auto simp: smp_inv_def)
  have t: "t \<in> set (queued s k)" "stack_usable k s t" using f by (auto simp: find_Some_iff)
  then have "ready_on s t k" using q by (simp add: queue_inv_def)
  then obtain c where c: "ctx_of s t = Some c" "state c = TS_READY" "cpuid c = of_nat k"
    by (auto simp: ready_on_def split: option.splits)
  have ni: "\<forall>i. t \<noteq> Idle i" using cs c by (auto simp: ctxs_ok_def)
  obtain s2 where s2: "pick k s = Inr (t, s2)" "restated t TS_INTER (of_nat k) s s2" "queue_inv s2"
    using queue_inv_pick [OF q k f] by blast
  obtain x where x: "ctx_of s2 t = Some x" "sched_view x = sched_view (c\<lparr>state := TS_INTER, cpuid := of_nat k\<rparr>)"
    using restated_self [OF s2(2) c(1)] by blast
  note v = sched_viewD [OF x(2), simplified]
  have nc: "\<forall>j. j \<notin> {k} \<longrightarrow> current_threads s j \<noteq> Some t"
  proof (intro allI impI notI)
    fix j assume "j \<notin> {k}" "current_threads s j = Some t"
    then have "runs_on s t j" using o unfolding owner_inv_def by blast
    then show False using c by (simp add: runs_on_def)
  qed
  have "smp_inv pend {k} s2"
    using s2(3) restated_ctxs [OF cs s2(2) c(1)] restated_owner [OF o s2(2) c(1) ni nc] by (simp add: smp_inv_def)
  moreover have "\<not> stack_locked s2 t" if "current_threads s k \<noteq> Some t"
    using t(2) that x v c by (simp add: stack_usable_def stack_locked_def)
  ultimately show ?thesis using that [OF s2(1)] restated_sel(1) [OF s2(2)] restated_view [OF s2(2)] x(1) v ni by blast
qed

lemma queue_inv_switched:
  assumes q: "queue_inv s" and x: "ctx_of s t = Some x" "state x \<noteq> TS_READY"
  shows "queue_inv (switched k t s)"
proof (rule queue_inv_step [OF q])
  have qd: "queued (switched k t s) = queued s" by (intro queued_cong) simp_all
  show "\<forall>u. u \<noteq> t \<longrightarrow> view (switched k t s) u = view s u" by (simp add: ctx_of_switched)
  show "\<forall>j. distinct (queued (switched k t s) j)" using q qd by (simp add: queue_inv_def)
  show "\<forall>j. set (queued (switched k t s) j) - {t} = set (queued s j) - {t}" using qd by simp
  show "\<forall>j. t \<in> set (queued (switched k t s) j) \<longleftrightarrow> ready_on (switched k t s) t j"
    using q qd x by (simp add: queue_inv_def ready_on_def ctx_of_switched)
  show "\<forall>c. ctx_of (switched k t s) t = Some c \<longrightarrow> state c = TS_READY \<longrightarrow> unat (cpuid c) < PLAT_CPU_NUM"
    using x by (auto simp: ctx_of_switched)
qed

lemma ctxs_ok_switched:
  assumes o: "ctxs_ok s"
  shows "ctxs_ok (switched k t s)"
proof (rule ctxs_ok_cong [OF o])
  fix u show "map_option cfg (ctx_of (switched k t s) u) = map_option cfg (ctx_of s u)"
    by (cases "u = t"; cases "ctx_of s u") (auto simp: ctx_of_switched cfg_def)
next
  fix i c assume "ctx_of (switched k t s) (Idle i) = Some c"
  then show "state c \<noteq> TS_READY" using o by (auto simp: ctx_of_switched ctxs_ok_def split: if_splits)
qed simp

lemma switch_step:
  assumes i: "smp_inv pend {k} s" and k: "k < PLAT_CPU_NUM" "\<not> pend k"
    and x: "ctx_of s t = Some x" "state x \<noteq> TS_READY"
    and self: "current_threads s k = Some t \<longrightarrow> cpuid x = of_nat k"
    and new: "current_threads s k \<noteq> Some t \<longrightarrow> \<not> stack_locked s t \<or> t = Idle k" and idle: "\<forall>i. t = Idle i \<longrightarrow> i = k"
  obtains s' where "switch_to_thread k t s = Inr s'" "smp_inv (pend(k := True)) {} s'"
    "current_threads s' = (current_threads s)(k := Some t)" "\<forall>u. u \<noteq> t \<longrightarrow> view s' u = view s u"
proof -
  have q: "queue_inv s" and o: "owner_inv pend {k} s" and cs: "ctxs_ok s" using i by (auto simp: smp_inv_def)
  have "stack_locked s p" if "current_threads s k = Some p" for p using o that unfolding owner_inv_def by blast
  then have "\<forall>p. current_threads s k = Some p \<longrightarrow> ctx_of s p \<noteq> None"
    by (auto simp: stack_locked_def split: option.splits)
  then obtain s' where s': "switch_to_thread k t s = Inr s'" "same_sched (switched k t s) s'"
    using switch_to_thread_ok [OF x] by blast
  have "owner_inv (pend(k := True)) {} (switched k t s)"
  proof (cases "current_threads s k = Some t")
    case True
    then show ?thesis using owner_switched_self [OF o k(2) x(1)] self by blast
  next
    case False
    then show ?thesis using owner_switched_new [OF o k x(1)] new idle by blast
  qed
  then have "smp_inv (pend(k := True)) {} (switched k t s)"
    using queue_inv_switched [OF q x] ctxs_ok_switched [OF cs] by (simp add: smp_inv_def)
  then have "smp_inv (pend(k := True)) {} s'" using smp_inv_same s'(2) by blast
  moreover have "current_threads s' = (current_threads s)(k := Some t)" using s'(2) by (simp add: same_sched_def)
  moreover have "\<forall>u. u \<noteq> t \<longrightarrow> view s' u = view s u" using s'(2) by (simp add: same_sched_def ctx_of_switched)
  ultimately show ?thesis using that s'(1) by blast
qed

lemma pick_and_switch:
  assumes i: "smp_inv pend {k} s" and k: "k < PLAT_CPU_NUM" "\<not> pend k"
  shows "\<exists>s'. bind_res (pick k s) (\<lambda>(new, s2). switch_to_thread k new s2) = Inr s' \<and>
    smp_inv (pend(k := True)) {} s' \<and> current_threads s' = (current_threads s)(k := Some (next_thread k s)) \<and>
    (\<forall>u. u \<noteq> next_thread k s \<longrightarrow> view s' u = view s u)"
proof (cases "find (stack_usable k s) (queued s k)")
  case None
  have q: "queue_inv s" and o: "owner_inv pend {k} s" and cs: "ctxs_ok s" using i by (auto simp: smp_inv_def)
  have "\<forall>t\<in>set (queued s k). ready_on s t k" using q by (simp add: queue_inv_def)
  then have p: "pick k s = Inr (Idle k, s)" using pick_idle None by blast
  obtain x where x: "ctx_of s (Idle k) = Some x" "state x \<noteq> TS_READY" using cs k by (auto simp: ctxs_ok_def)
  obtain s' where "switch_to_thread k (Idle k) s = Inr s'" "smp_inv (pend(k := True)) {} s'"
    "current_threads s' = (current_threads s)(k := Some (Idle k))" "\<forall>u. u \<noteq> Idle k \<longrightarrow> view s' u = view s u"
    using switch_step [OF i k x] owner_idle_cpu [OF o _ x(1)] by blast
  then show ?thesis using p None by (simp add: next_thread_def)
next
  case (Some t)
  obtain s2 x where p: "pick k s = Inr (t, s2)" "smp_inv pend {k} s2" "current_threads s2 = current_threads s"
    "ctx_of s2 t = Some x" "state x = TS_INTER" "cpuid x = of_nat k"
    "current_threads s k \<noteq> Some t \<longrightarrow> \<not> stack_locked s2 t" "\<forall>i. t \<noteq> Idle i" "\<forall>u. u \<noteq> t \<longrightarrow> view s2 u = view s u"
    using pick_ready [OF i k(1) Some] .
  obtain s' where "switch_to_thread k t s2 = Inr s'" "smp_inv (pend(k := True)) {} s'"
    "current_threads s' = (current_threads s2)(k := Some t)" "\<forall>u. u \<noteq> t \<longrightarrow> view s' u = view s2 u"
    by (rule switch_step [OF p(2) k p(4)]) (use p in auto)
  then show ?thesis using p(1,3,9) Some by (simp add: next_thread_def)
qed

text \<open>Entering the scheduler: the current thread gives up its running state.\<close>

lemma queue_inv_state:
  assumes q: "queue_inv s" and c: "ctx_of s t = Some c" "state c \<noteq> TS_READY" and st: "st \<noteq> TS_READY"
  shows "queue_inv (upd_ctx t (\<lambda>c. c\<lparr>state := st\<rparr>) s)"
proof (rule queue_inv_step [OF q])
  have qd: "queued (upd_ctx t (\<lambda>c. c\<lparr>state := st\<rparr>) s) = queued s" by (intro queued_cong) simp_all
  show "\<forall>j. distinct (queued (upd_ctx t (\<lambda>c. c\<lparr>state := st\<rparr>) s) j)" using q qd by (simp add: queue_inv_def)
  show "\<forall>j. set (queued (upd_ctx t (\<lambda>c. c\<lparr>state := st\<rparr>) s) j) - {t} = set (queued s j) - {t}" using qd by simp
  show "\<forall>j. t \<in> set (queued (upd_ctx t (\<lambda>c. c\<lparr>state := st\<rparr>) s) j) \<longleftrightarrow> ready_on (upd_ctx t (\<lambda>c. c\<lparr>state := st\<rparr>) s) t j"
    using q qd c st by (simp add: queue_inv_def ready_on_def)
qed (use c st in simp_all)

lemma ctxs_ok_state:
  assumes o: "ctxs_ok s" and st: "st \<noteq> TS_READY"
  shows "ctxs_ok (upd_ctx t (\<lambda>c. c\<lparr>state := st\<rparr>) s)"
proof (rule ctxs_ok_cong [OF o])
  fix u show "map_option cfg (ctx_of (upd_ctx t (\<lambda>c. c\<lparr>state := st\<rparr>) s) u) = map_option cfg (ctx_of s u)"
    by (cases "u = t"; cases "ctx_of s u") (auto simp: cfg_def)
next
  fix i c assume "ctx_of (upd_ctx t (\<lambda>c. c\<lparr>state := st\<rparr>) s) (Idle i) = Some c"
  then show "state c \<noteq> TS_READY" using o st by (auto simp: ctxs_ok_def split: if_splits)
qed simp

lemma owner_state:
  assumes o: "owner_inv pend X s" and t: "\<And>j. j \<notin> X \<Longrightarrow> current_threads s j \<noteq> Some t"
  shows "owner_inv pend X (upd_ctx t (\<lambda>c. c\<lparr>state := st\<rparr>) s)"
proof (rule owner_inv_cong [OF o])
  show "stack_locked (upd_ctx t (\<lambda>c. c\<lparr>state := st\<rparr>) s) u = stack_locked s u" for u
    by (cases "u = t"; cases "ctx_of s u") (auto simp add: stack_locked_def)
  show "runs_on (upd_ctx t (\<lambda>c. c\<lparr>state := st\<rparr>) s) u j = runs_on s u j"
    if "j \<notin> X" "current_threads s j = Some u" for u j
    using t [OF that(1)] that(2) by (auto simp: runs_on_def)
  show "assigned_to (upd_ctx t (\<lambda>c. c\<lparr>state := st\<rparr>) s) (Idle i) j = assigned_to s (Idle i) j" for i j
    by (cases "Idle i = t"; cases "ctx_of s (Idle i)") (auto simp add: assigned_to_def)
qed simp_all

lemma smp_inv_state:
  assumes i: "smp_inv pend X s" and c: "ctx_of s t = Some c" "state c \<noteq> TS_READY" and st: "st \<noteq> TS_READY"
    and t: "\<And>j. j \<notin> X \<Longrightarrow> current_threads s j \<noteq> Some t"
  shows "smp_inv pend X (upd_ctx t (\<lambda>c. c\<lparr>state := st\<rparr>) s)"
  using i queue_inv_state [OF _ c st] ctxs_ok_state [OF _ st] owner_state [OF _ t] by (simp add: smp_inv_def)

lemma smp_inv_weaken: "smp_inv pend {} s \<Longrightarrow> smp_inv pend X s"
  by (simp add: smp_inv_def owner_inv_def)

lemma smp_inv_refill:
  assumes "smp_inv pend X s"
  shows "smp_inv pend X (refill c b s)"
proof -
  have sel: "ctx_of (refill c b s) = ctx_of s" "prev_of (refill c b s) = prev_of s"
    "current_threads (refill c b s) = current_threads s" "queued (refill c b s) = queued s"
    by (auto simp: refill_def fun_eq_iff split: option.splits intro!: queued_cong [THEN fun_cong])
  have "ctxs_ok (refill c b s)" if "ctxs_ok s"
    using that by (rule ctxs_ok_cong) (use that in \<open>auto simp: sel refill_def ctxs_ok_def split: option.splits\<close>)
  moreover have "owner_inv pend X (refill c b s)" if "owner_inv pend X s"
    using that by (rule owner_inv_view) (simp_all add: sel)
  moreover have "queue_inv (refill c b s)" if "queue_inv s"
    using that by (simp add: queue_inv_def ready_on_def sel)
  ultimately show ?thesis using assms by (simp add: smp_inv_def)
qed

lemma smp_inv_current:
  assumes i: "smp_inv pend {} s" and t: "current_threads s k = Some t"
  obtains c where "ctx_of s t = Some c" "state c = TS_RUNNING" "cpuid c = of_nat k" "ctx_ok s c"
    "th_type c = TYPE_IDLE \<longleftrightarrow> (\<exists>i. t = Idle i)" "\<And>j. j \<noteq> k \<Longrightarrow> current_threads s j \<noteq> Some t"
proof -
  have o: "owner_inv pend {} s" and cs: "ctxs_ok s" using i by (auto simp: smp_inv_def)
  have "runs_on s t k" "\<And>j. j \<noteq> k \<Longrightarrow> current_threads s j \<noteq> Some t" using o t unfolding owner_inv_def by blast+
  then show ?thesis using that cs by (auto simp: runs_on_def ctxs_ok_def split: option.splits)
qed

lemma enq_step:
  assumes i: "smp_inv pend X s" and k: "k < PLAT_CPU_NUM"
    and c: "ctx_of s t = Some c" "state c \<noteq> TS_READY" "th_type c \<noteq> TYPE_IDLE"
    and t: "\<And>j. j \<notin> X \<Longrightarrow> current_threads s j \<noteq> Some t"
  obtains s' where "enq k t s = Inr (0, s')" "smp_inv pend X s'" "current_threads s' = current_threads s"
proof -
  have q: "queue_inv s" and o: "owner_inv pend X s" and cs: "ctxs_ok s" using i by (auto simp: smp_inv_def)
  have ok: "ctx_ok s c" and ni: "\<forall>i. t \<noteq> Idle i" using cs c by (auto simp: ctxs_ok_def)
  obtain s' where s': "enq k t s = Inr (0, s')" "restated t TS_READY (target_cpu k c) s s'" "queue_inv s'"
    using queue_inv_enq [OF q c ok k] by blast
  have "smp_inv pend X s'"
    using s'(3) restated_ctxs [OF cs s'(2) c(1)] restated_owner [OF o s'(2) c(1)] ni t by (simp add: smp_inv_def)
  then show ?thesis using that s'(1) restated_sel(1) [OF s'(2)] by blast
qed

lemma release_running:
  assumes i: "smp_inv pend {} s" and k: "k < PLAT_CPU_NUM" and t: "current_threads s k = Some t"
    and c: "ctx_of s t = Some c" "budget_of s c = Some 0"
  obtains s1 where "release_current enq k s = Inr (True, s1)" "smp_inv pend {k} s1"
    "current_threads s1 = current_threads s"
proof -
  obtain c' where "ctx_of s t = Some c'" "state c' = TS_RUNNING" and nc: "\<And>j. j \<noteq> k \<Longrightarrow> current_threads s j \<noteq> Some t"
    using smp_inv_current [OF i t] by metis
  then have st: "state c = TS_RUNNING" using c(1) by simp
  define s0 where "s0 = refill c DEFAULT_BUDGET s"
  have s0: "smp_inv pend {k} s0" "current_threads s0 = current_threads s" "ctx_of s0 t = Some c"
    using smp_inv_refill [OF smp_inv_weaken [OF i]] c by (auto simp: s0_def refill_def split: option.splits)
  define s1 where "s1 = upd_ctx t (\<lambda>c. c\<lparr>state := TS_INTER\<rparr>) s0"
  have s1: "smp_inv pend {k} s1" unfolding s1_def
    by (rule smp_inv_state [OF s0(1) s0(3)]) (use st nc s0(2) in simp_all)
  have c1: "ctx_of s1 t = Some (c\<lparr>state := TS_INTER\<rparr>)" "current_threads s1 = current_threads s"
    using s0 by (simp_all add: s1_def)
  have "\<exists>s2. enq k t s1 = Inr (0, s2) \<and> smp_inv pend {k} s2 \<and> current_threads s2 = current_threads s"
  proof (cases "th_type c = TYPE_IDLE")
    case True
    then show ?thesis using enq_idle [OF c1(1)] s1 c1(2) by simp
  next
    case False
    obtain s2 where "enq k t s1 = Inr (0, s2)" "smp_inv pend {k} s2" "current_threads s2 = current_threads s1"
      by (rule enq_step [OF s1 k c1(1)]) (use False nc c1(2) in simp_all)
    then show ?thesis using c1(2) by simp
  qed
  then obtain s2 where s2: "enq k t s1 = Inr (0, s2)" "smp_inv pend {k} s2" "current_threads s2 = current_threads s"
    by blast
  then have "release_current enq k s = Inr (True, s2)"
    using t c st by (simp add: release_current_def flip: s0_def s1_def)
  then show ?thesis using that s2 by blast
qed

text \<open>The scheduler always finds a thread and keeps the invariant, whether the old thread goes on or waits.\<close>

lemma sched_running:
  assumes i: "smp_inv pend {} s" and k: "k < PLAT_CPU_NUM" "\<not> pend k"
    and b: "\<forall>t c. current_threads s k = Some t \<longrightarrow> ctx_of s t = Some c \<longrightarrow> budget_of s c = Some 0"
  obtains s1 s' where "release_current enq k s = Inr (True, s1)" "policy_sched enq pick k s = Inr s'"
    "smp_inv (pend(k := True)) {} s'" "current_threads s' = (current_threads s)(k := Some (next_thread k s1))"
proof -
  obtain s1 where s1: "release_current enq k s = Inr (True, s1)" "smp_inv pend {k} s1"
    "current_threads s1 = current_threads s"
  proof (cases "current_threads s k")
    case None
    then show ?thesis using that [of s] smp_inv_weaken [OF i] by (simp add: release_current_def)
  next
    case (Some t)
    then obtain c where "ctx_of s t = Some c" using smp_inv_current [OF i] by metis
    then show ?thesis using release_running [OF i k(1) Some] b Some that by blast
  qed
  obtain s' where "bind_res (pick k s1) (\<lambda>(new, s2). switch_to_thread k new s2) = Inr s'"
    "smp_inv (pend(k := True)) {} s'" "current_threads s' = (current_threads s1)(k := Some (next_thread k s1))"
    using pick_and_switch [OF s1(2) k] by blast
  then show ?thesis using that [OF s1(1), of s'] s1 by (simp add: policy_sched_def)
qed

lemma sched_waiting:
  assumes i: "smp_inv pend {} s" and k: "k < PLAT_CPU_NUM" "\<not> pend k" and t: "current_threads s k = Some t"
  obtains s' where "policy_sched enq pick k (upd_ctx t (\<lambda>c. c\<lparr>state := TS_WAITING\<rparr>) s) = Inr s'"
    "smp_inv (pend(k := True)) {} s'" "current_threads s' k \<noteq> None"
    "(\<forall>i. t \<noteq> Idle i) \<longrightarrow> (\<exists>c. ctx_of s' t = Some c \<and> state c = TS_WAITING)"
proof -
  let ?s = "upd_ctx t (\<lambda>c. c\<lparr>state := TS_WAITING\<rparr>) s"
  obtain c where c: "ctx_of s t = Some c" "state c = TS_RUNNING" "\<And>j. j \<noteq> k \<Longrightarrow> current_threads s j \<noteq> Some t"
    using smp_inv_current [OF i t] by metis
  have w: "smp_inv pend {k} ?s"
    by (rule smp_inv_state [OF smp_inv_weaken [OF i] c(1)]) (use c in simp_all)
  have "release_current enq k ?s = Inr (True, ?s)" using t c by (simp add: release_current_def)
  moreover obtain s' where s': "bind_res (pick k ?s) (\<lambda>(new, s2). switch_to_thread k new s2) = Inr s'" "smp_inv (pend(k := True)) {} s'"
    "current_threads s' = (current_threads ?s)(k := Some (next_thread k ?s))" "\<forall>u. u \<noteq> next_thread k ?s \<longrightarrow> view s' u = view ?s u"
    using pick_and_switch [OF w k] by blast
  moreover have "\<exists>c. ctx_of s' t = Some c \<and> state c = TS_WAITING" if ni: "\<forall>i. t \<noteq> Idle i"
  proof -
    have "t \<notin> set (queued ?s k)"
      using w c(1) by (auto simp: smp_inv_def queue_inv_def ready_on_def)
    moreover have "u \<in> set (queued ?s k)" if "find (stack_usable k ?s) (queued ?s k) = Some u" for u
      using that by (auto simp: find_Some_iff)
    ultimately have "next_thread k ?s \<noteq> t"
      using ni by (cases "find (stack_usable k ?s) (queued ?s k)") (auto simp: next_thread_def)
    then have "view s' t = view ?s t" using s'(4) by metis
    then show ?thesis using c(1) by (auto dest!: view_SomeD sched_viewD)
  qed
  ultimately show ?thesis using that [of s'] by (simp add: policy_sched_def)
qed

lemma wake_step:
  assumes i: "smp_inv pend {} s" and k: "k < PLAT_CPU_NUM"
    and c: "ctx_of s t = Some c" "state c = TS_WAITING \<or> state c = TS_INIT \<or> state c = TS_INTER" "th_type c \<noteq> TYPE_IDLE"
  obtains s' where "enq k t (upd_ctx t (\<lambda>c. c\<lparr>state := TS_INTER\<rparr>) s) = Inr (0, s')" "smp_inv pend {} s'"
proof -
  have nc: "current_threads s j \<noteq> Some t" for j
  proof
    assume "current_threads s j = Some t"
    then obtain c' where "ctx_of s t = Some c'" "state c' = TS_RUNNING" using smp_inv_current [OF i] by metis
    then show False using c by auto
  qed
  have "smp_inv pend {} (upd_ctx t (\<lambda>c. c\<lparr>state := TS_INTER\<rparr>) s)"
    by (rule smp_inv_state [OF i c(1)]) (use c nc in auto)
  then show ?thesis
    using enq_step [of pend "{}" "upd_ctx t (\<lambda>c. c\<lparr>state := TS_INTER\<rparr>) s" k t "c\<lparr>state := TS_INTER\<rparr>"]
      k c nc that by auto
qed

text \<open>Leaving the kernel gives the stack of the thread left behind back to the other CPUs.\<close>

lemma owner_finish:
  assumes o: "owner_inv pend {} s" and k: "left_behind pend s k p"
  shows "owner_inv (pend(k := False)) {} (upd_ctx p (\<lambda>c. c\<lparr>kernel_stack_state := KS_FREE\<rparr>) s)"
proof -
  let ?s = "upd_ctx p (\<lambda>c. c\<lparr>kernel_stack_state := KS_FREE\<rparr>) s"
  have p: "\<And>j. current_threads s j \<noteq> Some p" "\<And>j. left_behind pend s j p \<Longrightarrow> j = k"
    using o k unfolding owner_inv_def by blast+
  have lb: "left_behind (pend(k := False)) ?s j q \<longleftrightarrow> j \<noteq> k \<and> left_behind pend s j q" for j q
    by (simp add: left_behind_def split: option.splits)
  have lk: "stack_locked ?s u = stack_locked s u" if "u \<noteq> p" for u using that by (simp add: stack_locked_def)
  have ro: "runs_on ?s u j = runs_on s u j" "assigned_to ?s u j = assigned_to s u j" for u j
    by (cases "u = p"; cases "ctx_of s u"; auto simp: runs_on_def assigned_to_def)+
  show ?thesis
    unfolding owner_inv_def lb ro upd_ctx_sel
  proof (intro conjI allI impI)
    fix j t assume "current_threads s j = Some t"
    then show "stack_locked ?s t" using o p lk unfolding owner_inv_def by metis
  next
    fix j q assume "j \<noteq> k \<and> left_behind pend s j q"
    then show "stack_locked ?s q" using o p lk unfolding owner_inv_def by metis
  qed (use o in \<open>unfold owner_inv_def, blast\<close>)+
qed

lemma owner_unpend:
  assumes "owner_inv pend X s" "\<And>p. \<not> left_behind pend s k p"
  shows "owner_inv (pend(k := False)) X s"
proof -
  have "left_behind (pend(k := False)) s = left_behind pend s"
    using assms(2) by (intro ext) (auto simp: left_behind_def)
  then show ?thesis using assms(1) by (simp add: owner_inv_def)
qed

lemma finish_step:
  assumes i: "smp_inv pend {} s" and t: "current_threads s k = Some t" and k: "pend k"
  obtains s' where "finish_switch k s = Inr s'" "smp_inv (pend(k := False)) {} s'"
    "current_threads s' = current_threads s"
proof -
  obtain c where "ctx_of s t = Some c" using smp_inv_current [OF i t] by metis
  then obtain th where th: "threads s t = Some th" using ctx_of_threads by blast
  then have pr: "prev_of s t = prev_thread th" by (simp add: prev_of_def)
  show ?thesis
  proof (cases "prev_thread th")
    case (Prev p)
    then have lb: "left_behind pend s k p" using t k pr by (simp add: left_behind_def)
    have q: "queue_inv s" and o: "owner_inv pend {} s" and cs: "ctxs_ok s" using i by (auto simp: smp_inv_def)
    have "stack_locked s p" using o lb unfolding owner_inv_def by blast
    then obtain c where c: "ctx_of s p = Some c" by (auto simp: stack_locked_def split: option.splits)
    let ?s = "upd_ctx p (\<lambda>c. c\<lparr>kernel_stack_state := KS_FREE\<rparr>) s"
    have qd: "queued ?s = queued s" by (intro queued_cong) simp_all
    have "queue_inv ?s"
      by (rule queue_inv_step [OF q, of p])
        (use q c in \<open>auto simp: qd queue_inv_def ready_on_def split: option.splits\<close>)
    moreover have "ctxs_ok ?s"
    proof (rule ctxs_ok_cong [OF cs])
      fix u show "map_option cfg (ctx_of ?s u) = map_option cfg (ctx_of s u)"
        by (cases "u = p"; cases "ctx_of s u") (auto simp: cfg_def)
    qed (use cs in \<open>auto simp: ctxs_ok_def split: if_splits\<close>)
    ultimately have "smp_inv (pend(k := False)) {} ?s" using owner_finish [OF o lb] by (simp add: smp_inv_def)
    moreover have "finish_switch k s = Inr ?s" using t th Prev c by (simp add: finish_switch_def)
    ultimately show ?thesis using that by simp
  next
    case No_Prev
    have "owner_inv (pend(k := False)) {} s"
      by (rule owner_unpend) (use i t pr No_Prev in \<open>simp_all add: smp_inv_def left_behind_def\<close>)
    then show ?thesis using that [of s] No_Prev t th i by (simp add: finish_switch_def smp_inv_def)
  next
    case THREAD_ITSELF
    have "owner_inv (pend(k := False)) {} s"
      by (rule owner_unpend) (use i t pr THREAD_ITSELF in \<open>simp_all add: smp_inv_def left_behind_def\<close>)
    then show ?thesis using that [of s] THREAD_ITSELF t th i by (simp add: finish_switch_def smp_inv_def)
  qed
qed

end

lemma switch_context_same: "switch_context k s = Inr (t, s') \<Longrightarrow> same_sched s s' \<and> current_threads s k = Some t"
  by (auto simp: switch_context_def record_history_cpu_def switch_thread_vmspace_to_def same_sched_def res_simps
      split: option.splits if_splits)

end
