(* ===== verification/Sched.thy ===== *)
theory Sched
  imports Sched_PBRR Sched_Smp
begin

text \<open>
  The scheduler as the rest of the kernel calls it: the dispatch through
  \<^verbatim>\<open>cur_sched_ops\<close> (\<^verbatim>\<open>kernel/include/sched/sched.h\<close>), the system call
  \<^verbatim>\<open>sys_yield\<close> (\<^verbatim>\<open>kernel/sched/sched.c\<close>) and the tail of every interrupt
  (\<^verbatim>\<open>handle_irq\<close> of \<^verbatim>\<open>kernel/arch/aarch64/irq/irq_entry.c\<close>), with the
  properties of the round-robin policy on four CPUs.
\<close>

section \<open>Operations\<close>

definition sched :: "nat \<Rightarrow> sched_state \<Rightarrow> sched_state res" where
  "sched cpu s = (case cur_sched_ops s of RR \<Rightarrow> rr_sched cpu s | PBRR \<Rightarrow> pbrr_sched cpu s)"

definition sched_enqueue :: "nat \<Rightarrow> tid \<Rightarrow> sched_state \<Rightarrow> (s32 \<times> sched_state) res" where
  "sched_enqueue cpu t s =
    (case cur_sched_ops s of RR \<Rightarrow> rr_sched_enqueue cpu t s | PBRR \<Rightarrow> pbrr_sched_enqueue cpu t s)"

definition sched_dequeue :: "tid \<Rightarrow> sched_state \<Rightarrow> (s32 \<times> sched_state) res" where
  "sched_dequeue t s =
    (case cur_sched_ops s of RR \<Rightarrow> rr_sched_dequeue t s | PBRR \<Rightarrow> pbrr_sched_dequeue t s)"

definition sched_init ::
  "nat \<Rightarrow> (nat \<Rightarrow> bool) \<Rightarrow> (nat \<Rightarrow> nat) \<Rightarrow> u64 \<Rightarrow> nat \<Rightarrow> sched_policy \<Rightarrow> sched_state \<Rightarrow> sched_state res" where
  "sched_init cpu stacks scs func grp ops s =
    (let s1 = s\<lparr>cur_sched_ops := ops\<rparr> in
     case ops of RR \<Rightarrow> rr_sched_init stacks scs func grp s1
     | PBRR \<Rightarrow> pbrr_sched_init cpu stacks scs func grp s1)"

definition set_budget :: "tid \<Rightarrow> u32 \<Rightarrow> sched_state \<Rightarrow> sched_state res" where
  "set_budget t b s =
    bind_res (get_ctx s t) (\<lambda>c. case sc c of None \<Rightarrow> Inl Bad_Access
      | Some k \<Rightarrow> bind_res (deref (sched_conts s) k) (\<lambda>_.
          Inr (s\<lparr>sched_conts := (sched_conts s)(k \<mapsto> b)\<rparr>)))"

definition sys_yield :: "nat \<Rightarrow> sched_state \<Rightarrow> (tid \<times> sched_state) res" where
  "sys_yield cpu s = (case current_threads s cpu of None \<Rightarrow> Inl Bug_On
    | Some t \<Rightarrow> bind_res (set_budget t 0 s) (\<lambda>s1.
        bind_res (sched cpu s1) (eret_to_thread cpu)))"

text \<open>
  The interrupt path: \<open>plat_handle_irq\<close> is the effect of the device's handler.
\<close>

definition handle_irq ::
  "(nat \<Rightarrow> sched_state \<Rightarrow> sched_state res) \<Rightarrow> nat \<Rightarrow> sched_state \<Rightarrow> (tid \<times> sched_state) res" where
  "handle_irq plat_handle_irq cpu s =
    bind_res (plat_handle_irq cpu s) (\<lambda>s1. bind_res (sched cpu s1) (eret_to_thread cpu))"

section \<open>The round-robin policy on several CPUs\<close>

interpretation rri: idle_policy rr_ready_queue rr_sched_enqueue rr_sched_dequeue rr_sched_choose_thread
  by unfold_locales (simp add: rr_sched_enqueue_def, rule rr_pick_idle)

text \<open>The parts of \<open>boot_sched\<close> that are zero-initialised: the array \<^verbatim>\<open>idle_threads\<close> exists from the start.\<close>

definition zero_thread :: thread where
  "zero_thread = \<lparr>thread_ctx = None, prev_thread = No_Prev, th_vmspace = None, th_cap_group = None,
    general_ipc_config = None,
    sleep_state = \<lparr>wakeup_tick = 0, sleep_cpu = 0, pending_notific = None, cb = None\<rparr>\<rparr>"

definition boot_sched :: sched_state where
  "boot_sched = \<lparr>threads = (\<lambda>t. case t of Idle i \<Rightarrow> if i < PLAT_CPU_NUM then Some zero_thread else None | Thread _ \<Rightarrow> None),
    current_threads = (\<lambda>_. None), cpu_info = (\<lambda>_. \<lparr>fpu_owner = None, fpu_disable = 0\<rparr>),
    fpu_regs = (\<lambda>_. \<lparr>q_regs = (\<lambda>_. 0), r_fpcr = 0, r_fpsr = 0\<rparr>), cpacr_el1 = (\<lambda>_. 0), tpidr_el0 = (\<lambda>_. 0),
    ttbr0_el1 = (\<lambda>_. None), history_cpus = (\<lambda>_ _. False), sched_conts = (\<lambda>_. None),
    rr_ready_queue = (\<lambda>_. []), pbrr_ready_queue = (\<lambda>_ _. []), cur_sched_ops = RR\<rparr>"

text \<open>
  A new thread with its context set up the way \<^verbatim>\<open>create_thread\<close> does it
  (\<open>Thread n\<close> is the object the allocator returned, \<open>k\<close> its scheduling context).
\<close>

definition add_thread ::
  "nat \<Rightarrow> nat \<Rightarrow> u64 \<Rightarrow> u64 \<Rightarrow> u32 \<Rightarrow> thread_type \<Rightarrow> s32 \<Rightarrow> nat option \<Rightarrow> sched_state \<Rightarrow> sched_state res" where
  "add_thread n k stack func pr ty aff vm s =
    init_thread_ctx (Thread n) stack func pr ty aff k
      (s\<lparr>threads := (threads s)(Thread n \<mapsto> zero_thread\<lparr>thread_ctx := create_thread_ctx True, th_vmspace := vm\<rparr>)\<rparr>)"

text \<open>
  One step of one CPU: a thread is created, yields, waits, wakes another thread, or the CPU
  completes the switch it has begun. \<open>pend k\<close> says that CPU \<open>k\<close> has switched threads but not yet
  reached \<open>finish_switch\<close>; other CPUs may take any number of steps in between.
\<close>

inductive smp_step :: "(nat \<Rightarrow> bool) \<times> sched_state \<Rightarrow> (nat \<Rightarrow> bool) \<times> sched_state \<Rightarrow> bool" where
  create: "threads s (Thread n) = None \<Longrightarrow> pr \<le> MAX_PRIO \<Longrightarrow> ty \<noteq> TYPE_IDLE \<Longrightarrow>
    aff = NO_AFF \<or> 0 \<le> aff \<and> aff < int PLAT_CPU_NUM \<Longrightarrow>
    add_thread n j stack func pr ty aff vm s = Inr s' \<Longrightarrow> smp_step (pend, s) (pend, s')"
| first: "k < PLAT_CPU_NUM \<Longrightarrow> \<not> pend k \<Longrightarrow> current_threads s k = None \<Longrightarrow>
    rr_sched k s = Inr s' \<Longrightarrow> smp_step (pend, s) (pend(k := True), s')"
| yield: "k < PLAT_CPU_NUM \<Longrightarrow> \<not> pend k \<Longrightarrow> current_threads s k = Some t \<Longrightarrow>
    set_budget t 0 s = Inr s1 \<Longrightarrow> rr_sched k s1 = Inr s' \<Longrightarrow> smp_step (pend, s) (pend(k := True), s')"
| wait: "k < PLAT_CPU_NUM \<Longrightarrow> \<not> pend k \<Longrightarrow> current_threads s k = Some t \<Longrightarrow> \<forall>i. t \<noteq> Idle i \<Longrightarrow>
    rr_sched k (upd_ctx t (\<lambda>c. c\<lparr>state := TS_WAITING\<rparr>) s) = Inr s' \<Longrightarrow> smp_step (pend, s) (pend(k := True), s')"
| wake: "k < PLAT_CPU_NUM \<Longrightarrow> \<not> pend k \<Longrightarrow> ctx_of s t = Some c \<Longrightarrow>
    state c = TS_WAITING \<or> state c = TS_INIT \<Longrightarrow> th_type c \<noteq> TYPE_IDLE \<Longrightarrow>
    rr_sched_enqueue k t (upd_ctx t (\<lambda>c. c\<lparr>state := TS_INTER\<rparr>) s) = Inr (ret, s') \<Longrightarrow>
    smp_step (pend, s) (pend, s')"
| finish: "pend k \<Longrightarrow> eret_to_thread k s = Inr (t, s') \<Longrightarrow> smp_step (pend, s) (pend(k := False), s')"

inductive smp_reachable :: "sched_state \<Rightarrow> (nat \<Rightarrow> bool) \<Rightarrow> sched_state \<Rightarrow> bool" for s0 where
  start: "smp_reachable s0 (\<lambda>_. False) s0"
| step: "smp_reachable s0 pend s \<Longrightarrow> smp_step (pend, s) (pend', s') \<Longrightarrow> smp_reachable s0 pend' s'"

inductive_cases smp_stepE: "smp_step (pend, s) (pend', s')"

lemma smp_inv_rr_sched:
  assumes "rri.smp_inv pend {} s"
  shows "rr_sched k s = policy_sched rr_sched_enqueue rr_sched_choose_thread k s"
  by (rule rr_sched_policy) (use rri.smp_inv_current [OF assms] in metis)

lemma set_budget_inv:
  assumes i: "rri.smp_inv pend {} s" and s1: "set_budget t b s = Inr s1"
  shows "rri.smp_inv pend {} s1" "current_threads s1 = current_threads s" "ctx_of s1 = ctx_of s"
    "\<exists>c k. ctx_of s t = Some c \<and> sc c = Some k \<and> sched_conts s1 k = Some b"
proof -
  obtain c k where c: "ctx_of s t = Some c" "sc c = Some k" "s1 = s\<lparr>sched_conts := (sched_conts s)(k \<mapsto> b)\<rparr>"
    using s1 by (auto simp: set_budget_def res_simps split: option.splits)
  then have "s1 = refill c b s" by (simp add: refill_def)
  then show "rri.smp_inv pend {} s1" using rri.smp_inv_refill [OF i] by simp
  show "\<exists>c k. ctx_of s t = Some c \<and> sc c = Some k \<and> sched_conts s1 k = Some b" using c by simp
qed (use s1 in \<open>auto simp: set_budget_def res_simps fun_eq_iff split: option.splits\<close>)

lemma yield_inv:
  assumes i: "rri.smp_inv pend {} s" and k: "k < PLAT_CPU_NUM" "\<not> pend k"
    and t: "current_threads s k = Some t" and s1: "set_budget t 0 s = Inr s1"
  shows "\<exists>s'. rr_sched k s1 = Inr s' \<and> rri.smp_inv (pend(k := True)) {} s' \<and> current_threads s' k \<noteq> None"
proof -
  note f = set_budget_inv [OF i s1]
  have "\<forall>u c. current_threads s1 k = Some u \<longrightarrow> ctx_of s1 u = Some c \<longrightarrow> budget_of s1 c = Some 0"
    using f t by (auto simp: budget_of_def)
  then obtain s0 s' where "policy_sched rr_sched_enqueue rr_sched_choose_thread k s1 = Inr s'"
    "rri.smp_inv (pend(k := True)) {} s'" "current_threads s' = (current_threads s1)(k := Some (rri.next_thread k s0))"
    using rri.sched_running [OF f(1) k] by blast
  then show ?thesis using smp_inv_rr_sched [OF f(1)] by simp
qed

lemma wait_inv:
  assumes i: "rri.smp_inv pend {} s" and k: "k < PLAT_CPU_NUM" "\<not> pend k"
    and t: "current_threads s k = Some t"
  shows "\<exists>s'. rr_sched k (upd_ctx t (\<lambda>c. c\<lparr>state := TS_WAITING\<rparr>) s) = Inr s' \<and>
    rri.smp_inv (pend(k := True)) {} s' \<and> current_threads s' k \<noteq> None \<and>
    ((\<forall>i. t \<noteq> Idle i) \<longrightarrow> (\<exists>c. ctx_of s' t = Some c \<and> state c = TS_WAITING))"
proof -
  obtain c where c: "ctx_of s t = Some c" "ctx_ok s c" using rri.smp_inv_current [OF i t] by metis
  have "rr_sched k (upd_ctx t (\<lambda>c. c\<lparr>state := TS_WAITING\<rparr>) s) =
      policy_sched rr_sched_enqueue rr_sched_choose_thread k (upd_ctx t (\<lambda>c. c\<lparr>state := TS_WAITING\<rparr>) s)"
    by (rule rr_sched_policy) (use t c in simp)
  moreover obtain s' where "policy_sched rr_sched_enqueue rr_sched_choose_thread k (upd_ctx t (\<lambda>c. c\<lparr>state := TS_WAITING\<rparr>) s) = Inr s'"
    "rri.smp_inv (pend(k := True)) {} s'" "current_threads s' k \<noteq> None"
    "(\<forall>i. t \<noteq> Idle i) \<longrightarrow> (\<exists>c. ctx_of s' t = Some c \<and> state c = TS_WAITING)" using rri.sched_waiting [OF i k t] .
  ultimately show ?thesis by simp
qed

lemma eret_inv:
  assumes i: "rri.smp_inv pend {} s" and k: "pend k" and e: "eret_to_thread k s = Inr (t, s')"
  shows "rri.smp_inv (pend(k := False)) {} s'"
proof -
  obtain s1 where s1: "switch_context k s = Inr (t, s1)" "finish_switch k s1 = Inr s'"
    using e by (auto simp: eret_to_thread_def res_simps)
  have ss: "same_sched s s1" "current_threads s k = Some t" using switch_context_same [OF s1(1)] by auto
  then have "current_threads s1 k = Some t" by (simp add: same_sched_def)
  from rri.finish_step [OF rri.smp_inv_same [OF i ss(1)] this k] show ?thesis using s1(2) by auto
qed

lemma add_thread_inv:
  assumes i: "rri.smp_inv pend {} s" and n: "threads s (Thread n) = None" "pr \<le> MAX_PRIO" "ty \<noteq> TYPE_IDLE"
    "aff = NO_AFF \<or> 0 \<le> aff \<and> aff < int PLAT_CPU_NUM"
    and s': "add_thread n j stack func pr ty aff vm s = Inr s'"
  shows "rri.smp_inv pend {} s'"
proof -
  let ?t = "Thread n"
  have none: "ctx_of s ?t = None" using n by (simp add: ctx_of_def)
  obtain c where c: "ctx_of s' ?t = Some c" "state c = TS_INIT" "th_type c = ty" "prio c = pr" "affinity c = aff"
      "sc c = Some j" "fpu_state c \<noteq> None" "kernel_stack_state c = KS_FREE" and pv: "prev_of s' ?t = No_Prev"
    and o: "\<And>u. u \<noteq> ?t \<Longrightarrow> ctx_of s' u = ctx_of s u" "\<And>u. u \<noteq> ?t \<Longrightarrow> prev_of s' u = prev_of s u"
    and sel: "current_threads s' = current_threads s" "rr_ready_queue s' = rr_ready_queue s"
      "sched_conts s' = (sched_conts s)(j \<mapsto> DEFAULT_BUDGET)"
    using s' by (auto simp: add_thread_def init_thread_ctx_def res_simps ctx_of_def prev_of_def upd_ctx_def upd_thread_def
        create_thread_ctx_def arch_init_thread_fpu_def zero_ctx_def zero_thread_def split: option.splits)
  have q: "rr.queue_inv s" and ow: "owner_inv pend {} s" and cs: "ctxs_ok s" using i by (auto simp: rri.smp_inv_def)
  have nl: "\<not> stack_locked s ?t" "\<not> stack_locked s' ?t" using none c by (simp_all add: stack_locked_def)
  have nc: "current_threads s k \<noteq> Some ?t" for k using ow nl unfolding owner_inv_def by blast
  have "rr.queue_inv s'"
  proof (rule rr.queue_inv_step [OF q, of ?t])
    show "\<forall>k. (?t \<in> set (rr_ready_queue s' k)) = ready_on s' ?t k"
      using q none c sel by (simp add: rr.queue_inv_def ready_on_def)
  qed (use q o c sel in \<open>auto simp: rr.queue_inv_def\<close>)
  moreover have "ctxs_ok s'"
    unfolding ctxs_ok_def
  proof (intro conjI allI impI)
    fix t d assume d: "ctx_of s' t = Some d"
    have "ctx_ok s' d \<and> ((th_type d = TYPE_IDLE) = (\<exists>i. t = Idle i))"
    proof (cases "t = ?t")
      case True
      then show ?thesis using d c n sel by (simp add: ctx_ok_def)
    next
      case False
      then have "ctx_of s t = Some d" using d o by simp
      then have "ctx_ok s d" "(th_type d = TYPE_IDLE) = (\<exists>i. t = Idle i)" using cs unfolding ctxs_ok_def by blast+
      then show ?thesis using sel by (auto simp: ctx_ok_def split: option.splits)
    qed
    then show "ctx_ok s' d" "(th_type d = TYPE_IDLE) = (\<exists>i. t = Idle i)" by blast+
  qed (use cs o in \<open>auto simp: ctxs_ok_def\<close>)
  moreover have "owner_inv pend {} s'"
  proof -
    have lb: "left_behind pend s' k p = left_behind pend s k p" for k p
    proof (cases "current_threads s k")
      case (Some u)
      then have "u \<noteq> ?t" using nc by blast
      then show ?thesis using Some o sel by (simp add: left_behind_def)
    qed (simp add: left_behind_def sel)
    have st: "stack_locked s' u = stack_locked s u" for u using nl o by (cases "u = ?t") (auto simp: stack_locked_def)
    have ro: "runs_on s' u j = runs_on s u j" "assigned_to s' u j = assigned_to s u j"
      if "current_threads s k = Some u" for k u j
    proof -
      have "u \<noteq> ?t" using nc that by blast
      then show "runs_on s' u j = runs_on s u j" "assigned_to s' u j = assigned_to s u j"
        using o by (simp_all add: runs_on_def assigned_to_def)
    qed
    show ?thesis using ow ro unfolding owner_inv_def lb st sel by blast
  qed
  ultimately show ?thesis by (simp add: rri.smp_inv_def)
qed

lemma smp_step_inv:
  "smp_step x y \<Longrightarrow> rri.smp_inv (fst x) {} (snd x) \<Longrightarrow> rri.smp_inv (fst y) {} (snd y)"
proof (induction rule: smp_step.induct)
  case (create s n pr ty aff j stack func vm s' pend)
  then show ?case using add_thread_inv by simp
next
  case (first k pend s s')
  then have i: "rri.smp_inv pend {} s" by simp
  obtain s2 where s2: "policy_sched rr_sched_enqueue rr_sched_choose_thread k s = Inr s2" "rri.smp_inv (pend(k := True)) {} s2"
    by (rule rri.sched_running [OF i first.hyps(1,2)]) (use first.hyps in simp_all)
  have "s' = s2" using first.hyps(4) s2(1) smp_inv_rr_sched [OF i] by simp
  then show ?case unfolding fst_conv snd_conv using s2(2) by blast
next
  case (yield k pend s t s1 s')
  then have i: "rri.smp_inv pend {} s" by simp
  show ?case unfolding fst_conv snd_conv using yield_inv [OF i yield.hyps(1-4)] yield.hyps(5) by (metis sum.inject(2))
next
  case (wait k pend s t s')
  then have i: "rri.smp_inv pend {} s" by simp
  show ?case unfolding fst_conv snd_conv using wait_inv [OF i wait.hyps(1-3)] wait.hyps(5) by (metis sum.inject(2))
next
  case (wake k pend s t c ret s')
  then have i: "rri.smp_inv pend {} s" by simp
  obtain s2 where "rr_sched_enqueue k t (upd_ctx t (\<lambda>c. c\<lparr>state := TS_INTER\<rparr>) s) = Inr (0, s2)" "rri.smp_inv pend {} s2"
    by (rule rri.wake_step [OF i wake.hyps(1,3)]) (use wake.hyps in auto)
  then show ?case using wake by simp
next
  case (finish pend k s t s')
  then have i: "rri.smp_inv pend {} s" by simp
  show ?case unfolding fst_conv snd_conv using eret_inv [OF i finish.hyps] .
qed

lemma smp_reachable_inv:
  assumes "smp_reachable s0 pend s" "rri.smp_inv (\<lambda>_. False) {} s0"
  shows "rri.smp_inv pend {} s"
  using assms
proof (induction rule: smp_reachable.induct)
  case (step pend s pend' s')
  then show ?case using smp_step_inv [of "(pend, s)" "(pend', s')"] by simp
qed simp

section \<open>Boot\<close>

lemma init_idle_thread_ok:
  assumes "threads s (Idle i) \<noteq> None"
  obtains s' where "init_idle_thread True k func grp i s = Inr s'"
    "\<exists>c. ctx_of s' (Idle i) = Some c \<and> state c = TS_INIT \<and> th_type c = TYPE_IDLE \<and> prio c = MIN_PRIO \<and>
      affinity c = int i \<and> sc c = Some k \<and> fpu_state c \<noteq> None \<and> kernel_stack_state c = KS_FREE"
    "\<forall>u. u \<noteq> Idle i \<longrightarrow> ctx_of s' u = ctx_of s u" "\<forall>u. threads s' u = None \<longleftrightarrow> threads s u = None"
    "current_threads s' = current_threads s" "rr_ready_queue s' = rr_ready_queue s"
    "sched_conts s' = (sched_conts s)(k \<mapsto> DEFAULT_BUDGET)"
proof -
  obtain th where th: "threads s (Idle i) = Some th" using assms by blast
  define c where "c = (arch_init_thread_fpu zero_ctx)
    \<lparr>ec := (ec zero_ctx)(SP_EL0 := 0, ELR_EL1 := 0, SPSR_EL1 := SPSR_EL1_USER), prio := MIN_PRIO, state := TS_INIT,
     th_type := TYPE_IDLE, affinity := int i, sc := Some k, kernel_stack_state := KS_FREE\<rparr>"
  define s1 where "s1 = (upd_ctx (Idle i) (\<lambda>c. c\<lparr>ec := (ec c)(SP_EL0 := 0, ELR_EL1 := 0, SPSR_EL1 := SPSR_EL1_USER),
                           prio := MIN_PRIO, state := TS_INIT, th_type := TYPE_IDLE, affinity := int i,
                           sc := Some k, kernel_stack_state := KS_FREE\<rparr>)
        (upd_thread (Idle i) (\<lambda>th. th\<lparr>thread_ctx := Some (arch_init_thread_fpu zero_ctx)\<rparr>) s\<lparr>sched_conts := (sched_conts s)(k \<mapsto> DEFAULT_BUDGET)\<rparr>))"
  define s2 where "s2 = upd_thread (Idle i) (\<lambda>th. th\<lparr>th_vmspace := None, th_cap_group := Some grp\<rparr>)
                (upd_ctx (Idle i) (arch_idle_ctx_init func) s1)"
  have "ctx_of (upd_thread (Idle i) (\<lambda>th. th\<lparr>thread_ctx := Some (arch_init_thread_fpu zero_ctx)\<rparr>) s) (Idle i) =
      Some (arch_init_thread_fpu zero_ctx)" using th by (simp add: ctx_of_def upd_thread_def)
  then have "init_idle_thread True k func grp i s = Inr s2"
    using th by (simp add: init_idle_thread_def create_thread_ctx_def init_thread_ctx_def s2_def s1_def)
  moreover have "ctx_of s2 (Idle i) = Some (arch_idle_ctx_init func c)"
    using th by (simp add: s2_def s1_def c_def ctx_of_def upd_ctx_def upd_thread_def arch_init_thread_fpu_def)
  moreover have "\<forall>u. u \<noteq> Idle i \<longrightarrow> ctx_of s2 u = ctx_of s u"
    by (simp add: s2_def s1_def ctx_of_def upd_ctx_def upd_thread_def)
  moreover have "\<forall>u. threads s2 u = None \<longleftrightarrow> threads s u = None" using th by (simp add: s2_def s1_def)
  ultimately show ?thesis
    using that [of s2]
    by (simp add: s2_def s1_def c_def arch_idle_ctx_init_def arch_init_thread_fpu_def zero_fpu_def)
qed

lemma init_idle_threads_ok:
  assumes "\<forall>i\<in>set is. threads s (Idle i) \<noteq> None"
  obtains s' where "init_idle_threads (\<lambda>_. True) scs func grp is s = Inr s'"
    "\<forall>i\<in>set is. \<exists>c. ctx_of s' (Idle i) = Some c \<and> state c = TS_INIT \<and> th_type c = TYPE_IDLE \<and> prio c = MIN_PRIO \<and>
      affinity c = int i \<and> sc c = Some (scs i) \<and> fpu_state c \<noteq> None \<and> kernel_stack_state c = KS_FREE"
    "\<forall>u. u \<notin> Idle ` set is \<longrightarrow> ctx_of s' u = ctx_of s u"
    "current_threads s' = current_threads s" "rr_ready_queue s' = rr_ready_queue s"
    "\<forall>k. sched_conts s k \<noteq> None \<longrightarrow> sched_conts s' k \<noteq> None" "\<forall>i\<in>set is. sched_conts s' (scs i) \<noteq> None"
  using assms
proof (induction "is" arbitrary: s thesis)
  case Nil
  show ?case by (rule Nil.prems(1) [of s]) simp_all
next
  case (Cons i js)
  have h: "threads s (Idle i) \<noteq> None" using Cons.prems(2) by simp
  obtain s1 where s1: "init_idle_thread True (scs i) func grp i s = Inr s1"
    and c1: "\<exists>c. ctx_of s1 (Idle i) = Some c \<and> state c = TS_INIT \<and> th_type c = TYPE_IDLE \<and> prio c = MIN_PRIO \<and>
      affinity c = int i \<and> sc c = Some (scs i) \<and> fpu_state c \<noteq> None \<and> kernel_stack_state c = KS_FREE"
    and o1: "\<forall>u. u \<noteq> Idle i \<longrightarrow> ctx_of s1 u = ctx_of s u" "\<forall>u. threads s1 u = None \<longleftrightarrow> threads s u = None"
    and sel1: "current_threads s1 = current_threads s" "rr_ready_queue s1 = rr_ready_queue s"
    "sched_conts s1 = (sched_conts s)(scs i \<mapsto> DEFAULT_BUDGET)"
    using init_idle_thread_ok [OF h, of "scs i" func grp] .
  have "\<forall>i\<in>set js. threads s1 (Idle i) \<noteq> None" using Cons.prems(2) o1(2) by simp
  then obtain s2 where s2: "init_idle_threads (\<lambda>_. True) scs func grp js s1 = Inr s2"
    and c2: "\<forall>i\<in>set js. \<exists>c. ctx_of s2 (Idle i) = Some c \<and> state c = TS_INIT \<and> th_type c = TYPE_IDLE \<and> prio c = MIN_PRIO \<and>
      affinity c = int i \<and> sc c = Some (scs i) \<and> fpu_state c \<noteq> None \<and> kernel_stack_state c = KS_FREE"
    and o2: "\<forall>u. u \<notin> Idle ` set js \<longrightarrow> ctx_of s2 u = ctx_of s1 u"
    and sel2: "current_threads s2 = current_threads s1" "rr_ready_queue s2 = rr_ready_queue s1"
    "\<forall>k. sched_conts s1 k \<noteq> None \<longrightarrow> sched_conts s2 k \<noteq> None" "\<forall>i\<in>set js. sched_conts s2 (scs i) \<noteq> None"
    using Cons.IH by blast
  show ?case
  proof (rule Cons.prems(1) [of s2])
    show "init_idle_threads (\<lambda>_. True) scs func grp (i # js) s = Inr s2" using s1 s2 by simp
    show "\<forall>j\<in>set (i # js). \<exists>c. ctx_of s2 (Idle j) = Some c \<and> state c = TS_INIT \<and> th_type c = TYPE_IDLE \<and> prio c = MIN_PRIO \<and>
      affinity c = int j \<and> sc c = Some (scs j) \<and> fpu_state c \<noteq> None \<and> kernel_stack_state c = KS_FREE"
    proof
      fix j assume "j \<in> set (i # js)"
      then consider "j \<in> set js" | "j = i" "Idle j \<notin> Idle ` set js" by auto
      then show "\<exists>c. ctx_of s2 (Idle j) = Some c \<and> state c = TS_INIT \<and> th_type c = TYPE_IDLE \<and> prio c = MIN_PRIO \<and>
        affinity c = int j \<and> sc c = Some (scs j) \<and> fpu_state c \<noteq> None \<and> kernel_stack_state c = KS_FREE"
        using c1 c2 o2 by cases auto
    qed
    show "\<forall>k. sched_conts s k \<noteq> None \<longrightarrow> sched_conts s2 k \<noteq> None" using sel1(3) sel2(3) by simp
    show "\<forall>j\<in>set (i # js). sched_conts s2 (scs j) \<noteq> None" using sel1(3) sel2(3,4) by simp
  qed (use o1 o2 sel1 sel2 in simp_all)
qed

lemma rr_sched_init_inv:
  obtains s where "rr_sched_init (\<lambda>_. True) scs func grp boot_sched = Inr s" "rri.smp_inv (\<lambda>_. False) {} s"
    "current_threads s = (\<lambda>_. None)" "rr_ready_queue s = (\<lambda>_. [])"
proof -
  let ?b = "boot_sched\<lparr>current_threads := (\<lambda>i. if i < PLAT_CPU_NUM then None else current_threads boot_sched i),
         rr_ready_queue := (\<lambda>i. if i < PLAT_CPU_NUM then [] else rr_ready_queue boot_sched i)\<rparr>"
  have none: "ctx_of ?b u = None" for u by (auto simp: ctx_of_def boot_sched_def zero_thread_def split: tid.splits)
  have th: "\<forall>i\<in>set [0..<PLAT_CPU_NUM]. threads ?b (Idle i) \<noteq> None" by (simp add: boot_sched_def)
  obtain s where s: "init_idle_threads (\<lambda>_. True) scs func grp [0..<PLAT_CPU_NUM] ?b = Inr s"
    and c: "\<forall>i\<in>set [0..<PLAT_CPU_NUM]. \<exists>c. ctx_of s (Idle i) = Some c \<and> state c = TS_INIT \<and> th_type c = TYPE_IDLE \<and> prio c = MIN_PRIO \<and>
      affinity c = int i \<and> sc c = Some (scs i) \<and> fpu_state c \<noteq> None \<and> kernel_stack_state c = KS_FREE"
    and o: "\<forall>u. u \<notin> Idle ` set [0..<PLAT_CPU_NUM] \<longrightarrow> ctx_of s u = ctx_of ?b u"
    and sel: "current_threads s = current_threads ?b" "rr_ready_queue s = rr_ready_queue ?b"
    and mono: "\<forall>k. sched_conts ?b k \<noteq> None \<longrightarrow> sched_conts s k \<noteq> None"
    and sc: "\<forall>i\<in>set [0..<PLAT_CPU_NUM]. sched_conts s (scs i) \<noteq> None"
    using init_idle_threads_ok [OF th, of scs func grp] .
  have sel': "current_threads s = (\<lambda>_. None)" "rr_ready_queue s = (\<lambda>_. [])" using sel by (auto simp: boot_sched_def)
  have idle: "\<exists>i<PLAT_CPU_NUM. t = Idle i \<and> state d = TS_INIT \<and> th_type d = TYPE_IDLE \<and> prio d = MIN_PRIO \<and>
      affinity d = int i \<and> sc d = Some (scs i) \<and> fpu_state d \<noteq> None" if d: "ctx_of s t = Some d" for t d
  proof (cases "t \<in> Idle ` set [0..<PLAT_CPU_NUM]")
    case True
    then obtain i where "t = Idle i" "i < PLAT_CPU_NUM" by auto
    then have "i \<in> set [0..<PLAT_CPU_NUM]" by simp
    from bspec [OF c this] obtain c' where c': "ctx_of s (Idle i) = Some c'" "state c' = TS_INIT" "th_type c' = TYPE_IDLE"
      "prio c' = MIN_PRIO" "affinity c' = int i" "sc c' = Some (scs i)" "fpu_state c' \<noteq> None" by blast
    have "c' = d" using c'(1) d \<open>t = Idle i\<close> by simp
    then show ?thesis using c' \<open>t = Idle i\<close> \<open>i < PLAT_CPU_NUM\<close> by blast
  next
    case False
    then show ?thesis using o none d by simp
  qed
  have nr: "state d \<noteq> TS_READY" if "ctx_of s t = Some d" for t d using idle [OF that] by auto
  then have "\<not> ready_on s t k" for t k by (auto simp: ready_on_def split: option.splits)
  then have "rr.queue_inv s" using nr by (simp add: rr.queue_inv_def sel')
  moreover have "ctxs_ok s"
    unfolding ctxs_ok_def
  proof (intro conjI allI impI)
    fix t d assume d: "ctx_of s t = Some d"
    show "ctx_ok s d" using idle [OF d] sc by (auto simp: ctx_ok_def MIN_PRIO_def)
    show "(th_type d = TYPE_IDLE) = (\<exists>i. t = Idle i)" using idle [OF d] by auto
  next
    fix i d assume "ctx_of s (Idle i) = Some d"
    then show "state d \<noteq> TS_READY" using idle by fastforce
  next
    fix i assume "i < PLAT_CPU_NUM"
    then have "i \<in> set [0..<PLAT_CPU_NUM]" by simp
    then show "ctx_of s (Idle i) \<noteq> None" using c by fastforce
  qed
  moreover have "owner_inv (\<lambda>_. False) {} s" by (simp add: owner_inv_def sel' left_behind_def)
  ultimately show ?thesis using that [of s] s sel' by (simp add: rr_sched_init_def rri.smp_inv_def)
qed

section \<open>No kernel stack is shared\<close>

definition uses_stack :: "(nat \<Rightarrow> bool) \<Rightarrow> sched_state \<Rightarrow> nat \<Rightarrow> tid \<Rightarrow> bool" where
  "uses_stack pend s k t = (current_threads s k = Some t \<or> left_behind pend s k t)"

lemma owner_uses_stack: "owner_inv pend X s \<Longrightarrow> uses_stack pend s j t \<Longrightarrow> uses_stack pend s k t \<Longrightarrow> j = k"
  unfolding owner_inv_def uses_stack_def by metis


lemma smp_boot:
  obtains s0 s where "rr_sched_init (\<lambda>_. True) scs func grp boot_sched = Inr s0"
    "smp_reachable s0 ((\<lambda>_. False)(0 := True)) s" "current_threads s 0 = Some (Idle 0)"
proof -
  obtain s0 where s0: "rr_sched_init (\<lambda>_. True) scs func grp boot_sched = Inr s0" "rri.smp_inv (\<lambda>_. False) {} s0"
    "current_threads s0 = (\<lambda>_. None)" "rr_ready_queue s0 = (\<lambda>_. [])"
    using rr_sched_init_inv .
  have z: "(0::nat) < PLAT_CPU_NUM" by (simp add: PLAT_CPU_NUM_def)
  obtain s1 s where s: "release_current rr_sched_enqueue 0 s0 = Inr (True, s1)"
    "policy_sched rr_sched_enqueue rr_sched_choose_thread 0 s0 = Inr s"
    "current_threads s = (current_threads s0)(0 := Some (rri.next_thread 0 s1))"
    by (rule rri.sched_running [OF s0(2) z]) (use s0(3) in simp_all)
  have "s1 = s0" using s(1) s0(3) by (simp add: release_current_def)
  then have "current_threads s 0 = Some (Idle 0)" using s(3) s0(4) by (simp add: rri.next_thread_def)
  moreover have "rr_sched 0 s0 = Inr s" using s(2) smp_inv_rr_sched [OF s0(2)] by simp
  then have "smp_step (\<lambda>_. False, s0) ((\<lambda>_. False)(0 := True), s)"
    by (intro smp_step.first) (use s0(3) z in simp_all)
  then have "smp_reachable s0 ((\<lambda>_. False)(0 := True)) s" using smp_reachable.step smp_reachable.start by blast
  ultimately show ?thesis using that s0(1) by blast
qed




end
