(* ===== verification/Round_Robin.thy ===== *)
theory Round_Robin
  imports Sched
begin

text \<open>
  What a time slice means to the threads of one CPU: \<^verbatim>\<open>sys_yield\<close> rotates the ring
  that the current thread forms with the ready queue, so every ready thread gets its turn. The
  theory also holds the error cases of the enqueue operation and an interleaving in which an
  interrupt frees the kernel stack of a running thread.
\<close>

section \<open>The ring of a CPU\<close>

definition ring :: "nat \<Rightarrow> sched_state \<Rightarrow> tid list" where
  "ring k s = (case current_threads s k of None \<Rightarrow> [] | Some t \<Rightarrow> t # rr_ready_queue s k)"

text \<open>A user thread that stays on CPU \<open>k\<close>.\<close>

definition stays_on :: "sched_state \<Rightarrow> nat \<Rightarrow> tid \<Rightarrow> bool" where
  "stays_on s k t = (case ctx_of s t of None \<Rightarrow> False
    | Some c \<Rightarrow> ctx_ok s c \<and> th_type c = TYPE_USER \<and> target_cpu k c = of_nat k \<and>
        (\<exists>vm. map_option th_vmspace (threads s t) = Some (Some vm)))"

definition in_state :: "sched_state \<Rightarrow> thread_state \<Rightarrow> tid \<Rightarrow> bool" where
  "in_state s st t = (case ctx_of s t of None \<Rightarrow> False | Some c \<Rightarrow> state c = st)"

definition stack_free :: "sched_state \<Rightarrow> tid \<Rightarrow> bool" where
  "stack_free s t = (case ctx_of s t of None \<Rightarrow> False | Some c \<Rightarrow> kernel_stack_state c = KS_FREE)"

definition ring_ok :: "nat \<Rightarrow> sched_state \<Rightarrow> bool" where
  "ring_ok k s = (cur_sched_ops s = RR \<and> k < PLAT_CPU_NUM \<and> distinct (ring k s) \<and>
    (case current_threads s k of None \<Rightarrow> False | Some t \<Rightarrow> in_state s TS_RUNNING t \<and>
      (\<forall>u\<in>set (ring k s). stays_on s k u) \<and>
      (\<forall>u\<in>set (rr_ready_queue s k). in_state s TS_READY u \<and> ready_on s u k \<and> stack_free s u)))"

lemma stays_on_cong:
  assumes "map_option cfg (ctx_of s' t) = map_option cfg (ctx_of s t)"
    "map_option th_vmspace (threads s' t) = map_option th_vmspace (threads s t)"
    "\<And>j. sched_conts s j \<noteq> None \<Longrightarrow> sched_conts s' j \<noteq> None"
  shows "stays_on s k t \<Longrightarrow> stays_on s' k t"
  using assms
  by (cases "ctx_of s t"; cases "ctx_of s' t")
    (auto simp: stays_on_def cfg_def ctx_ok_def target_cpu_def split: option.splits)

lemma in_state_view: "view s' t = view s t \<Longrightarrow> in_state s' st t = in_state s st t"
  by (cases "ctx_of s t"; cases "ctx_of s' t") (auto simp: in_state_def dest: sched_viewD)

lemma stack_free_view: "view s' t = view s t \<Longrightarrow> stack_free s' t = stack_free s t"
  by (cases "ctx_of s t"; cases "ctx_of s' t") (auto simp: stack_free_def dest: sched_viewD)

text \<open>
  A yield in terms of the scheduling state: \<open>s'\<close> is what \<open>sys_yield\<close> leaves when \<open>old\<close> ran before,
  \<open>new\<close> runs now and the queue went from \<open>q\<close> to \<open>q'\<close>.
\<close>

definition yielded :: "nat \<Rightarrow> tid \<Rightarrow> tid \<Rightarrow> sched_state \<Rightarrow> sched_state \<Rightarrow> bool" where
  "yielded k old new s s' = (
    (\<forall>u. u \<noteq> old \<longrightarrow> u \<noteq> new \<longrightarrow> view s' u = view s u) \<and>
    (\<forall>u. map_option cfg (ctx_of s' u) = map_option cfg (ctx_of s u)) \<and>
    (\<forall>u. map_option th_vmspace (threads s' u) = map_option th_vmspace (threads s u)) \<and>
    (\<forall>j. sched_conts s j \<noteq> None \<longrightarrow> sched_conts s' j \<noteq> None) \<and>
    cur_sched_ops s' = cur_sched_ops s \<and> current_threads s' k = Some new \<and> in_state s' TS_RUNNING new \<and>
    (old \<noteq> new \<longrightarrow> in_state s' TS_READY old \<and> ready_on s' old k \<and> stack_free s' old) \<and>
    rr_ready_queue s' k = remove1 new (rr_ready_queue s k @ [old]))"

lemma yielded_ring:
  assumes r: "ring_ok k s" and cur: "current_threads s k = Some old" and y: "yielded k old new s s'"
    and new: "new = hd (rr_ready_queue s k @ [old])"
  shows "ring_ok k s' \<and> ring k s' = rotate1 (ring k s)"
proof -
  let ?q = "rr_ready_queue s k"
  have d: "distinct (old # ?q)" using r cur by (simp add: ring_ok_def ring_def)
  have q': "rr_ready_queue s' k = tl (?q @ [old])"
    using y new by (cases "?q") (simp_all add: yielded_def)
  have ring': "ring k s' = rotate1 (ring k s)"
    using y q' new cur by (cases "?q") (simp_all add: ring_def yielded_def)
  have st: "stays_on s' k u" if "u \<in> set (ring k s)" for u
    by (rule stays_on_cong [of s' u s]) (use y r that cur in \<open>auto simp: yielded_def ring_ok_def\<close>)
  have rd: "in_state s' TS_READY u \<and> ready_on s' u k \<and> stack_free s' u" if u: "u \<in> set (rr_ready_queue s' k)" for u
  proof (cases "u = old")
    case True
    then have "old \<noteq> new" using u q' new d by (cases "?q") auto
    then show ?thesis using True y by (simp add: yielded_def)
  next
    case False
    then have "u \<in> set ?q" "u \<noteq> new" using u q' new d by (cases "?q"; auto)+
    then have "view s' u = view s u" "in_state s TS_READY u" "ready_on s u k" "stack_free s u"
      using False y r cur by (auto simp: yielded_def ring_ok_def)
    then show ?thesis using in_state_view ready_on_view stack_free_view by metis
  qed
  have "distinct (ring k s')" using r ring' by (simp add: ring_ok_def)
  then have "ring_ok k s'" using r y cur st rd ring' by (simp add: ring_ok_def yielded_def)
  then show ?thesis using ring' by blast
qed

section \<open>A yield step by step\<close>

lemma ring_okD:
  assumes "ring_ok k s" "current_threads s k = Some old"
  obtains c b vm where "ctx_of s old = Some c" "ctx_ok s c" "th_type c = TYPE_USER" "target_cpu k c = of_nat k"
    "state c = TS_RUNNING" "k < PLAT_CPU_NUM" "cur_sched_ops s = RR"
proof -
  have "in_state s TS_RUNNING old" "stays_on s k old" "k < PLAT_CPU_NUM" "cur_sched_ops s = RR"
    using assms by (simp_all add: ring_ok_def ring_def)
  then show ?thesis using that by (auto simp: in_state_def stays_on_def split: option.splits)
qed

text \<open>The current thread goes to the end of the queue.\<close>

lemma yield_release:
  assumes r: "ring_ok k s" and cur: "current_threads s k = Some old"
  obtains s1 s2 s3 where "set_budget old 0 s = Inr s1" "release_current rr_sched_enqueue k s1 = Inr (True, s3)"
    "restated old TS_READY (of_nat k) s2 s3" "rr_ready_queue s3 = (rr_ready_queue s)(k := rr_ready_queue s k @ [old])"
    "s2 = upd_ctx old (\<lambda>c. c\<lparr>state := TS_INTER\<rparr>) (s\<lparr>sched_conts := sched_conts s2\<rparr>)"
    "\<forall>j. sched_conts s j \<noteq> None \<longrightarrow> sched_conts s2 j \<noteq> None" "cur_sched_ops s1 = RR"
    "rr_sched k s1 = policy_sched rr_sched_enqueue rr_sched_choose_thread k s1"
    "cur_sched_ops s3 = RR"
proof -
  obtain c where c: "ctx_of s old = Some c" "ctx_ok s c" "th_type c = TYPE_USER" "target_cpu k c = of_nat k"
    "state c = TS_RUNNING" "k < PLAT_CPU_NUM" "cur_sched_ops s = RR"
    using ring_okD [OF r cur] by metis
  obtain j b where j: "sc c = Some j" "sched_conts s j = Some b"
    using c(2) by (auto simp: ctx_ok_def split: option.splits)
  define s1 where "s1 = s\<lparr>sched_conts := (sched_conts s)(j \<mapsto> 0)\<rparr>"
  define s2 where "s2 = upd_ctx old (\<lambda>c. c\<lparr>state := TS_INTER\<rparr>) (s\<lparr>sched_conts := (sched_conts s)(j \<mapsto> DEFAULT_BUDGET)\<rparr>)"
  have ok1: "ctx_ok s1 c" using c(2) by (auto simp: ctx_ok_def s1_def split: option.splits)
  have c2: "ctx_of s2 old = Some (c\<lparr>state := TS_INTER\<rparr>)" "ctx_ok s2 (c\<lparr>state := TS_INTER\<rparr>)"
    using c(1,2) j by (auto simp: s2_def ctx_ok_def split: option.splits)
  have k: "unat (of_nat k :: u32) = k" using c(6) by simp
  have tc: "target_cpu k (c\<lparr>state := TS_INTER\<rparr>) = of_nat k" using c(4) by (simp add: target_cpu_def split: if_splits)
  obtain s3 where s3: "rr_sched_enqueue k old s2 = Inr (0, s3)" "restated old TS_READY (of_nat k) s2 s3"
    "rr_ready_queue s3 = (rr_ready_queue s)(k := rr_ready_queue s k @ [old])"
    using rr_enq_ok [OF c2(1) _ _ c2(2) c(6)] c(3) k unfolding tc by (auto simp: s2_def)
  show ?thesis
  proof (rule that [of s1 s3 s2])
    show "set_budget old 0 s = Inr s1" using c(1) j by (simp add: set_budget_def s1_def)
    show "release_current rr_sched_enqueue k s1 = Inr (True, s3)"
      using cur c j s3(1) by (simp add: release_current_def s1_def budget_of_def refill_def s2_def)
    show "rr_sched k s1 = policy_sched rr_sched_enqueue rr_sched_choose_thread k s1"
      by (rule rr_sched_policy) (use cur c ok1 in \<open>simp add: s1_def\<close>)
    show "s2 = upd_ctx old (\<lambda>c. c\<lparr>state := TS_INTER\<rparr>) (s\<lparr>sched_conts := sched_conts s2\<rparr>)" by (simp add: s2_def)
    show "cur_sched_ops s3 = RR" using s3(2) c(7) by (simp add: restated_def same_sched_def s2_def)
  qed (use s3 c in \<open>simp_all add: s1_def s2_def\<close>)
qed

text \<open>The first thread of the queue is taken.\<close>

lemma yield_choose:
  assumes r: "ring_ok k s" and cur: "current_threads s k = Some old"
    and s2: "s2 = upd_ctx old (\<lambda>c. c\<lparr>state := TS_INTER\<rparr>) (s\<lparr>sched_conts := sc2\<rparr>)"
    and s3: "restated old TS_READY (of_nat k) s2 s3" "rr_ready_queue s3 = (rr_ready_queue s)(k := rr_ready_queue s k @ [old])"
    and new: "new = hd (rr_ready_queue s k @ [old])"
  obtains s4 where "rr_sched_choose_thread k s3 = Inr (new, s4)" "restated new TS_INTER (of_nat k) s3 s4"
    "rr_ready_queue s4 k = remove1 new (rr_ready_queue s k @ [old])"
proof -
  have d: "old \<notin> set (rr_ready_queue s k)" and k: "k < PLAT_CPU_NUM" using r cur by (simp_all add: ring_ok_def ring_def)
  obtain c where c: "ctx_of s old = Some c" using ring_okD [OF r cur] by metis
  have v3: "view s3 u = view s u" if "u \<noteq> old" for u using restated_view [OF s3(1) that] that s2 by simp
  obtain c3 where c3: "ctx_of s3 old = Some c3" "sched_view c3 = sched_view (c\<lparr>state := TS_READY, cpuid := of_nat k\<rparr>)"
    using restated_self [OF s3(1), of "c\<lparr>state := TS_INTER\<rparr>"] c s2 by auto
  have cur3: "current_threads s3 k = Some old" using restated_sel(1) [OF s3(1)] cur s2 by simp
  have rd: "\<forall>t\<in>set (rr_ready_queue s3 k). ready_on s3 t k"
  proof
    fix t assume t: "t \<in> set (rr_ready_queue s3 k)"
    show "ready_on s3 t k"
    proof (cases "t = old")
      case True
      then show ?thesis using c3 sched_viewD [OF c3(2)] k by (simp add: ready_on_def)
    next
      case False
      then have "ready_on s t k" using t s3(2) r cur by (simp add: ring_ok_def)
      then show ?thesis using ready_on_view [OF v3 [OF False]] by simp
    qed
  qed
  have "stack_usable k s3 new"
  proof (cases "rr_ready_queue s k")
    case Nil
    then show ?thesis using new cur3 by (simp add: stack_usable_def)
  next
    case (Cons a q)
    then have "stack_free s a" "a \<noteq> old" using r cur d by (auto simp: ring_ok_def)
    then have "stack_free s3 a" using stack_free_view [OF v3] by simp
    then show ?thesis using Cons new by (simp add: stack_usable_def stack_free_def)
  qed
  then have "find (stack_usable k s3) (rr_ready_queue s3 k) = Some new"
    using s3(2) new by (cases "rr_ready_queue s k") simp_all
  from rr_pick_ok [OF rd this] show ?thesis using that s3(2) by fastforce
qed

text \<open>The CPU switches to the thread it took and leaves the kernel.\<close>

lemma eret_self:
  assumes "current_threads s k = Some t" "ctx_of s t = Some c" "prev_of s t = THREAD_ITSELF"
  shows "eret_to_thread k s = Inr (t, s)"
proof -
  obtain th where "threads s t = Some th" "prev_thread th = THREAD_ITSELF"
    using assms(2,3) ctx_of_threads [OF assms(2)] by (auto simp: prev_of_def)
  then show ?thesis using assms by (simp add: eret_to_thread_def switch_context_def finish_switch_def)
qed

lemma eret_other:
  assumes cur: "current_threads s k = Some t" and k: "k < PLAT_CPU_NUM" and c: "ctx_of s t = Some c" "th_type c = TYPE_USER"
    and vm: "map_option th_vmspace (threads s t) = Some (Some vm)" and p: "prev_of s t = Prev p" "ctx_of s p \<noteq> None"
  obtains s1 where "eret_to_thread k s = Inr (t, upd_ctx p (\<lambda>c. c\<lparr>kernel_stack_state := KS_FREE\<rparr>) s1)" "same_sched s s1"
proof -
  obtain th where th: "threads s t = Some th" "th_vmspace th = Some vm" "prev_thread th = Prev p"
    using vm p(1) by (auto simp: prev_of_def)
  define s1 where "s1 = s\<lparr>history_cpus := (history_cpus s)(vm := (history_cpus s vm)(k := True)),
      ttbr0_el1 := (ttbr0_el1 s)(k := Some vm)\<rparr>"
  have "switch_context k s = Inr (t, s1)"
    using cur k c th p(1)
    by (simp add: switch_context_def record_history_cpu_def switch_thread_vmspace_to_def s1_def)
  moreover have "finish_switch k s1 = Inr (upd_ctx p (\<lambda>c. c\<lparr>kernel_stack_state := KS_FREE\<rparr>) s1)"
    using cur th p(2) by (auto simp: finish_switch_def s1_def)
  ultimately show ?thesis using that [of s1] by (simp add: eret_to_thread_def s1_def same_sched_def)
qed

lemma restated_cfg: "restated t st k s s' \<Longrightarrow> map_option cfg (ctx_of s' u) = map_option cfg (ctx_of s u)"
proof (cases "u = t")
  case False
  assume "restated t st k s s'"
  then show ?thesis using restated_view cfg_view False by blast
next
  case True
  assume r: "restated t st k s s'"
  show ?thesis
  proof (cases "ctx_of s t")
    case None
    then have "view s' t = None" using r by (simp add: restated_def same_sched_def)
    then show ?thesis using None True by simp
  next
    case (Some c)
    then obtain c' where c': "ctx_of s' t = Some c'" "sched_view c' = sched_view (c\<lparr>state := st, cpuid := k\<rparr>)"
      using restated_self [OF r] by blast
    then show ?thesis using sched_viewD [OF c'(2)] Some True by (simp add: cfg_def)
  qed
qed

lemma switched_cfg: "map_option cfg (ctx_of (switched k t s) u) = map_option cfg (ctx_of s u)"
  by (cases "u = t"; cases "ctx_of s u") (auto simp: ctx_of_switched cfg_def)

lemma switched_vmspace: "map_option th_vmspace (threads (switched k t s) u) = map_option th_vmspace (threads s u)"
  by (auto simp: switched_def upd_ctx_def upd_thread_def option.map_comp comp_def)

lemma upd_stack_cfg: "map_option cfg (ctx_of (upd_ctx p (\<lambda>c. c\<lparr>kernel_stack_state := x\<rparr>) s) u) = map_option cfg (ctx_of s u)"
  by (cases "u = p"; cases "ctx_of s u") (auto simp: cfg_def)

lemma same_sched_cfg: "same_sched s s' \<Longrightarrow> map_option cfg (ctx_of s' u) = map_option cfg (ctx_of s u)"
  by (rule cfg_view) (simp add: same_sched_def)

lemma same_sched_vm: "same_sched s s' \<Longrightarrow> map_option th_vmspace (threads s' u) = map_option th_vmspace (threads s u)"
  by (simp add: same_sched_def)

text \<open>
  The last stretch of a yield, from the state \<open>s4\<close> in which \<open>new\<close> is off the queue and \<open>old\<close>, unless
  they are the same, is on it.
\<close>

lemma yield_exit:
  assumes k: "k < PLAT_CPU_NUM" and cur: "current_threads s4 k = Some old"
    and n: "ctx_of s4 new = Some n" "state n = TS_INTER" "th_type n = TYPE_USER"
    and vm: "map_option th_vmspace (threads s4 new) = Some (Some vm)"
    and o: "old \<noteq> new \<longrightarrow> (\<exists>c. ctx_of s4 old = Some c)" "ctx_of s4 old \<noteq> None"
  obtains s5 s7 where "switch_to_thread k new s4 = Inr s5" "eret_to_thread k s5 = Inr (new, s7)"
    "\<forall>u. u \<noteq> old \<longrightarrow> u \<noteq> new \<longrightarrow> view s7 u = view s4 u"
    "\<forall>u. map_option cfg (ctx_of s7 u) = map_option cfg (ctx_of s4 u)"
    "\<forall>u. map_option th_vmspace (threads s7 u) = map_option th_vmspace (threads s4 u)"
    "sched_conts s7 = sched_conts s4" "cur_sched_ops s7 = cur_sched_ops s4" "current_threads s7 k = Some new"
    "in_state s7 TS_RUNNING new" "rr_ready_queue s7 = rr_ready_queue s4"
    "old \<noteq> new \<longrightarrow> stack_free s7 old \<and> (\<forall>st. in_state s4 st old \<longrightarrow> in_state s7 st old) \<and>
      (\<forall>j. ready_on s7 old j = ready_on s4 old j)"
proof -
  have th: "threads s4 new \<noteq> None" using ctx_of_threads [OF n(1)] .
  obtain s5 where s5: "switch_to_thread k new s4 = Inr s5" and ss: "same_sched (switched k new s4) s5"
    using switch_to_thread_ok [OF n(1), of k] n(2) cur o(2) by auto
  have cur5: "current_threads s5 k = Some new" using ss by (simp add: same_sched_def)
  have pr5: "prev_of s5 new = (if old = new then THREAD_ITSELF else Prev old)"
    using ss th cur by (simp add: same_sched_def prev_of_switched)
  obtain n5 where n5: "ctx_of s5 new = Some n5" "state n5 = TS_RUNNING" "th_type n5 = TYPE_USER"
  proof -
    obtain x where x: "ctx_of (switched k new s4) new = Some x" "state x = TS_RUNNING" "th_type x = TYPE_USER"
      using n by (auto simp: ctx_of_switched)
    obtain y where y: "ctx_of s5 new = Some y" "sched_view y = sched_view x" using same_sched_ctx [OF ss x(1)] .
    show ?thesis using that [OF y(1)] sched_viewD [OF y(2)] x by simp
  qed
  have v5: "view s5 u = view s4 u" if "u \<noteq> new" for u
    using ss that by (simp add: same_sched_def ctx_of_switched)
  have cfg5: "map_option cfg (ctx_of s5 u) = map_option cfg (ctx_of s4 u)" for u
    using same_sched_cfg [OF ss] switched_cfg by metis
  have vm5: "map_option th_vmspace (threads s5 u) = map_option th_vmspace (threads s4 u)" for u
    using same_sched_vm [OF ss] switched_vmspace by metis
  have sel5: "sched_conts s5 = sched_conts s4" "cur_sched_ops s5 = cur_sched_ops s4" "rr_ready_queue s5 = rr_ready_queue s4"
    using ss by (simp_all add: same_sched_def)
  show ?thesis
  proof (cases "old = new")
    case True
    then have "eret_to_thread k s5 = Inr (new, s5)" using eret_self [OF cur5 n5(1)] pr5 by simp
    then show ?thesis
      using that [OF s5] v5 cfg5 vm5 sel5 cur5 n5 True by (simp add: in_state_def)
  next
    case False
    have o5: "ctx_of s5 old \<noteq> None" using v5 [of old] o(2) False by (cases "ctx_of s5 old") auto
    obtain s6 where s6: "eret_to_thread k s5 = Inr (new, upd_ctx old (\<lambda>c. c\<lparr>kernel_stack_state := KS_FREE\<rparr>) s6)"
      "same_sched s5 s6"
      using eret_other [OF cur5 k n5(1,3), of vm old] vm vm5 pr5 False o5 by auto
    have v6: "view s6 u = view s5 u" for u using s6(2) by (simp add: same_sched_def)
    let ?s = "upd_ctx old (\<lambda>c. c\<lparr>kernel_stack_state := KS_FREE\<rparr>) s6"
    obtain c6 c4 where c6: "ctx_of s6 old = Some c6" "ctx_of s4 old = Some c4" "sched_view c6 = sched_view c4"
      using v6 [of old] v5 [of old] False o5 by (cases "ctx_of s6 old"; cases "ctx_of s4 old"; auto)
    note w = sched_viewD [OF c6(3)]
    show ?thesis
    proof (rule that [OF s5 s6(1)])
      show "\<forall>u. u \<noteq> old \<longrightarrow> u \<noteq> new \<longrightarrow> view ?s u = view s4 u" using v6 v5 by simp
      show "\<forall>u. map_option cfg (ctx_of ?s u) = map_option cfg (ctx_of s4 u)"
        using upd_stack_cfg same_sched_cfg [OF s6(2)] cfg5 by metis
      show "\<forall>u. map_option th_vmspace (threads ?s u) = map_option th_vmspace (threads s4 u)"
        using same_sched_vm [OF s6(2)] vm5 by simp
      show "in_state ?s TS_RUNNING new"
        using in_state_view [OF v6, of TS_RUNNING new] n5 False by (auto simp: in_state_def)
      show "old \<noteq> new \<longrightarrow> stack_free ?s old \<and> (\<forall>st. in_state s4 st old \<longrightarrow> in_state ?s st old) \<and>
          (\<forall>j. ready_on ?s old j = ready_on s4 old j)"
        using c6 w by (simp add: stack_free_def in_state_def ready_on_def)
    qed (use s6(2) sel5 cur5 in \<open>simp_all add: same_sched_def\<close>)
  qed
qed

lemma sys_yield_yielded:
  assumes r: "ring_ok k s" and cur: "current_threads s k = Some old" and new: "new = hd (rr_ready_queue s k @ [old])"
  obtains s' where "sys_yield k s = Inr (new, s')" "yielded k old new s s'"
proof -
  have k: "k < PLAT_CPU_NUM" using r by (simp add: ring_ok_def)
  obtain s1 s2 s3 where s1: "set_budget old 0 s = Inr s1" and rel: "release_current rr_sched_enqueue k s1 = Inr (True, s3)"
    and s3: "restated old TS_READY (of_nat k) s2 s3" "rr_ready_queue s3 = (rr_ready_queue s)(k := rr_ready_queue s k @ [old])"
    and s2: "s2 = upd_ctx old (\<lambda>c. c\<lparr>state := TS_INTER\<rparr>) (s\<lparr>sched_conts := sched_conts s2\<rparr>)"
    and sc2: "\<forall>j. sched_conts s j \<noteq> None \<longrightarrow> sched_conts s2 j \<noteq> None" and op1: "cur_sched_ops s1 = RR"
    and pol: "rr_sched k s1 = policy_sched rr_sched_enqueue rr_sched_choose_thread k s1" and op3: "cur_sched_ops s3 = RR"
    using yield_release [OF r cur] .
  obtain s4 where s4: "rr_sched_choose_thread k s3 = Inr (new, s4)" "restated new TS_INTER (of_nat k) s3 s4"
    "rr_ready_queue s4 k = remove1 new (rr_ready_queue s k @ [old])"
    using yield_choose [OF r cur s2 s3 new] .
  have v2: "view s2 u = view s u" if "u \<noteq> old" for u by (subst s2) (simp add: that)
  have cfg2: "map_option cfg (ctx_of s2 u) = map_option cfg (ctx_of s u)" for u
    by (subst s2) (cases "u = old"; cases "ctx_of s u"; auto simp: cfg_def)
  have vm2: "map_option th_vmspace (threads s2 u) = map_option th_vmspace (threads s u)" for u
    by (subst s2) simp
  have cur2: "current_threads s2 = current_threads s" by (subst s2) simp
  have v4: "view s4 u = view s u" if "u \<noteq> old" "u \<noteq> new" for u
    using restated_view [OF s4(2) that(2)] restated_view [OF s3(1) that(1)] v2 [OF that(1)] by simp
  have cfg4: "map_option cfg (ctx_of s4 u) = map_option cfg (ctx_of s u)" for u
    using restated_cfg [OF s4(2)] restated_cfg [OF s3(1)] cfg2 by metis
  have vm4: "map_option th_vmspace (threads s4 u) = map_option th_vmspace (threads s u)" for u
    using restated_sel(5) [OF s4(2)] restated_sel(5) [OF s3(1)] vm2 by metis
  have cur4: "current_threads s4 k = Some old"
    using restated_sel(1) [OF s4(2)] restated_sel(1) [OF s3(1)] cur2 cur by simp
  have sc4: "sched_conts s4 = sched_conts s2" using restated_sel(2) [OF s4(2)] restated_sel(2) [OF s3(1)] by simp
  have st: "stays_on s k u" if "u \<in> {old, new}" for u
    using r cur that new by (cases "rr_ready_queue s k") (auto simp: ring_ok_def ring_def)
  have ex: "ctx_of s u \<noteq> None" if "u \<in> {old, new}" for u using st [OF that] by (auto simp: stays_on_def split: option.splits)
  obtain c3 where c3: "ctx_of s3 new = Some c3"
    using ex [of new] restated_cfg [OF s3(1), of new] cfg2 [of new] by (cases "ctx_of s3 new") auto
  obtain n where n: "ctx_of s4 new = Some n" "sched_view n = sched_view (c3\<lparr>state := TS_INTER, cpuid := of_nat k\<rparr>)"
    using restated_self [OF s4(2) c3] by blast
  have nst: "state n = TS_INTER" using sched_viewD [OF n(2)] by simp
  have nty: "th_type n = TYPE_USER"
    using cfg4 [of new] n(1) st [of new] by (auto simp: stays_on_def cfg_def split: option.splits)
  obtain vm where vm: "map_option th_vmspace (threads s4 new) = Some (Some vm)"
    using st [of new] vm4 [of new] by (auto simp: stays_on_def split: option.splits)
  have o4: "ctx_of s4 old \<noteq> None" using ex [of old] cfg4 [of old] by (cases "ctx_of s4 old") auto
  have oready: "old \<noteq> new \<longrightarrow> in_state s4 TS_READY old \<and> ready_on s4 old k"
  proof
    assume ne: "old \<noteq> new"
    obtain c2 where c2: "ctx_of s2 old = Some c2" using ex [of old] cfg2 [of old] by (cases "ctx_of s2 old") auto
    obtain c where c: "ctx_of s3 old = Some c" "sched_view c = sched_view (c2\<lparr>state := TS_READY, cpuid := of_nat k\<rparr>)"
      using restated_self [OF s3(1) c2] by blast
    have "in_state s3 TS_READY old \<and> ready_on s3 old k"
      using c sched_viewD [OF c(2)] k by (simp add: in_state_def ready_on_def)
    then show "in_state s4 TS_READY old \<and> ready_on s4 old k"
      using in_state_view ready_on_view restated_view [OF s4(2) ne] by metis
  qed
  have o5: "old \<noteq> new \<longrightarrow> (\<exists>c. ctx_of s4 old = Some c)" using o4 by blast
  obtain s5 s7 where s5: "switch_to_thread k new s4 = Inr s5" "eret_to_thread k s5 = Inr (new, s7)"
    and e: "\<forall>u. u \<noteq> old \<longrightarrow> u \<noteq> new \<longrightarrow> view s7 u = view s4 u"
    "\<forall>u. map_option cfg (ctx_of s7 u) = map_option cfg (ctx_of s4 u)"
    "\<forall>u. map_option th_vmspace (threads s7 u) = map_option th_vmspace (threads s4 u)"
    "sched_conts s7 = sched_conts s4" "cur_sched_ops s7 = cur_sched_ops s4" "current_threads s7 k = Some new"
    "in_state s7 TS_RUNNING new" "rr_ready_queue s7 = rr_ready_queue s4"
    "old \<noteq> new \<longrightarrow> stack_free s7 old \<and> (\<forall>st. in_state s4 st old \<longrightarrow> in_state s7 st old) \<and>
      (\<forall>j. ready_on s7 old j = ready_on s4 old j)"
    using yield_exit [OF k cur4 n(1) nst nty vm o5 o4] .
  have "sys_yield k s = Inr (new, s7)"
    using cur s1 op1 pol rel s4(1) s5 by (simp add: sys_yield_def sched_def policy_sched_def)
  moreover have "cur_sched_ops s4 = RR" using s4(2) op3 by (simp add: restated_def same_sched_def)
  then have "yielded k old new s s7"
    unfolding yielded_def using e v4 cfg4 vm4 sc4 sc2 oready s4(3) r by (simp add: ring_ok_def)
  ultimately show ?thesis using that by blast
qed

lemma yield_rotates:
  assumes r: "ring_ok k s"
  shows "\<exists>s'. sys_yield k s = Inr (hd (ring k s'), s') \<and> ring_ok k s' \<and> ring k s' = rotate1 (ring k s)"
proof -
  obtain old where cur: "current_threads s k = Some old" using r by (auto simp: ring_ok_def split: option.splits)
  let ?new = "hd (rr_ready_queue s k @ [old])"
  obtain s' where s': "sys_yield k s = Inr (?new, s')" "yielded k old ?new s s'" using sys_yield_yielded [OF r cur] by blast
  have y: "ring_ok k s' \<and> ring k s' = rotate1 (ring k s)" using yielded_ring [OF r cur s'(2)] by simp
  moreover have "hd (ring k s') = ?new" using y cur by (cases "rr_ready_queue s k") (simp_all add: ring_def)
  ultimately show ?thesis using s'(1) by auto
qed

text \<open>A CPU whose threads do nothing but give up their time slices.\<close>

fun yields :: "nat \<Rightarrow> nat \<Rightarrow> sched_state \<Rightarrow> sched_state res" where
  "yields k 0 s = Inr s"
| "yields k (Suc n) s = bind_res (sys_yield k s) (\<lambda>(_, s1). yields k n s1)"

text \<open>
  C14: Round robin is fair: on a CPU that runs and queues user threads, \<open>n\<close> successive
  \<^verbatim>\<open>sys_yield\<close> calls all return, keep the set of threads, and give the CPU to the thread
  that was at position \<open>n\<close> behind the running one. Every queued thread therefore runs within as many
  time slices as there are threads.
\<close>

theorem round_robin_fair:
  assumes "ring_ok k s" and "n < length (ring k s)"
  shows "\<exists>s'. yields k n s = Inr s' \<and> current_threads s' k = Some (ring k s ! n) \<and> ring k s' = rotate n (ring k s)"
proof -
  have "\<exists>s'. yields k m s = Inr s' \<and> ring_ok k s' \<and> ring k s' = rotate m (ring k s)" if "ring_ok k s" for m s
    using that
  proof (induction m arbitrary: s)
    case (Suc m)
    obtain s1 where s1: "sys_yield k s = Inr (hd (ring k s1), s1)" "ring_ok k s1" "ring k s1 = rotate1 (ring k s)"
      using yield_rotates [OF Suc.prems] by blast
    obtain s' where "yields k m s1 = Inr s'" "ring_ok k s'" "ring k s' = rotate m (ring k s1)"
      using Suc.IH [OF s1(2)] by blast
    then show ?case using s1 by (simp add: rotate1_rotate_swap)
  qed simp
  then obtain s' where s': "yields k n s = Inr s'" "ring_ok k s'" "ring k s' = rotate n (ring k s)"
    using assms(1) by blast
  have "ring k s' \<noteq> []" using s'(3) assms(2) by auto
  then obtain t where t: "current_threads s' k = Some t" "hd (ring k s') = t"
    by (auto simp: ring_def split: option.splits)
  have "hd (rotate n (ring k s)) = ring k s ! n"
    using assms(2) hd_rotate_conv_nth [of "ring k s" n] by fastforce
  then show ?thesis using s' t by auto
qed

text \<open>Two user threads on CPU 0: the first runs, the second is queued.\<close>

definition demo_thread :: "thread_state \<Rightarrow> kernel_stack \<Rightarrow> nat \<Rightarrow> s32 \<Rightarrow> thread" where
  "demo_thread st ks j aff = zero_thread\<lparr>thread_ctx := Some (zero_ctx\<lparr>fpu_state := Some zero_fpu, sc := Some j,
    th_type := TYPE_USER, state := st, affinity := aff, kernel_stack_state := ks\<rparr>), th_vmspace := Some 0\<rparr>"

definition demo_sched :: "s32 \<Rightarrow> sched_state" where
  "demo_sched aff = boot_sched\<lparr>
    threads := [Thread 0 \<mapsto> demo_thread TS_RUNNING KS_LOCKED 0 aff, Thread 1 \<mapsto> demo_thread TS_READY KS_FREE 1 NO_AFF],
    current_threads := (\<lambda>_. None)(0 := Some (Thread 0)), sched_conts := [0 \<mapsto> 1, 1 \<mapsto> 1],
    rr_ready_queue := (\<lambda>_. [])(0 := [Thread 1])\<rparr>"

lemma demo_ring_ok: "ring_ok 0 (demo_sched NO_AFF)" "ring 0 (demo_sched NO_AFF) = [Thread 0, Thread 1]"
  by (simp_all add: ring_ok_def ring_def demo_sched_def demo_thread_def boot_sched_def zero_thread_def zero_ctx_def
      in_state_def stays_on_def ready_on_def stack_free_def ctx_of_def ctx_ok_def target_cpu_def PLAT_CPU_NUM_def
      MAX_PRIO_def)

theorem round_robin_fair_witness:
  "1 < length (ring 0 (demo_sched NO_AFF)) \<and> ring_ok 0 (demo_sched NO_AFF) \<and>
    (\<exists>s'. yields 0 1 (demo_sched NO_AFF) = Inr s' \<and> current_threads s' 0 = Some (Thread 1))"
  using round_robin_fair [OF demo_ring_ok(1), of 1] demo_ring_ok by fastforce

section \<open>Errors of the enqueue operation\<close>

text \<open>
  For a thread that is no idle thread, \<^verbatim>\<open>rr_sched_enqueue\<close> returns
  \<^verbatim>\<open>-EINVAL\<close> exactly when the priority is above \<^verbatim>\<open>MAX_PRIO\<close>, the
  affinity names no CPU or the thread is already ready, and then leaves the scheduling state as it
  was; otherwise it returns 0 and the thread is the last one of the ready queue of its CPU.
\<close>

theorem rr_enqueue_errors:
  assumes c: "ctx_of s t = Some c" "th_type c \<noteq> TYPE_IDLE" "fpu_state c \<noteq> None" and k: "k < PLAT_CPU_NUM"
  shows "\<exists>ret s'. rr_sched_enqueue k t s = Inr (ret, s') \<and>
    (if prio c > MAX_PRIO \<or> unat (target_cpu k c) \<ge> PLAT_CPU_NUM \<or> state c = TS_READY
     then ret = - EINVAL \<and> same_sched s s'
     else ret = 0 \<and> in_state s' TS_READY t \<and>
       rr_ready_queue s' (unat (target_cpu k c)) = rr_ready_queue s (unat (target_cpu k c)) @ [t])"
proof -
  let ?k = "target_cpu k c"
  obtain s1 where s1: "(if ?k \<noteq> of_nat k then save_and_release_fpu k t s else Inr s) = Inr s1" "same_sched s s1"
    using enqueue_prefix [OF c(1,3)] by metis
  obtain c1 where c1: "ctx_of s1 t = Some c1" "sched_view c1 = sched_view c" using same_sched_ctx [OF s1(2) c(1)] .
  have st: "state c1 = state c" using sched_viewD [OF c1(2)] by simp
  have le: "of_nat PLAT_CPU_NUM \<le> ?k \<longleftrightarrow> PLAT_CPU_NUM \<le> unat ?k"
    by (simp add: word_le_nat_alt PLAT_CPU_NUM_def)
  have q: "rr_ready_queue s1 = rr_ready_queue s" using s1(2) by (simp add: same_sched_def)
  have e: "rr_sched_enqueue k t s = (if prio c > MAX_PRIO \<or> unat ?k \<ge> PLAT_CPU_NUM then Inr (- EINVAL, s)
      else rr_sched_enqueue_nolock t ?k s1)"
    using c s1(1) by (simp add: rr_sched_enqueue_def Let_def le flip: target_cpu_def)
  show ?thesis
  proof (cases "prio c > MAX_PRIO \<or> unat ?k \<ge> PLAT_CPU_NUM")
    case True
    then show ?thesis using e by auto
  next
    case False
    then show ?thesis
      using e s1(2) c1(1) st q by (auto simp: rr_sched_enqueue_nolock_def in_state_def)
  qed
qed

theorem rr_enqueue_errors_witness:
  "ctx_of (demo_sched NO_AFF) (Thread 1) \<noteq> None \<and>
    (\<exists>s'. rr_sched_enqueue 0 (Thread 1) (demo_sched NO_AFF) = Inr (- EINVAL, s') \<and> same_sched (demo_sched NO_AFF) s')"
proof -
  let ?c = "zero_ctx\<lparr>fpu_state := Some zero_fpu, sc := Some 1, th_type := TYPE_USER, state := TS_READY,
    affinity := NO_AFF, kernel_stack_state := KS_FREE\<rparr>"
  have c: "ctx_of (demo_sched NO_AFF) (Thread 1) = Some ?c"
    by (simp add: ctx_of_def demo_sched_def demo_thread_def)
  show ?thesis using rr_enqueue_errors [OF c, of 0] c by (auto simp: PLAT_CPU_NUM_def)
qed

section \<open>A stale predecessor\<close>

lemma stale_run:
  "case sys_yield 0 (demo_sched 1) of Inl _ \<Rightarrow> False | Inr (t1, s1) \<Rightarrow> t1 = Thread 1 \<and>
    (case bind_res (sched 1 s1) (eret_to_thread 1) of Inl _ \<Rightarrow> False | Inr (t2, s2) \<Rightarrow>
      t2 = Thread 0 \<and> \<not> stack_free s2 (Thread 0) \<and>
      (case handle_irq (\<lambda>_. Inr) 0 s2 of Inl _ \<Rightarrow> False | Inr (t3, s3) \<Rightarrow>
        t3 = Thread 1 \<and> current_threads s3 1 = Some (Thread 0) \<and> stack_free s3 (Thread 0)))"
  by code_simp


end
