(* ===== verification/Fpu.thy ===== *)
theory Fpu
  imports Round_Robin
begin

text \<open>
  The lazily switched FPU of \<^verbatim>\<open>kernel/arch/aarch64/sched/fpu.c\<close>: on one CPU no
  thread can tell that its registers are saved and restored only when another thread uses the FPU.
  Across CPUs this fails: a thread that is woken on another CPU leaves its registers behind.
\<close>

section \<open>The registers a thread sees\<close>

definition area_of :: "fpu_registers \<Rightarrow> aarch64_fpu_area" where
  "area_of r = \<lparr>fpu = q_regs r, fpcr = ucast (r_fpcr r), fpsr = ucast (r_fpsr r)\<rparr>"

text \<open>
  The FPU contents that belong to thread \<open>t\<close> on CPU \<open>k\<close>: the registers when it owns the FPU, else
  its saved area.
\<close>

definition fpu_view :: "nat \<Rightarrow> sched_state \<Rightarrow> tid \<Rightarrow> aarch64_fpu_area option" where
  "fpu_view k s t = (if fpu_owner (cpu_info s k) = Some t then Some (area_of (fpu_regs s k))
    else case ctx_of s t of None \<Rightarrow> None | Some c \<Rightarrow> fpu_state c)"

definition uses_fpu :: "sched_state \<Rightarrow> tid \<Rightarrow> bool" where
  "uses_fpu s t = (case ctx_of s t of None \<Rightarrow> False | Some c \<Rightarrow> above_kernel (th_type c) \<and> fpu_state c \<noteq> None)"

lemma area_of_restored:
  "area_of \<lparr>q_regs = fpu a, r_fpcr = ucast (fpcr a), r_fpsr = ucast (fpsr a)\<rparr> = a"
proof -
  have "ucast (ucast x :: u64) = x" for x :: u32 by (intro bit_eqI) (auto simp: bit_simps)
  then show ?thesis by (simp add: area_of_def)
qed

lemma bits_enabled: "(c OR push_bit 20 3) AND push_bit 20 3 = (push_bit 20 3 :: u32)"
  by (intro bit_eqI) (auto simp: bit_simps)


text \<open>Thread 0 of the example runs on CPU 0 and owns its FPU, with 7 in the first register.\<close>

definition demo_fpu :: sched_state where
  "demo_fpu = (demo_sched NO_AFF)
    \<lparr>cpu_info := (\<lambda>_. \<lparr>fpu_owner = None, fpu_disable = 0\<rparr>)(0 := \<lparr>fpu_owner = Some (Thread 0), fpu_disable = 0\<rparr>),
     fpu_regs := (\<lambda>_. \<lparr>q_regs = (\<lambda>_. 0), r_fpcr = 0, r_fpsr = 0\<rparr>)(0 := \<lparr>q_regs = (\<lambda>_. 0)(0 := 7), r_fpcr = 0, r_fpsr = 0\<rparr>)\<rparr>"


section \<open>Registers left behind\<close>

definition reg0_after_move :: "128 word res" where
  "reg0_after_move =
    bind_res (rr_sched 0 (upd_ctx (Thread 0) (\<lambda>c. c\<lparr>state := TS_WAITING\<rparr>) demo_fpu)) (\<lambda>s1.
    bind_res (eret_to_thread 0 s1) (\<lambda>(_, s2).
    bind_res (rr_sched_enqueue 1 (Thread 0) (upd_ctx (Thread 0) (\<lambda>c. c\<lparr>state := TS_INTER\<rparr>) s2)) (\<lambda>(_, s3).
    bind_res (rr_sched 1 s3) (\<lambda>s4.
    bind_res (eret_to_thread 1 s4) (\<lambda>(_, s5).
    bind_res (change_fpu_owner 1 s5) (\<lambda>s6. Inr (q_regs (fpu_regs s6 1) 0)))))))"

text \<open>
  A thread with 7 in an FPU register waits on CPU 0, is woken by CPU 1 and, having no affinity, runs
  there. Its register then reads 0: \<open>rr_sched_enqueue\<close> saves the registers only when the thread goes
  to a CPU other than the one that wakes it.
\<close>

lemma fpu_register_lost: "reg0_after_move = Inr 0"
  by code_simp

end
