(* ===== verification/Slot_Table.thy ===== *)
theory Slot_Table
  imports Bitops Kmalloc
begin

text \<open>
  The table that maps the capability numbers of a process to its slots
  (\<^verbatim>\<open>kernel/object/cap_group.c\<close> and \<^verbatim>\<open>kernel/include/object/cap_group.h\<close>):
  an array of slot pointers, a bitmap of the numbers in use and a coarser bitmap of full words.
  A table grows by 64 numbers when it is full.
\<close>

section \<open>The table\<close>

definition BASE_OBJECT_NUM :: nat where "BASE_OBJECT_NUM = BITS_PER_LONG"

record slot_table =
  slots_size :: nat
  slots :: "nat option list"
  full_slots_bmp :: bitmap
  slots_bmp :: bitmap

text \<open>
  Requests up to the largest slab never return \<^verbatim>\<open>NULL\<close> (\<open>alloc_in_slab\<close> returns a slot or
  stops); for larger ones \<open>mem n\<close> tells whether \<open>n\<close> bytes can be had.
\<close>

definition kmalloc_ok :: "(nat \<Rightarrow> bool) \<Rightarrow> nat \<Rightarrow> bool" where
  "kmalloc_ok mem n = (n \<le> 2 ^ SLAB_MAX_ORDER \<or> mem n)"

text \<open>The result is an error number or the new, zeroed table.\<close>

definition slot_table_init :: "(nat \<Rightarrow> bool) \<Rightarrow> nat \<Rightarrow> s32 + slot_table" where
  "slot_table_init mem sz =
    (let size = DIV_ROUND_UP sz BASE_OBJECT_NUM * BASE_OBJECT_NUM in
     if \<not> kmalloc_ok mem (size * 8) then Inl (- ENOMEM)
     else if \<not> kmalloc_ok mem (BITS_TO_LONGS size * 8) then Inl (- ENOMEM)
     else if \<not> kmalloc_ok mem (BITS_TO_LONGS (BITS_TO_LONGS size) * 8) then Inl (- ENOMEM)
     else Inr \<lparr>slots_size = size, slots = replicate size None,
       full_slots_bmp = replicate (BITS_TO_LONGS (BITS_TO_LONGS size)) 0,
       slots_bmp = replicate (BITS_TO_LONGS size) 0\<rparr>)"

definition copy_words :: "nat \<Rightarrow> 'a list \<Rightarrow> 'a list \<Rightarrow> 'a list" where
  "copy_words n src dst = take n src @ drop n dst"

definition expand_slot_table :: "(nat \<Rightarrow> bool) \<Rightarrow> slot_table \<Rightarrow> s32 \<times> slot_table" where
  "expand_slot_table mem st =
    (let old_size = slots_size st; new_size = old_size + BASE_OBJECT_NUM in
     case slot_table_init mem new_size of Inl r \<Rightarrow> (r, st)
     | Inr nt \<Rightarrow> (0, st\<lparr>slots_size := new_size,
         slots := copy_words old_size (slots st) (slots nt),
         slots_bmp := copy_words (BITS_TO_LONGS old_size) (slots_bmp st) (slots_bmp nt),
         full_slots_bmp := copy_words (BITS_TO_LONGS (BITS_TO_LONGS old_size)) (full_slots_bmp st) (full_slots_bmp nt)\<rparr>))"

text \<open>One round of the search: a free number, or none.\<close>

definition find_slot_id :: "slot_table \<Rightarrow> nat option res" where
  "find_slot_id st =
    (let bmp_size = slots_size st; full_bmp_size = BITS_TO_LONGS bmp_size in
     bind_res (find_next_zero_bit (full_slots_bmp st) full_bmp_size 0) (\<lambda>empty_idx.
       if empty_idx \<ge> full_bmp_size then Inr None
       else bind_res (find_next_zero_bit (slots_bmp st) bmp_size (empty_idx * BITS_PER_LONG)) (\<lambda>empty_idx.
         if empty_idx \<ge> bmp_size then Inr None else Inr (Some empty_idx))))"

text \<open>The loop: search, and expand while there is nothing to find.\<close>

partial_function (option) alloc_slot_loop :: "(nat \<Rightarrow> bool) \<Rightarrow> slot_table \<Rightarrow> (s32 \<times> slot_table) res option" where
  "alloc_slot_loop mem st =
    (if isl (find_slot_id st) then Some (Inl (projl (find_slot_id st)))
     else if projr (find_slot_id st) \<noteq> None then Some (Inr (int (the (projr (find_slot_id st))), st))
     else if fst (expand_slot_table mem st) < 0 then Some (Inr (expand_slot_table mem st))
     else alloc_slot_loop mem (snd (expand_slot_table mem st)))"

text \<open>
  After the search the code marks a word as full when a word of the bitmap of full words is all
  ones, not the word of the slot bitmap; its index runs past the bitmap once there are more than 64
  numbers. \<open>beyond\<close> is what the memory behind the bitmap holds.
\<close>

definition alloc_slot_id :: "(nat \<Rightarrow> bool) \<Rightarrow> (nat \<Rightarrow> u64) \<Rightarrow> slot_table \<Rightarrow> (s32 \<times> slot_table) res" where
  "alloc_slot_id mem beyond st =
    bind_res (case alloc_slot_loop mem st of None \<Rightarrow> Inl No_Return | Some r \<Rightarrow> r) (\<lambda>(r, st1).
      if r < 0 then Inr (r, st1)
      else let empty_idx = nat r; w = empty_idx div BITS_PER_LONG in
        bug_on (empty_idx \<ge> slots_size st1)
        (bind_res (set_bit_c empty_idx (slots_bmp st1)) (\<lambda>b.
          if (if w < length (full_slots_bmp st1) then full_slots_bmp st1 ! w else beyond w) = NOT 0
          then bind_res (set_bit_c w (full_slots_bmp st1)) (\<lambda>f.
            Inr (r, st1\<lparr>slots_bmp := b, full_slots_bmp := f\<rparr>))
          else Inr (r, st1\<lparr>slots_bmp := b\<rparr>))))"

definition free_slot_id :: "nat \<Rightarrow> slot_table \<Rightarrow> slot_table res" where
  "free_slot_id slot_id st =
    bind_res (clear_bit slot_id (slots_bmp st)) (\<lambda>b.
    bind_res (clear_bit (slot_id div BITS_PER_LONG) (full_slots_bmp st)) (\<lambda>f.
    bind_res (upd_res (slots st) slot_id None) (\<lambda>sl.
      Inr (st\<lparr>slots_bmp := b, full_slots_bmp := f, slots := sl\<rparr>))))"

definition get_slot :: "s32 \<Rightarrow> slot_table \<Rightarrow> nat option res" where
  "get_slot slot_id st =
    (if slot_id < 0 \<or> slot_id \<ge> int (slots_size st) then Inr None
     else nth_res (slots st) (nat slot_id))"

definition install_slot :: "nat \<Rightarrow> nat \<Rightarrow> slot_table \<Rightarrow> slot_table res" where
  "install_slot slot_id p st =
    bind_res (get_bit slot_id (slots_bmp st)) (\<lambda>b. bug_on (\<not> b)
      (bind_res (upd_res (slots st) slot_id (Some p)) (\<lambda>sl. Inr (st\<lparr>slots := sl\<rparr>))))"

text \<open>
  The first test rejects negative numbers only: the conjunction in the source is never true of a
  number that is too large, which goes on to index the bitmap.
\<close>

definition is_valid_slot_id :: "s32 \<Rightarrow> slot_table \<Rightarrow> bool res" where
  "is_valid_slot_id slot_id st =
    (if slot_id < 0 \<and> (slot_id mod 2 ^ 32) \<ge> int (slots_size st) then Inr False
     else bind_res (get_bit (nat (slot_id mod 2 ^ 32)) (slots_bmp st)) (\<lambda>b.
       if \<not> b then Inr False
       else bind_res (nth_res (slots st) (nat (slot_id mod 2 ^ 32))) (\<lambda>p.
         bug_on (p = None) (Inr True))))"

section \<open>The shape of a table\<close>

text \<open>
  The machine has 1 GB of memory: no larger request can be served, so a table has at most
  \<open>2 ^ 27\<close> numbers and the arithmetic on \<^verbatim>\<open>int\<close> does not overflow.
\<close>

definition mem_bounded :: "(nat \<Rightarrow> bool) \<Rightarrow> bool" where
  "mem_bounded mem = (\<forall>n. mem n \<longrightarrow> n \<le> 2 ^ 30)"

definition table_wf :: "slot_table \<Rightarrow> bool" where
  "table_wf st = (64 dvd slots_size st \<and> 0 < slots_size st \<and> slots_size st \<le> 2 ^ 27 \<and> length (slots st) = slots_size st \<and>
    length (slots_bmp st) = slots_size st div 64 \<and> length (full_slots_bmp st) = BITS_TO_LONGS (slots_size st div 64) \<and>
    (\<forall>j. slots_size st div 64 \<le> j \<longrightarrow> j < 64 * length (full_slots_bmp st) \<longrightarrow> \<not> bmp (full_slots_bmp st) j))"

definition slot_at :: "slot_table \<Rightarrow> nat \<Rightarrow> nat option" where
  "slot_at st i = (if i < slots_size st then slots st ! i else None)"

definition in_use :: "slot_table \<Rightarrow> nat \<Rightarrow> bool" where
  "in_use st i = (i < slots_size st \<and> bmp (slots_bmp st) i)"

lemma table_wf_bmp: "table_wf st \<Longrightarrow> 64 * length (slots_bmp st) = slots_size st"
  by (auto simp: table_wf_def)

lemma BITS_TO_LONGS_mult: "64 dvd n \<Longrightarrow> BITS_TO_LONGS n = n div 64"
  by (auto simp: BITS_TO_LONGS_def BITS_PER_LONG_def mult.commute)

lemma BITS_TO_LONGS_ge: "n \<le> 64 * BITS_TO_LONGS n"
  by (simp add: BITS_TO_LONGS_def BITS_PER_LONG_def DIV_ROUND_UP_def)

lemma find_slot_id_ok:
  assumes w: "table_wf st"
  shows "\<exists>r. find_slot_id st = Inr r \<and> (\<forall>i. r = Some i \<longrightarrow> i < slots_size st \<and> \<not> in_use st i) \<and>
    (r = None \<longrightarrow> (\<forall>j i. j < slots_size st div 64 \<longrightarrow> \<not> bmp (full_slots_bmp st) j \<longrightarrow>
      j * 64 \<le> i \<longrightarrow> i < slots_size st \<longrightarrow> in_use st i))"
proof -
  let ?n = "slots_size st div 64"
  have n: "BITS_TO_LONGS (slots_size st) = ?n" using w by (simp add: table_wf_def BITS_TO_LONGS_mult)
  have "?n \<le> 64 * length (full_slots_bmp st)" using w BITS_TO_LONGS_ge by (simp add: table_wf_def)
  then obtain e where e: "find_next_zero_bit (full_slots_bmp st) ?n 0 = Inr e" "e \<le> ?n"
    "\<forall>i. i < e \<longrightarrow> bmp (full_slots_bmp st) i"
    using find_next_zero_bit_correct [of ?n "full_slots_bmp st" 0] by auto
  show ?thesis
  proof (cases "e < ?n")
    case False
    then have "find_slot_id st = Inr None" using e by (simp add: find_slot_id_def n)
    moreover have "\<forall>j<?n. bmp (full_slots_bmp st) j" using e False by auto
    ultimately show ?thesis by auto
  next
    case True
    obtain f where f: "find_next_zero_bit (slots_bmp st) (slots_size st) (e * 64) = Inr f" "f \<le> slots_size st"
      "\<forall>i. e * 64 \<le> i \<and> i < f \<longrightarrow> bmp (slots_bmp st) i" "f < slots_size st \<longrightarrow> \<not> bmp (slots_bmp st) f"
      using find_next_zero_bit_correct [of "slots_size st" "slots_bmp st" "e * 64"] table_wf_bmp [OF w] by auto
    have r: "find_slot_id st = Inr (if f < slots_size st then Some f else None)"
      using e f True by (simp add: find_slot_id_def n BITS_PER_LONG_def)
    have "in_use st i" if "j < ?n" "\<not> bmp (full_slots_bmp st) j" "j * 64 \<le> i" "i < slots_size st" "\<not> f < slots_size st" for i j
    proof -
      have "e \<le> j" using e(3) that(2) by (meson not_less)
      then have "e * 64 \<le> i" using that(3) by (meson le_trans mult_le_mono1)
      then show ?thesis using f that by (simp add: in_use_def)
    qed
    then show ?thesis using r f by (auto simp: in_use_def)
  qed
qed

lemma copy_words_nth: "length src \<ge> n \<Longrightarrow> i < length dst \<Longrightarrow> n \<le> length dst \<Longrightarrow>
    copy_words n src dst ! i = (if i < n then src ! i else dst ! i)"
  by (auto simp: copy_words_def nth_append min_absorb2)

lemma copy_words_length [simp]: "n \<le> length src \<Longrightarrow> n \<le> length dst \<Longrightarrow> length (copy_words n src dst) = length dst"
  by (simp add: copy_words_def)

text \<open>Expansion keeps the old numbers and adds a word of free ones.\<close>

lemma slot_table_init_mult:
  "64 dvd n \<Longrightarrow> slot_table_init mem n = Inl (- ENOMEM) \<or>
    slot_table_init mem n = Inr \<lparr>slots_size = n, slots = replicate n None,
       full_slots_bmp = replicate (BITS_TO_LONGS (n div 64)) 0, slots_bmp = replicate (n div 64) 0\<rparr>"
proof -
  assume a: "64 dvd n"
  have "DIV_ROUND_UP n BASE_OBJECT_NUM * BASE_OBJECT_NUM = n"
    using BITS_TO_LONGS_mult [OF a] a by (simp add: BITS_TO_LONGS_def BASE_OBJECT_NUM_def BITS_PER_LONG_def)
  then show ?thesis by (simp add: slot_table_init_def Let_def BITS_TO_LONGS_mult [OF a])
qed

lemma slot_table_init_bound: "64 dvd n \<Longrightarrow> mem_bounded mem \<Longrightarrow> slot_table_init mem n = Inr st \<Longrightarrow> n \<le> 2 ^ 27"
proof -
  assume a: "64 dvd n" "mem_bounded mem" "slot_table_init mem n = Inr st"
  have "DIV_ROUND_UP n BASE_OBJECT_NUM * BASE_OBJECT_NUM = n"
    using BITS_TO_LONGS_mult [OF a(1)] a(1) by (simp add: BITS_TO_LONGS_def BASE_OBJECT_NUM_def BITS_PER_LONG_def)
  then have "kmalloc_ok mem (n * 8)" using a(3) by (simp add: slot_table_init_def Let_def split: if_splits)
  then have "n * 8 \<le> 2 ^ 30" using a(2) by (auto simp: kmalloc_ok_def mem_bounded_def SLAB_MAX_ORDER_def)
  then show ?thesis by simp
qed

lemma bmp_append_zero:
  assumes "length src = n" "i < 64 * m" "n \<le> m"
  shows "bmp (copy_words n src (replicate m 0)) i \<longleftrightarrow> i < 64 * n \<and> bmp src i"
proof -
  have d: "i div 64 < m" using assms(2) by auto
  have l: "i div 64 < n \<longleftrightarrow> i < 64 * n" by auto
  show ?thesis using assms d by (simp add: bmp_def copy_words_nth l)
qed

lemma expand_ok:
  assumes w: "table_wf st" and sz: "mem_bounded mem"
  shows "expand_slot_table mem st = (- ENOMEM, st) \<or>
    (\<exists>st'. expand_slot_table mem st = (0, st') \<and> table_wf st' \<and> slots_size st' = slots_size st + 64 \<and>
      (\<forall>i. slot_at st' i = slot_at st i) \<and> (\<forall>i. in_use st' i = in_use st i) \<and>
      \<not> bmp (full_slots_bmp st') (slots_size st div 64))"
proof -
  let ?n = "slots_size st"
  have d: "64 dvd ?n + 64" "64 dvd ?n" using w by (auto simp: table_wf_def)
  have b: "BITS_TO_LONGS ?n = ?n div 64" using BITS_TO_LONGS_mult [OF d(2)] .
  have dv: "(?n + 64) div 64 = Suc (?n div 64)" by simp
  have le: "BITS_TO_LONGS (?n div 64) \<le> BITS_TO_LONGS (Suc (?n div 64))"
    by (simp add: BITS_TO_LONGS_def BITS_PER_LONG_def DIV_ROUND_UP_def div_le_mono)
  show ?thesis
  proof (cases "slot_table_init mem (?n + 64) = Inl (- ENOMEM)")
    case True
    then show ?thesis by (simp add: expand_slot_table_def Let_def BASE_OBJECT_NUM_def BITS_PER_LONG_def)
  next
    case False
    then have init: "slot_table_init mem (?n + 64) = Inr \<lparr>slots_size = ?n + 64, slots = replicate (?n + 64) None,
       full_slots_bmp = replicate (BITS_TO_LONGS (Suc (?n div 64))) 0, slots_bmp = replicate (Suc (?n div 64)) 0\<rparr>"
      using slot_table_init_mult [OF d(1), of mem] dv by simp
    define st' where "st' = st\<lparr>slots_size := ?n + 64, slots := copy_words ?n (slots st) (replicate (?n + 64) None),
      slots_bmp := copy_words (?n div 64) (slots_bmp st) (replicate (Suc (?n div 64)) 0),
      full_slots_bmp := copy_words (BITS_TO_LONGS (?n div 64)) (full_slots_bmp st) (replicate (BITS_TO_LONGS (Suc (?n div 64))) 0)\<rparr>"
    have e: "expand_slot_table mem st = (0, st')"
      using init b by (simp add: expand_slot_table_def Let_def BASE_OBJECT_NUM_def BITS_PER_LONG_def st'_def)
    have len: "length (slots st) = ?n" "length (slots_bmp st) = ?n div 64" using w by (simp_all add: table_wf_def)
    have ex: "length (full_slots_bmp st) = BITS_TO_LONGS (?n div 64)" using w by (simp add: table_wf_def)
    have lf: "length (full_slots_bmp st') = BITS_TO_LONGS (Suc (?n div 64))" using ex le by (simp add: st'_def)
    have clean: "\<not> bmp (full_slots_bmp st') j" if "?n div 64 \<le> j" "j < 64 * BITS_TO_LONGS (Suc (?n div 64))" for j
      using bmp_append_zero [OF ex that(2) le] that w ex by (auto simp: st'_def table_wf_def)
    have "table_wf st'"
      using w slot_table_init_bound [OF d(1) sz init] d len lf clean by (simp add: table_wf_def st'_def)
    moreover have "slot_at st' i = slot_at st i" for i
      using len by (auto simp: slot_at_def st'_def copy_words_nth)
    moreover have "in_use st' i = in_use st i" for i
    proof (cases "i < ?n + 64")
      case True
      have "?n = 64 * (?n div 64)" using d(2) by simp
      then have "i < 64 * Suc (?n div 64)" using True by simp
      then have "bmp (slots_bmp st') i \<longleftrightarrow> i < 64 * (?n div 64) \<and> bmp (slots_bmp st) i"
        using bmp_append_zero [OF len(2), of i "Suc (?n div 64)"] by (simp add: st'_def)
      then show ?thesis using True \<open>?n = 64 * (?n div 64)\<close> by (simp add: in_use_def st'_def)
    qed (simp add: in_use_def st'_def)
    moreover have "\<not> bmp (full_slots_bmp st') (?n div 64)"
      using clean BITS_TO_LONGS_ge [of "Suc (?n div 64)"] by simp
    ultimately show ?thesis using e lf dv by (simp add: st'_def)
  qed
qed

lemma alloc_slot_loop_ok:
  assumes w: "table_wf st" and sz: "mem_bounded mem"
  shows "alloc_slot_loop mem st = Some (Inr (- ENOMEM, st)) \<or>
    (\<exists>i st'. alloc_slot_loop mem st = Some (Inr (int i, st')) \<and> table_wf st' \<and> i < slots_size st' \<and> \<not> in_use st i \<and>
      slots_size st' \<le> slots_size st + 64 \<and>
      (\<forall>i. slot_at st' i = slot_at st i) \<and> (\<forall>i. in_use st' i = in_use st i))"
proof -
  obtain r where r: "find_slot_id st = Inr r" "\<forall>i. r = Some i \<longrightarrow> i < slots_size st \<and> \<not> in_use st i"
    using find_slot_id_ok [OF w] by blast
  show ?thesis
  proof (cases r)
    case (Some i)
    then have "alloc_slot_loop mem st = Some (Inr (int i, st))" using r(1) by (subst alloc_slot_loop.simps) simp
    then show ?thesis using Some r(2) w by auto
  next
    case None
    consider "expand_slot_table mem st = (- ENOMEM, st)"
      | st1 where "expand_slot_table mem st = (0, st1)" "table_wf st1" "slots_size st1 = slots_size st + 64"
        "\<forall>i. slot_at st1 i = slot_at st i" "\<forall>i. in_use st1 i = in_use st i" "\<not> bmp (full_slots_bmp st1) (slots_size st div 64)"
      using expand_ok [OF w sz] by blast
    then show ?thesis
    proof cases
      case 1
      then have "alloc_slot_loop mem st = Some (Inr (- ENOMEM, st))"
        using r(1) None by (subst alloc_slot_loop.simps) (simp add: ENOMEM_def)
      then show ?thesis by blast
    next
      case (2 st1)
      obtain r1 where r1: "find_slot_id st1 = Inr r1" "\<forall>i. r1 = Some i \<longrightarrow> i < slots_size st1 \<and> \<not> in_use st1 i"
        "r1 = None \<longrightarrow> (\<forall>j i. j < slots_size st1 div 64 \<longrightarrow> \<not> bmp (full_slots_bmp st1) j \<longrightarrow>
          j * 64 \<le> i \<longrightarrow> i < slots_size st1 \<longrightarrow> in_use st1 i)"
        using find_slot_id_ok [OF 2(2)] by blast
      have "\<not> in_use st1 (slots_size st)" using 2(5) by (simp add: in_use_def)
      moreover have "slots_size st div 64 * 64 \<le> slots_size st" by simp
      moreover have "slots_size st div 64 < slots_size st1 div 64" "slots_size st < slots_size st1" using 2(3) by simp_all
      ultimately have "r1 \<noteq> None" using r1(3) 2(6) by blast
      then obtain i where i: "r1 = Some i" by blast
      have "alloc_slot_loop mem st = alloc_slot_loop mem st1"
        using r(1) None 2(1) by (subst alloc_slot_loop.simps) simp
      also have "\<dots> = Some (Inr (int i, st1))" using r1(1) i by (subst alloc_slot_loop.simps) simp
      finally show ?thesis using 2 r1(2) i by auto
    qed
  qed
qed

lemma alloc_slot_id_ok:
  assumes w: "table_wf st" and sz: "mem_bounded mem"
  shows "\<exists>r st'. alloc_slot_id mem beyond st = Inr (r, st') \<and> table_wf st' \<and> (\<forall>i. slot_at st' i = slot_at st i) \<and>
    (r = - ENOMEM \<and> st' = st \<or>
     (\<exists>i. r = int i \<and> i < slots_size st' \<and> \<not> in_use st i \<and> (\<forall>j. in_use st' j \<longleftrightarrow> j = i \<or> in_use st j)))"
proof -
  consider "alloc_slot_loop mem st = Some (Inr (- ENOMEM, st))"
    | i st1 where "alloc_slot_loop mem st = Some (Inr (int i, st1))" "table_wf st1" "i < slots_size st1" "\<not> in_use st i"
      "\<forall>i. slot_at st1 i = slot_at st i" "\<forall>i. in_use st1 i = in_use st i"
    using alloc_slot_loop_ok [OF w sz] by blast
  then show ?thesis
  proof cases
    case 1
    then show ?thesis using w by (simp add: alloc_slot_id_def ENOMEM_def)
  next
    case (2 i st1)
    obtain b where b: "set_bit_c i (slots_bmp st1) = Inr b" "length b = length (slots_bmp st1)"
      "\<forall>j. j < slots_size st1 \<longrightarrow> (bmp b j \<longleftrightarrow> j = i \<or> bmp (slots_bmp st1) j)"
      using set_bit_c_in [of i "slots_bmp st1"] 2(3) table_wf_bmp [OF 2(2)] by auto
    have w1: "i div 64 < slots_size st1 div 64"
      using 2(2,3) by (auto simp: table_wf_def less_mult_imp_div_less)
    have f64: "slots_size st1 div 64 \<le> 64 * length (full_slots_bmp st1)"
      using 2(2) BITS_TO_LONGS_ge by (simp add: table_wf_def)
    obtain f where f: "set_bit_c (i div 64) (full_slots_bmp st1) = Inr f" "length f = length (full_slots_bmp st1)"
      "\<forall>j<64 * length (full_slots_bmp st1). bmp f j \<longleftrightarrow> j = i div 64 \<or> bmp (full_slots_bmp st1) j"
      using set_bit_c_in [of "i div 64" "full_slots_bmp st1"] w1 f64 by auto
    define st' where "st' = (if (if i div 64 < length (full_slots_bmp st1) then full_slots_bmp st1 ! (i div 64) else beyond (i div 64)) = NOT 0
      then st1\<lparr>slots_bmp := b, full_slots_bmp := f\<rparr> else st1\<lparr>slots_bmp := b\<rparr>)"
    have "alloc_slot_id mem beyond st = Inr (int i, st')"
      using 2(1,3) b(1) f(1) by (simp add: alloc_slot_id_def BITS_PER_LONG_def Let_def st'_def)
    moreover have "table_wf st'" using 2(2) b(2) f w1 by (auto simp: st'_def table_wf_def)
    moreover have "slots_size st' = slots_size st1" "slots st' = slots st1" "slots_bmp st' = b" by (simp_all add: st'_def)
    then have "slot_at st' j = slot_at st1 j" "in_use st' j \<longleftrightarrow> j = i \<or> in_use st1 j" "i < slots_size st'" for j
      using 2(3) b(3) by (auto simp: slot_at_def in_use_def)
    then have "\<forall>j. slot_at st' j = slot_at st j" "\<forall>j. in_use st' j \<longleftrightarrow> j = i \<or> in_use st j" "i < slots_size st'"
      using 2(5,6) by simp_all
    ultimately show ?thesis using 2(4) by blast
  qed
qed


lemma free_slot_id_ok:
  assumes w: "table_wf st" and i: "i < slots_size st"
  shows "\<exists>st'. free_slot_id i st = Inr st' \<and> table_wf st' \<and> slots_size st' = slots_size st \<and>
    (\<forall>j. slot_at st' j = (if j = i then None else slot_at st j)) \<and> (\<forall>j. in_use st' j \<longleftrightarrow> j \<noteq> i \<and> in_use st j)"
proof -
  obtain b where b: "clear_bit i (slots_bmp st) = Inr b" "length b = length (slots_bmp st)"
    "\<forall>j. j < slots_size st \<longrightarrow> (bmp b j \<longleftrightarrow> j \<noteq> i \<and> bmp (slots_bmp st) j)"
    using clear_bit_in [of i "slots_bmp st"] i table_wf_bmp [OF w] by auto
  have w1: "i div 64 < slots_size st div 64" using w i by (auto simp: table_wf_def less_mult_imp_div_less)
  have "slots_size st div 64 \<le> 64 * length (full_slots_bmp st)"
    using w BITS_TO_LONGS_ge by (simp add: table_wf_def)
  then obtain f where f: "clear_bit (i div 64) (full_slots_bmp st) = Inr f" "length f = length (full_slots_bmp st)"
    "\<forall>j<64 * length (full_slots_bmp st). bmp f j \<longleftrightarrow> j \<noteq> i div 64 \<and> bmp (full_slots_bmp st) j"
    using clear_bit_in [of "i div 64" "full_slots_bmp st"] w1 by auto
  define st' where "st' = st\<lparr>slots_bmp := b, full_slots_bmp := f, slots := (slots st)[i := None]\<rparr>"
  have "length (slots st) = slots_size st" using w by (simp add: table_wf_def)
  then have "free_slot_id i st = Inr st'"
    using b(1) f(1) i by (simp add: free_slot_id_def BITS_PER_LONG_def st'_def)
  moreover have "table_wf st'" using w b(2) f(2,3) by (simp add: st'_def table_wf_def)
  moreover have "\<forall>j. slot_at st' j = (if j = i then None else slot_at st j)"
    using w i by (auto simp: slot_at_def st'_def table_wf_def nth_list_update)
  moreover have "\<forall>j. in_use st' j \<longleftrightarrow> j \<noteq> i \<and> in_use st j" using b(3) by (auto simp: in_use_def st'_def)
  ultimately show ?thesis by (auto simp: st'_def)
qed

lemma install_slot_ok:
  assumes w: "table_wf st" and i: "in_use st i"
  shows "\<exists>st'. install_slot i p st = Inr st' \<and> table_wf st' \<and> slots_size st' = slots_size st \<and>
    (\<forall>j. slot_at st' j = (if j = i then Some p else slot_at st j)) \<and> (\<forall>j. in_use st' j = in_use st j)"
proof -
  have lt: "i < slots_size st" "bmp (slots_bmp st) i" using i by (auto simp: in_use_def)
  have "get_bit i (slots_bmp st) = Inr True" using lt table_wf_bmp [OF w] by simp
  moreover have "length (slots st) = slots_size st" using w by (simp add: table_wf_def)
  ultimately have "install_slot i p st = Inr (st\<lparr>slots := (slots st)[i := Some p]\<rparr>)"
    using lt by (simp add: install_slot_def)
  moreover have "table_wf (st\<lparr>slots := (slots st)[i := Some p]\<rparr>)" using w by (simp add: table_wf_def)
  ultimately show ?thesis using lt w by (auto simp: slot_at_def in_use_def table_wf_def nth_list_update)
qed

lemma get_slot_ok:
  assumes "table_wf st"
  shows "get_slot i st = Inr (if i < 0 then None else slot_at st (nat i))"
  using assms by (auto simp: get_slot_def slot_at_def table_wf_def nth_res_def)

definition empty_table :: slot_table where
  "empty_table = \<lparr>slots_size = 64, slots = replicate 64 None, full_slots_bmp = [0], slots_bmp = [0]\<rparr>"

lemma empty_table_wf: "table_wf empty_table" "in_use empty_table i = False" "slot_at empty_table i = None"
  by (auto simp: table_wf_def empty_table_def in_use_def slot_at_def bmp_def BITS_TO_LONGS_def BITS_PER_LONG_def DIV_ROUND_UP_def)


text \<open>A number far outside the table is not rejected: the bitmap is read out of range.\<close>

lemma is_valid_slot_id_out_of_range: "is_valid_slot_id 64 empty_table = Inl Bad_Access"
  by (simp add: is_valid_slot_id_def empty_table_def get_bit_def nth_res_def BITS_PER_LONG_def)

end
