(* ===== verification/Kernel_State.thy ===== *)
theory Kernel_State
  imports Slot_Table Sched
begin

text \<open>
  The state the object layer of the kernel works on: objects with their reference counts and lists
  of slots (\<^verbatim>\<open>kernel/include/object/object.h\<close>), slots and capability groups
  (\<^verbatim>\<open>kernel/include/object/cap_group.h\<close>) and interrupt objects
  (\<^verbatim>\<open>kernel/include/object/irq.h\<close>), notifications
  (\<^verbatim>\<open>kernel/include/ipc/notification.h\<close>) and the timers
  (\<^verbatim>\<open>kernel/irq/timer.c\<close>), beside the state of the scheduler.

  An object is named by the number of its block; the group, thread or interrupt that is the
  \<^verbatim>\<open>opaque\<close> part of the block has the same number, so \<^verbatim>\<open>container_of\<close> is the
  identity. Numbers are never used again after \<^verbatim>\<open>kfree\<close>: an access through a dangling
  pointer is a \<open>Bad_Access\<close>. The list \<open>copies_head\<close> holds the slots of an object in the order
  of the links. Sections under a lock are atomic.
\<close>

datatype object_type = TYPE_CAP_GROUP | TYPE_THREAD | TYPE_CONNECTION | TYPE_NOTIFICATION
  | TYPE_IRQ | TYPE_PMO | TYPE_VMSPACE

record object =
  ob_type :: object_type
  ob_size :: nat
  copies_head :: "nat list"
  refcount :: u64

record object_slot =
  slot_id :: nat
  sl_cap_group :: nat
  isvalid :: bool
  rights :: u64
  sl_object :: nat

record cap_group =
  slot_table :: slot_table
  thread_list :: "tid list"
  thread_cnt :: s32
  badge :: u64
  notify_recycler :: s32
  cap_group_name :: string

record notification =
  not_delivered_notifc_count :: u32
  waiting_threads_count :: u32
  waiting_threads :: "tid list"

record time_state =
  next_expire :: u64
  sleep_list :: "tid list"

datatype irq_handler = HANDLE_KERNEL | HANDLE_USER

text \<open>
  \<open>ks_mem n\<close> tells whether a request for \<open>n\<close> bytes beyond the slabs can be served, and
  \<open>ks_beyond\<close> is what lies behind the bitmap of full words of a slot table; no operation changes
  them. \<open>cntv_tval_el0\<close> and \<open>cntv_ctl_el0\<close> are the count-down and control registers of the timer
  of each CPU; \<open>cntv_init\<close>, \<open>cntv_freq\<close>, \<open>cntv_tval\<close> and \<open>tick_per_us\<close> are the variables of \<^verbatim>\<open>kernel/arch/aarch64/plat/raspi3/irq/timer.c\<close>.
\<close>

record kstate =
  ks_sched :: sched_state
  objects :: "nat \<rightharpoonup> object"
  obj_slots :: "nat \<rightharpoonup> object_slot"
  cap_groups :: "nat \<rightharpoonup> cap_group"
  intr_vectors :: "nat \<rightharpoonup> nat"
  irq_notifcs :: "nat \<Rightarrow> nat option"
  irq_handle_type :: "nat \<Rightarrow> irq_handler"
  notifications :: "nat \<rightharpoonup> notification"
  time_states :: "nat \<Rightarrow> time_state"
  cntv_tval_el0 :: "nat \<Rightarrow> u64"
  cntv_ctl_el0 :: "nat \<Rightarrow> u64"
  cntv_init :: u64
  cntv_freq :: u64
  cntv_tval :: u64
  tick_per_us :: u64
  next_id :: nat
  ks_mem :: "nat \<Rightarrow> bool"
  ks_beyond :: "nat \<Rightarrow> u64"

definition current_thread :: "nat \<Rightarrow> kstate \<Rightarrow> tid res" where
  "current_thread cpu s = (case current_threads (ks_sched s) cpu of None \<Rightarrow> Inl Bad_Access | Some t \<Rightarrow> Inr t)"

definition current_cap_group :: "nat \<Rightarrow> kstate \<Rightarrow> nat res" where
  "current_cap_group cpu s =
    bind_res (current_thread cpu s) (\<lambda>t. bind_res (deref (threads (ks_sched s)) t) (\<lambda>th.
      case th_cap_group th of None \<Rightarrow> Inl Bad_Access | Some g \<Rightarrow> Inr g))"

text \<open>The slot table of a group, replaced.\<close>

definition upd_table :: "nat \<Rightarrow> slot_table \<Rightarrow> kstate \<Rightarrow> kstate" where
  "upd_table g st s = s\<lparr>cap_groups := (cap_groups s)(g := map_option (slot_table_update (\<lambda>_. st)) (cap_groups s g))\<rparr>"

definition upd_object :: "nat \<Rightarrow> object \<Rightarrow> kstate \<Rightarrow> kstate" where
  "upd_object ob v s = s\<lparr>objects := (objects s)(ob \<mapsto> v)\<rparr>"

text \<open>\<^verbatim>\<open>kfree(object)\<close> takes away the block with everything in it.\<close>

definition kfree_object :: "nat \<Rightarrow> kstate \<Rightarrow> kstate" where
  "kfree_object ob s = s\<lparr>
    ks_sched := (ks_sched s)\<lparr>threads := (threads (ks_sched s))(Thread ob := None)\<rparr>,
    objects := (objects s)(ob := None), cap_groups := (cap_groups s)(ob := None),
    intr_vectors := (intr_vectors s)(ob := None), notifications := (notifications s)(ob := None)\<rparr>"

text \<open>A 64-bit system call argument that is passed on as \<^verbatim>\<open>int\<close>.\<close>

definition int_arg :: "u64 \<Rightarrow> s32" where
  "int_arg x = sint (ucast x :: 32 word)"

lemma upd_table_sel [simp]:
  "ks_sched (upd_table g st s) = ks_sched s" "objects (upd_table g st s) = objects s"
  "obj_slots (upd_table g st s) = obj_slots s" "intr_vectors (upd_table g st s) = intr_vectors s"
  "irq_notifcs (upd_table g st s) = irq_notifcs s" "irq_handle_type (upd_table g st s) = irq_handle_type s"
  "next_id (upd_table g st s) = next_id s" "ks_mem (upd_table g st s) = ks_mem s" "ks_beyond (upd_table g st s) = ks_beyond s"
  "cap_groups (upd_table g st s) h =
    (if h = g then map_option (slot_table_update (\<lambda>_. st)) (cap_groups s h) else cap_groups s h)"
  by (simp_all add: upd_table_def)

lemma upd_object_sel [simp]:
  "ks_sched (upd_object ob v s) = ks_sched s" "objects (upd_object ob v s) = (objects s)(ob \<mapsto> v)"
  "obj_slots (upd_object ob v s) = obj_slots s" "intr_vectors (upd_object ob v s) = intr_vectors s"
  "irq_notifcs (upd_object ob v s) = irq_notifcs s" "irq_handle_type (upd_object ob v s) = irq_handle_type s"
  "next_id (upd_object ob v s) = next_id s" "ks_mem (upd_object ob v s) = ks_mem s" "ks_beyond (upd_object ob v s) = ks_beyond s"
  "cap_groups (upd_object ob v s) = cap_groups s"
  by (simp_all add: upd_object_def)

lemma kfree_object_sel [simp]:
  "objects (kfree_object ob s) = (objects s)(ob := None)" "cap_groups (kfree_object ob s) = (cap_groups s)(ob := None)"
  "obj_slots (kfree_object ob s) = obj_slots s" "next_id (kfree_object ob s) = next_id s"
  "ks_mem (kfree_object ob s) = ks_mem s" "ks_beyond (kfree_object ob s) = ks_beyond s"
  by (simp_all add: kfree_object_def)

text \<open>A state without objects, for concrete runs.\<close>

definition boot_kstate :: kstate where
  "boot_kstate = \<lparr>ks_sched = boot_sched, objects = Map.empty, obj_slots = Map.empty, cap_groups = Map.empty,
    intr_vectors = Map.empty, irq_notifcs = (\<lambda>_. None), irq_handle_type = (\<lambda>_. HANDLE_KERNEL), notifications = Map.empty,
    time_states = (\<lambda>_. \<lparr>next_expire = 0, sleep_list = []\<rparr>), cntv_tval_el0 = (\<lambda>_. 0),
    cntv_ctl_el0 = (\<lambda>_. 0), cntv_init = 0, cntv_freq = 62000000, cntv_tval = 620000, tick_per_us = 62,
    next_id = 0, ks_mem = (\<lambda>n. n \<le> 4096), ks_beyond = (\<lambda>_. 0)\<rparr>"

end
