(* ===== verification/Capability.thy ===== *)
theory Capability
  imports Kernel_State
begin

text \<open>
  Capabilities (\<^verbatim>\<open>kernel/object/capability.c\<close>, the reference-counted access of
  \<^verbatim>\<open>kernel/object/cap_group.c\<close>, \<^verbatim>\<open>thread_deinit\<close> and \<^verbatim>\<open>irq_deinit\<close>).
  A capability number of a group leads to a slot, the slot to an object; the object lists its slots
  and counts the slots and the borrowed references. The invariant \<open>caps_inv\<close> states that these
  views agree; every operation keeps it.
\<close>

section \<open>Objects\<close>

definition OBJECT_SIZE :: nat where "OBJECT_SIZE = 48"
definition OBJECT_SLOT_SIZE :: nat where "OBJECT_SLOT_SIZE = 64"

definition obj_alloc :: "object_type \<Rightarrow> nat \<Rightarrow> kstate \<Rightarrow> nat option \<times> kstate" where
  "obj_alloc ty sz s =
    (let total_size = OBJECT_SIZE + sz in
     if \<not> kmalloc_ok (ks_mem s) total_size then (None, s)
     else (Some (next_id s), (upd_object (next_id s)
       \<lparr>ob_type = ty, ob_size = sz, copies_head = [], refcount = 0\<rparr> s)\<lparr>next_id := next_id s + 1\<rparr>))"

section \<open>Destructors\<close>

definition thread_deinit :: "nat \<Rightarrow> kstate \<Rightarrow> kstate res" where
  "thread_deinit ob s =
    bind_res (deref (threads (ks_sched s)) (Thread ob)) (\<lambda>th.
    bind_res (get_ctx (ks_sched s) (Thread ob)) (\<lambda>c.
      bug_on (state c = TS_RUNNING)
      (bind_res (if state c = TS_READY
          then bind_res (sched_dequeue (Thread ob) (ks_sched s)) (\<lambda>(r, s1). Inr s1)
          else Inr (ks_sched s)) (\<lambda>s1.
        case th_cap_group th of None \<Rightarrow> Inl Bad_Access
        | Some g \<Rightarrow> bind_res (deref (cap_groups s) g) (\<lambda>cg.
            bind_res (destroy_thread_ctx (Thread ob) s1) (\<lambda>s2.
              Inr (s\<lparr>ks_sched := s2, cap_groups := (cap_groups s)(g \<mapsto>
                cg\<lparr>thread_list := remove1 (Thread ob) (thread_list cg)\<rparr>)\<rparr>)))))))"

definition irq_deinit :: "nat \<Rightarrow> kstate \<Rightarrow> kstate res" where
  "irq_deinit ob s =
    bind_res (deref (intr_vectors s) ob) (\<lambda>irq.
      Inr (s\<lparr>irq_handle_type := (irq_handle_type s)(irq := HANDLE_KERNEL), irq_notifcs := (irq_notifcs s)(irq := None)\<rparr>))"

fun obj_deinit :: "object_type \<Rightarrow> nat \<Rightarrow> kstate \<Rightarrow> kstate res" where
  "obj_deinit TYPE_THREAD ob s = thread_deinit ob s"
| "obj_deinit TYPE_IRQ ob s = irq_deinit ob s"
| "obj_deinit TYPE_CAP_GROUP ob s = Inr s"
| "obj_deinit TYPE_CONNECTION ob s = Inr s"
| "obj_deinit TYPE_NOTIFICATION ob s = Inr s"
| "obj_deinit TYPE_PMO ob s = Inr s"
| "obj_deinit TYPE_VMSPACE ob s = Inr s"

section \<open>Slots\<close>

definition cap_alloc :: "nat \<Rightarrow> nat \<Rightarrow> u64 \<Rightarrow> kstate \<Rightarrow> (s32 \<times> kstate) res" where
  "cap_alloc g ob rts s =
    bind_res (deref (cap_groups s) g) (\<lambda>cg.
    bind_res (alloc_slot_id (ks_mem s) (ks_beyond s) (slot_table cg)) (\<lambda>(sid, st).
      if sid < 0 then Inr (- ENOMEM, upd_table g st s)
      else if \<not> kmalloc_ok (ks_mem s) OBJECT_SLOT_SIZE
      then bind_res (free_slot_id (nat sid) st) (\<lambda>st'. Inr (- ENOMEM, upd_table g st' s))
      else let slot = next_id s in
        bind_res (deref (objects s) ob) (\<lambda>v. bug_on (refcount v \<noteq> 0)
        (bind_res (install_slot (nat sid) slot st) (\<lambda>st'.
          Inr (sid, (upd_object ob (v\<lparr>copies_head := slot # copies_head v, refcount := 1\<rparr>) (upd_table g st' s))
            \<lparr>obj_slots := (obj_slots s)(slot \<mapsto> \<lparr>slot_id = nat sid, sl_cap_group = g, isvalid = True, rights = rts, sl_object = ob\<rparr>),
             next_id := slot + 1\<rparr>))))))"

text \<open>
  \<^verbatim>\<open>__cap_free\<close>; its two flags only tell which locks the caller already holds.
\<close>

definition cap_free_locked :: "nat \<Rightarrow> s32 \<Rightarrow> kstate \<Rightarrow> (s32 \<times> kstate) res" where
  "cap_free_locked g sid s =
    bind_res (deref (cap_groups s) g) (\<lambda>cg.
    bind_res (get_slot sid (slot_table cg)) (\<lambda>p.
      case p of None \<Rightarrow> Inr (- ECAPBILITY, s)
      | Some slot \<Rightarrow> bind_res (deref (obj_slots s) slot) (\<lambda>sl.
        if \<not> isvalid sl then Inr (- ECAPBILITY, s)
        else bind_res (free_slot_id (nat sid) (slot_table cg)) (\<lambda>st.
          let ob = sl_object sl in
          bind_res (deref (objects s) ob) (\<lambda>v.
            let s1 = (upd_object ob (v\<lparr>copies_head := remove1 slot (copies_head v), refcount := refcount v - 1\<rparr>)
                (upd_table g st s))\<lparr>obj_slots := (obj_slots s)(slot := None)\<rparr>
            in if refcount v = 1
            then bind_res (obj_deinit (ob_type v) ob s1) (\<lambda>s2.
              bind_res (deref (objects s2) ob) (\<lambda>v2.
                if refcount v2 = 0 then bug_on (copies_head v2 \<noteq> []) (Inr (0, kfree_object ob s2))
                else Inr (0, s2)))
            else Inr (0, s1))))))"

definition cap_free :: "nat \<Rightarrow> s32 \<Rightarrow> kstate \<Rightarrow> (s32 \<times> kstate) res" where
  "cap_free g sid s = cap_free_locked g sid s"

text \<open>
  \<^verbatim>\<open>obj_free\<close> walks over the copies; the walk keeps the next slot at hand before it frees one.
  The unlock at the end is an access to the object.
\<close>

fun free_copies :: "nat list \<Rightarrow> kstate \<Rightarrow> kstate res" where
  "free_copies [] s = Inr s"
| "free_copies (slot # ps) s =
    bind_res (deref (obj_slots s) slot) (\<lambda>sl.
    bind_res (cap_free_locked (sl_cap_group sl) (int (slot_id sl)) s) (\<lambda>(r, s1).
      bug_on (r \<noteq> 0) (free_copies ps s1)))"

definition obj_free :: "nat option \<Rightarrow> kstate \<Rightarrow> kstate res" where
  "obj_free obj s =
    (case obj of None \<Rightarrow> Inr s
     | Some ob \<Rightarrow> bind_res (deref (objects s) ob) (\<lambda>v.
        if refcount v = 0 then Inr (kfree_object ob s)
        else bind_res (free_copies (copies_head v) s) (\<lambda>s1.
          bind_res (deref (objects s1) ob) (\<lambda>_. Inr s1))))"

fun insert_after :: "'a \<Rightarrow> 'a \<Rightarrow> 'a list \<Rightarrow> 'a list" where
  "insert_after x y [] = []"
| "insert_after x y (z # zs) = (if z = x then z # y # zs else z # insert_after x y zs)"

text \<open>
  The result of \<^verbatim>\<open>alloc_slot_id\<close> is compared with \<open>-1\<close>, so \<^verbatim>\<open>-ENOMEM\<close> goes on as
  a slot number; \<^verbatim>\<open>install_slot\<close> then looks it up before the start of the bitmap.
\<close>

definition cap_copy :: "nat \<Rightarrow> nat \<Rightarrow> s32 \<Rightarrow> bool \<Rightarrow> u64 \<Rightarrow> kstate \<Rightarrow> (s32 \<times> kstate) res" where
  "cap_copy src dest src_sid new_rights_valid new_rights s =
    bind_res (deref (cap_groups s) src) (\<lambda>cg.
    bind_res (deref (cap_groups s) dest) (\<lambda>dcg.
    bind_res (get_slot src_sid (slot_table cg)) (\<lambda>p.
      case p of None \<Rightarrow> Inr (- ECAPBILITY, s)
      | Some src_slot \<Rightarrow> bind_res (deref (obj_slots s) src_slot) (\<lambda>sl0.
        if \<not> isvalid sl0 then Inr (- ECAPBILITY, s)
        else bind_res (alloc_slot_id (ks_mem s) (ks_beyond s) (slot_table dcg)) (\<lambda>(sid, st).
          let s1 = upd_table dest st s in
          if sid = -1 then Inr (- ENOMEM, s1)
          else if \<not> kmalloc_ok (ks_mem s) OBJECT_SLOT_SIZE
          then (if sid < 0 then Inl Bad_Access else bind_res (free_slot_id (nat sid) st) (\<lambda>st'. Inr (- ENOMEM, upd_table dest st' s)))
          else bind_res (deref (cap_groups s1) src) (\<lambda>cg1.
            bind_res (get_slot src_sid (slot_table cg1)) (\<lambda>p1.
            case p1 of None \<Rightarrow> Inl Bad_Access
            | Some src_slot1 \<Rightarrow> bind_res (deref (obj_slots s1) src_slot1) (\<lambda>sl.
                let ob = sl_object sl; slot = next_id s1 in
                bind_res (deref (objects s1) ob) (\<lambda>v.
                if sid < 0 then Inl Bad_Access
                else bind_res (install_slot (nat sid) slot st) (\<lambda>st'.
                  Inr (sid, (upd_object ob (v\<lparr>copies_head := insert_after src_slot1 slot (copies_head v), refcount := refcount v + 1\<rparr>)
                    (upd_table dest st' s1))
                    \<lparr>obj_slots := (obj_slots s1)(slot \<mapsto> \<lparr>slot_id = nat sid, sl_cap_group = dest, isvalid = True,
                        rights = (if new_rights_valid then new_rights else rights sl), sl_object = ob\<rparr>),
                     next_id := slot + 1\<rparr>)))))))))))"

definition cap_copy_local :: "nat \<Rightarrow> s32 \<Rightarrow> u64 \<Rightarrow> kstate \<Rightarrow> (s32 \<times> kstate) res" where
  "cap_copy_local g src_sid new_rights s = cap_copy g g src_sid True new_rights s"

definition cap_move :: "nat \<Rightarrow> nat \<Rightarrow> s32 \<Rightarrow> bool \<Rightarrow> u64 \<Rightarrow> kstate \<Rightarrow> (s32 \<times> kstate) res" where
  "cap_move src dest src_sid new_rights_valid new_rights s =
    bind_res (cap_copy src dest src_sid new_rights_valid new_rights s) (\<lambda>(r, s1).
      if r < 0 then Inr (r, s1)
      else bind_res (cap_free src src_sid s1) (\<lambda>(r, s2). bug_on (r \<noteq> 0) (Inr (r, s2))))"

section \<open>References\<close>

definition get_opaque :: "nat \<Rightarrow> s32 \<Rightarrow> bool \<Rightarrow> object_type \<Rightarrow> kstate \<Rightarrow> (nat option \<times> kstate) res" where
  "get_opaque g sid type_valid ty s =
    bind_res (deref (cap_groups s) g) (\<lambda>cg.
    bind_res (is_valid_slot_id sid (slot_table cg)) (\<lambda>valid.
      if \<not> valid then Inr (None, s)
      else bind_res (get_slot sid (slot_table cg)) (\<lambda>p.
        case p of None \<Rightarrow> Inl Bad_Access
        | Some slot \<Rightarrow> bind_res (deref (obj_slots s) slot) (\<lambda>sl.
            bug_on (\<not> isvalid sl)
            (bind_res (deref (objects s) (sl_object sl)) (\<lambda>v.
              if \<not> type_valid \<or> ob_type v = ty
              then Inr (Some (sl_object sl), upd_object (sl_object sl) (v\<lparr>refcount := refcount v + 1\<rparr>) s)
              else Inr (None, s)))))))"

definition obj_get :: "nat \<Rightarrow> s32 \<Rightarrow> object_type \<Rightarrow> kstate \<Rightarrow> (nat option \<times> kstate) res" where
  "obj_get g sid ty s = get_opaque g sid True ty s"

definition obj_put :: "nat \<Rightarrow> kstate \<Rightarrow> kstate res" where
  "obj_put ob s =
    bind_res (deref (objects s) ob) (\<lambda>v.
      let s1 = upd_object ob (v\<lparr>refcount := refcount v - 1\<rparr>) s in
      if refcount v = 1 then Inr (kfree_object ob s1) else Inr s1)"

definition cap_revoke :: "nat \<Rightarrow> s32 \<Rightarrow> kstate \<Rightarrow> (s32 \<times> kstate) res" where
  "cap_revoke g sid s =
    bind_res (get_opaque g sid False TYPE_CAP_GROUP s) (\<lambda>(obj, s1).
      case obj of None \<Rightarrow> Inr (- ECAPBILITY, s1)
      | Some ob \<Rightarrow> bind_res (obj_free (Some ob) s1) (\<lambda>s2. bind_res (obj_put ob s2) (\<lambda>s3. Inr (0, s3))))"

section \<open>System calls\<close>

text \<open>The first argument of each is the CPU the caller runs on.\<close>

definition sys_cap_copy_to :: "nat \<Rightarrow> u64 \<Rightarrow> u64 \<Rightarrow> kstate \<Rightarrow> (s32 \<times> kstate) res" where
  "sys_cap_copy_to cpu dest_cap src_sid s =
    bind_res (current_cap_group cpu s) (\<lambda>cur.
    bind_res (obj_get cur (int_arg dest_cap) TYPE_CAP_GROUP s) (\<lambda>(d, s1).
      case d of None \<Rightarrow> Inr (- ECAPBILITY, s1)
      | Some dest \<Rightarrow> bind_res (cap_copy cur dest (int_arg src_sid) False 0 s1) (\<lambda>(r, s2).
          bind_res (obj_put dest s2) (\<lambda>s3. Inr (r, s3)))))"

definition sys_cap_copy_from :: "nat \<Rightarrow> u64 \<Rightarrow> u64 \<Rightarrow> kstate \<Rightarrow> (s32 \<times> kstate) res" where
  "sys_cap_copy_from cpu src_cap src_sid s =
    bind_res (current_cap_group cpu s) (\<lambda>cur.
    bind_res (obj_get cur (int_arg src_cap) TYPE_CAP_GROUP s) (\<lambda>(d, s1).
      case d of None \<Rightarrow> Inr (- ECAPBILITY, s1)
      | Some src \<Rightarrow> bind_res (cap_copy src cur (int_arg src_sid) False 0 s1) (\<lambda>(r, s2).
          bind_res (obj_put src s2) (\<lambda>s3. Inr (r, s3)))))"

definition sys_cap_move :: "nat \<Rightarrow> u64 \<Rightarrow> u64 \<Rightarrow> kstate \<Rightarrow> (s32 \<times> kstate) res" where
  "sys_cap_move cpu dest_cap src_sid s =
    bind_res (current_cap_group cpu s) (\<lambda>cur.
    bind_res (obj_get cur (int_arg dest_cap) TYPE_CAP_GROUP s) (\<lambda>(d, s1).
      case d of None \<Rightarrow> Inr (- ECAPBILITY, s1)
      | Some dest \<Rightarrow> bind_res (cap_move cur dest (int_arg src_sid) False 0 s1) (\<lambda>(r, s2).
          bind_res (obj_put dest s2) (\<lambda>s3. Inr (r, s3)))))"

text \<open>
  \<open>user\<close> is the array of numbers at \<open>src_buf\<close>; the array written to \<open>dst_buf\<close> is a result. A
  negative count makes the copy from user memory run over the whole address space, and a buffer
  that could not be allocated is not checked for.
\<close>

fun copy_caps :: "nat \<Rightarrow> nat \<Rightarrow> s32 list \<Rightarrow> kstate \<Rightarrow> (s32 list \<times> kstate) res" where
  "copy_caps src dest [] s = Inr ([], s)"
| "copy_caps src dest (c # cs) s =
    bind_res (cap_copy src dest c False 0 s) (\<lambda>(r, s1).
    bind_res (copy_caps src dest cs s1) (\<lambda>(rs, s2). Inr (r # rs, s2)))"

definition sys_transfer_caps ::
  "nat \<Rightarrow> u64 \<Rightarrow> u64 \<Rightarrow> (nat \<Rightarrow> s32) \<Rightarrow> s32 \<Rightarrow> u64 \<Rightarrow> kstate \<Rightarrow> (s32 \<times> s32 list \<times> kstate) res" where
  "sys_transfer_caps cpu dest_cap src_buf user nr_caps dst_buf s =
    bind_res (current_cap_group cpu s) (\<lambda>cur.
    bind_res (obj_get cur (int_arg dest_cap) TYPE_CAP_GROUP s) (\<lambda>(d, s1).
      case d of None \<Rightarrow> Inr (- ECAPBILITY, [], s1)
      | Some dest \<Rightarrow> bug_on (src_buf \<ge> KBASE)
          (if nr_caps < 0 \<or> \<not> kmalloc_ok (ks_mem s1) (4 * nat nr_caps) then Inl Bad_Access
           else bind_res (copy_caps cur dest (map user [0..<nat nr_caps]) s1) (\<lambda>(rs, s2).
             bug_on (dst_buf \<ge> KBASE)
             (bind_res (obj_put dest s2) (\<lambda>s3. Inr (0, rs, s3)))))))"

fun print_caps :: "nat list \<Rightarrow> slot_table \<Rightarrow> kstate \<Rightarrow> unit res" where
  "print_caps [] st s = Inr ()"
| "print_caps (i # is) st s =
    bind_res (get_slot (int i) st) (\<lambda>p.
      case p of None \<Rightarrow> print_caps is st s
      | Some slot \<Rightarrow> bind_res (deref (obj_slots s) slot) (\<lambda>sl. bug_on (\<not> isvalid sl)
          (bind_res (deref (objects s) (sl_object sl)) (\<lambda>_. print_caps is st s))))"

definition sys_get_all_caps :: "nat \<Rightarrow> u64 \<Rightarrow> kstate \<Rightarrow> (s32 \<times> kstate) res" where
  "sys_get_all_caps cpu cap_group_cap s =
    bind_res (current_cap_group cpu s) (\<lambda>cur.
    bind_res (obj_get cur (int_arg cap_group_cap) TYPE_CAP_GROUP s) (\<lambda>(d, s1).
      case d of None \<Rightarrow> Inr (- ECAPBILITY, s1)
      | Some g \<Rightarrow> bind_res (deref (cap_groups s1) g) (\<lambda>cg.
          bind_res (print_caps [0..<slots_size (slot_table cg)] (slot_table cg) s1) (\<lambda>_.
          bind_res (obj_put g s1) (\<lambda>s2. Inr (0, s2))))))"

definition cap_group_init :: "nat \<Rightarrow> nat \<Rightarrow> u64 \<Rightarrow> kstate \<Rightarrow> kstate res" where
  "cap_group_init g sz bdg s =
    bind_res (deref (objects s) g) (\<lambda>_.
      case slot_table_init (ks_mem s) sz of Inl r \<Rightarrow> Inl Bug_On
      | Inr st \<Rightarrow> Inr (s\<lparr>cap_groups := (cap_groups s)(g \<mapsto> \<lparr>slot_table = st, thread_list = [], thread_cnt = 0,
          badge = bdg, notify_recycler = 0, cap_group_name = []\<rparr>)\<rparr>))"

section \<open>The invariant\<close>

text \<open>
  \<open>held ob\<close> is the number of references to the object \<open>ob\<close> that running kernel code has
  obtained and not yet given back. Slots of a group that has been freed may remain; they still
  keep their object alive.
\<close>

definition tables :: "kstate \<Rightarrow> nat \<rightharpoonup> slot_table" where
  "tables s = (\<lambda>g. map_option slot_table (cap_groups s g))"

definition table_ok :: "(nat \<rightharpoonup> object_slot) \<Rightarrow> nat \<Rightarrow> slot_table \<Rightarrow> bool" where
  "table_ok S g st = (table_wf st \<and> (\<forall>i. in_use st i \<longleftrightarrow> slot_at st i \<noteq> None) \<and>
    (\<forall>i p. slot_at st i = Some p \<longrightarrow> (\<exists>sl. S p = Some sl \<and> slot_id sl = i \<and> sl_cap_group sl = g)))"

definition slot_ok :: "(nat \<rightharpoonup> object) \<Rightarrow> (nat \<rightharpoonup> slot_table) \<Rightarrow> nat \<Rightarrow> object_slot \<Rightarrow> bool" where
  "slot_ok Ob T p sl = (isvalid sl \<and> (\<exists>v. Ob (sl_object sl) = Some v \<and> p \<in> set (copies_head v)) \<and>
    (\<forall>st. T (sl_cap_group sl) = Some st \<longrightarrow> slot_at st (slot_id sl) = Some p))"

definition object_ok :: "(nat \<Rightarrow> nat) \<Rightarrow> (nat \<rightharpoonup> object_slot) \<Rightarrow> nat \<Rightarrow> object \<Rightarrow> bool" where
  "object_ok held S ob v = (distinct (copies_head v) \<and> unat (refcount v) = length (copies_head v) + held ob \<and>
    (\<forall>p \<in> set (copies_head v). \<exists>sl. S p = Some sl \<and> sl_object sl = ob))"

definition caps_ok :: "(nat \<Rightarrow> nat) \<Rightarrow> (nat \<rightharpoonup> object) \<Rightarrow> (nat \<rightharpoonup> object_slot) \<Rightarrow> (nat \<rightharpoonup> slot_table) \<Rightarrow> nat \<Rightarrow> bool" where
  "caps_ok held Ob S T n =
    ((\<forall>g st. T g = Some st \<longrightarrow> table_ok S g st \<and> Ob g \<noteq> None) \<and>
     (\<forall>p sl. S p = Some sl \<longrightarrow> slot_ok Ob T p sl \<and> p < n) \<and>
     (\<forall>ob v. Ob ob = Some v \<longrightarrow> object_ok held S ob v \<and> ob < n) \<and>
     (\<forall>ob. Ob ob = None \<longrightarrow> held ob = 0))"

definition caps_inv :: "(nat \<Rightarrow> nat) \<Rightarrow> kstate \<Rightarrow> bool" where
  "caps_inv held s = (caps_ok held (objects s) (obj_slots s) (tables s) (next_id s) \<and> mem_bounded (ks_mem s))"

text \<open>What a process can name: the object and the rights behind every number of every group.\<close>

definition caps_of :: "(nat \<rightharpoonup> object_slot) \<Rightarrow> (nat \<rightharpoonup> slot_table) \<Rightarrow> nat \<times> nat \<rightharpoonup> nat \<times> u64" where
  "caps_of S T = (\<lambda>(g, i). case T g of None \<Rightarrow> None
     | Some st \<Rightarrow> (case slot_at st i of None \<Rightarrow> None
       | Some p \<Rightarrow> map_option (\<lambda>sl. (sl_object sl, rights sl)) (S p)))"

definition caps :: "kstate \<Rightarrow> nat \<times> nat \<rightharpoonup> nat \<times> u64" where
  "caps s = caps_of (obj_slots s) (tables s)"

section \<open>Adding and removing a slot\<close>

lemma caps_ok_add:
  assumes inv: "caps_ok held Ob S T n" and T: "T g = Some st" and Ob: "Ob ob = Some v"
    and free: "\<not> in_use st i" and wf: "table_wf st'"
    and at: "\<forall>j. slot_at st' j = (if j = i then Some n else slot_at st j)"
    and use: "\<forall>j. in_use st' j \<longleftrightarrow> j = i \<or> in_use st j"
    and c: "distinct (copies_head v')" "set (copies_head v') = insert n (set (copies_head v))"
    and r: "unat (refcount v') = unat (refcount v) + 1"
    and sl: "slot_id sl = i" "sl_cap_group sl = g" "isvalid sl" "sl_object sl = ob"
  shows "caps_ok held (Ob(ob \<mapsto> v')) (S(n \<mapsto> sl)) (T(g \<mapsto> st')) (Suc n)"
    and "caps_of (S(n \<mapsto> sl)) (T(g \<mapsto> st')) = (caps_of S T)((g, i) \<mapsto> (ob, rights sl))"
proof -
  have n: "S n = None" using inv unfolding caps_ok_def by fastforce
  have tab: "table_ok S h t" if "T h = Some t" for h t using inv that unfolding caps_ok_def by blast
  have nn: "slot_at t j \<noteq> Some n" if "T h = Some t" for h t j
    using tab [OF that] n unfolding table_ok_def by fastforce
  have fr: "slot_at st i = None" using tab [OF T] free unfolding table_ok_def by blast
  have vo: "object_ok held S ob v" using inv Ob unfolding caps_ok_def by blast
  then have "n \<notin> set (copies_head v)" using n unfolding object_ok_def by fastforce
  then have len: "length (copies_head v') = Suc (length (copies_head v))"
    using c vo unfolding object_ok_def by (metis distinct_card card_insert_disjoint finite_set)
  have "table_ok (S(n \<mapsto> sl)) h t" if h: "(T(g \<mapsto> st')) h = Some t" for h t
  proof (cases "h = g")
    case True
    then have t: "t = st'" using h by simp
    have "\<exists>sl'. (S(n \<mapsto> sl)) p = Some sl' \<and> slot_id sl' = j \<and> sl_cap_group sl' = h" if "slot_at st' j = Some p" for j p
    proof (cases "j = i")
      case True
      then show ?thesis using that at sl \<open>h = g\<close> by simp
    next
      case False
      then have "slot_at st j = Some p" using that at by simp
      then show ?thesis using tab [OF T] nn [OF T] \<open>h = g\<close> unfolding table_ok_def by auto
    qed
    moreover have "in_use st' j \<longleftrightarrow> slot_at st' j \<noteq> None" for j
      using at use tab [OF T] unfolding table_ok_def by auto
    ultimately show ?thesis using wf t unfolding table_ok_def by blast
  next
    case False
    then have h: "T h = Some t" using h by simp
    show ?thesis using tab [OF h] nn [OF h] unfolding table_ok_def by auto
  qed
  moreover have "slot_ok (Ob(ob \<mapsto> v')) (T(g \<mapsto> st')) p sl' \<and> p < Suc n" if p: "(S(n \<mapsto> sl)) p = Some sl'" for p sl'
  proof (cases "p = n")
    case True
    then show ?thesis using p sl c at by (auto simp: slot_ok_def)
  next
    case False
    then have s: "S p = Some sl'" using p by simp
    then have o: "slot_ok Ob T p sl'" "p < n" using inv unfolding caps_ok_def by blast+
    have "slot_at st' (slot_id sl') = Some p" if "sl_cap_group sl' = g"
      using o(1) T that at fr unfolding slot_ok_def by fastforce
    then show ?thesis using o Ob c(2) unfolding slot_ok_def by auto
  qed
  moreover have "object_ok held (S(n \<mapsto> sl)) q w \<and> q < Suc n" if q: "(Ob(ob \<mapsto> v')) q = Some w" for q w
  proof (cases "q = ob")
    case True
    have "ob < n" using inv Ob unfolding caps_ok_def by blast
    moreover have "\<exists>sl'. (S(n \<mapsto> sl)) p = Some sl' \<and> sl_object sl' = ob" if "p \<in> set (copies_head v')" for p
      using that c(2) vo sl(4) unfolding object_ok_def by auto
    ultimately show ?thesis using True q c r len vo unfolding object_ok_def by auto
  next
    case False
    then have "object_ok held S q w" "q < n" using inv q unfolding caps_ok_def by auto
    then show ?thesis using n unfolding object_ok_def by (metis fun_upd_apply less_SucI option.distinct(1))
  qed
  moreover have "(T(g \<mapsto> st')) h = Some t \<Longrightarrow> (Ob(ob \<mapsto> v')) h \<noteq> None" for h t
    using inv T unfolding caps_ok_def by (auto split: if_splits)
  moreover have "\<forall>q. (Ob(ob \<mapsto> v')) q = None \<longrightarrow> held q = 0" using inv unfolding caps_ok_def by auto
  ultimately show "caps_ok held (Ob(ob \<mapsto> v')) (S(n \<mapsto> sl)) (T(g \<mapsto> st')) (Suc n)"
    unfolding caps_ok_def by blast
  show "caps_of (S(n \<mapsto> sl)) (T(g \<mapsto> st')) = (caps_of S T)((g, i) \<mapsto> (ob, rights sl))"
    using at T nn sl by (auto simp: caps_of_def fun_eq_iff split: option.splits)
qed

lemma caps_ok_remove:
  assumes inv: "caps_ok held Ob S T n" and T: "T g = Some st" and S: "S p = Some sl" and Ob: "Ob (sl_object sl) = Some v"
    and at0: "slot_at st i = Some p" and wf: "table_wf st'"
    and at: "\<forall>j. slot_at st' j = (if j = i then None else slot_at st j)"
    and use: "\<forall>j. in_use st' j \<longleftrightarrow> j \<noteq> i \<and> in_use st j"
    and v': "v' = v\<lparr>copies_head := remove1 p (copies_head v), refcount := refcount v - 1\<rparr>"
  shows "caps_ok held (Ob(sl_object sl \<mapsto> v')) (S(p := None)) (T(g \<mapsto> st')) n"
    and "caps_of (S(p := None)) (T(g \<mapsto> st')) = (caps_of S T)((g, i) := None)"
    and "refcount v = 1 \<Longrightarrow> copies_head v' = [] \<and> held (sl_object sl) = 0"
    and "refcount v \<noteq> 0"
proof -
  have tab: "table_ok S h t" if "T h = Some t" for h t using inv that unfolding caps_ok_def by blast
  have pg: "slot_id sl = i" "sl_cap_group sl = g" using tab [OF T] at0 S unfolding table_ok_def by fastforce+
  have so: "slot_ok Ob T q sl'" if "S q = Some sl'" for q sl' using inv that unfolding caps_ok_def by blast
  have vo: "object_ok held S (sl_object sl) v" using inv Ob unfolding caps_ok_def by blast
  have pin: "p \<in> set (copies_head v)" using so [OF S] Ob unfolding slot_ok_def by auto
  then have len: "length (copies_head v) = Suc (length (remove1 p (copies_head v)))"
    using length_pos_if_in_set [OF pin] by (simp add: length_remove1)
  then have r: "unat (refcount v) = Suc (length (remove1 p (copies_head v)) + held (sl_object sl))"
    using vo unfolding object_ok_def by simp
  then show "refcount v \<noteq> 0" by auto
  then have r': "unat (refcount v - 1) = length (remove1 p (copies_head v)) + held (sl_object sl)"
    using r by (simp add: unat_minus_one)
  show "refcount v = 1 \<Longrightarrow> copies_head v' = [] \<and> held (sl_object sl) = 0" using r v' by simp
  have uniq: "slot_at t j = Some p \<longleftrightarrow> h = g \<and> j = i" if "T h = Some t" for h t j
    using tab [OF that] S pg T at0 that unfolding table_ok_def by fastforce
  have "table_ok (S(p := None)) h t" if h: "(T(g \<mapsto> st')) h = Some t" for h t
  proof (cases "h = g")
    case True
    then have t: "t = st'" using h by simp
    have "\<exists>sl'. (S(p := None)) q = Some sl' \<and> slot_id sl' = j \<and> sl_cap_group sl' = h" if "slot_at st' j = Some q" for j q
    proof -
      have j: "j \<noteq> i" "slot_at st j = Some q" using that at by (auto split: if_splits)
      then have "q \<noteq> p" using uniq [OF T] by blast
      then show ?thesis using tab [OF T] j True unfolding table_ok_def by auto
    qed
    moreover have "in_use st' j \<longleftrightarrow> slot_at st' j \<noteq> None" for j
      using at use tab [OF T] unfolding table_ok_def by auto
    ultimately show ?thesis using wf t unfolding table_ok_def by blast
  next
    case False
    then have h': "T h = Some t" using h by simp
    show ?thesis using tab [OF h'] uniq [OF h'] False unfolding table_ok_def by auto
  qed
  moreover have "slot_ok (Ob(sl_object sl \<mapsto> v')) (T(g \<mapsto> st')) q sl' \<and> q < n" if q: "(S(p := None)) q = Some sl'" for q sl'
  proof -
    have s: "S q = Some sl'" "q \<noteq> p" using q by (auto split: if_splits)
    have n: "q < n" using inv s unfolding caps_ok_def by blast
    have "slot_at st' (slot_id sl') = Some q" if "sl_cap_group sl' = g"
    proof -
      have "slot_at st (slot_id sl') = Some q" using so [OF s(1)] that T unfolding slot_ok_def by blast
      moreover then have "slot_id sl' \<noteq> i" using at0 s(2) by auto
      ultimately show ?thesis using at by simp
    qed
    then show ?thesis using so [OF s(1)] s(2) Ob n v' unfolding slot_ok_def by auto
  qed
  moreover have "object_ok held (S(p := None)) q w \<and> q < n" if q: "(Ob(sl_object sl \<mapsto> v')) q = Some w" for q w
  proof (cases "q = sl_object sl")
    case True
    have "sl_object sl < n" using inv Ob unfolding caps_ok_def by blast
    then show ?thesis using True q vo r' v' unfolding object_ok_def by auto
  next
    case False
    then have "object_ok held S q w" "q < n" using inv q unfolding caps_ok_def by auto
    then show ?thesis using False S unfolding object_ok_def by (metis fun_upd_apply option.inject)
  qed
  moreover have "(T(g \<mapsto> st')) h = Some t \<Longrightarrow> (Ob(sl_object sl \<mapsto> v')) h \<noteq> None" for h t
    using inv T unfolding caps_ok_def by (auto split: if_splits)
  moreover have "\<forall>q. (Ob(sl_object sl \<mapsto> v')) q = None \<longrightarrow> held q = 0" using inv unfolding caps_ok_def by auto
  ultimately show "caps_ok held (Ob(sl_object sl \<mapsto> v')) (S(p := None)) (T(g \<mapsto> st')) n"
    unfolding caps_ok_def by blast
  show "caps_of (S(p := None)) (T(g \<mapsto> st')) = (caps_of S T)((g, i) := None)"
    using at T uniq by (auto simp: caps_of_def fun_eq_iff split: option.splits)
qed

text \<open>Freeing a block without references, and borrowing and returning a reference.\<close>

lemma caps_ok_kfree:
  assumes inv: "caps_ok held Ob S T n" and Ob: "Ob ob = Some v" and z: "copies_head v = []" "held ob = 0"
  shows "caps_ok held (Ob(ob := None)) S (T(ob := None)) n"
proof -
  have "sl_object sl \<noteq> ob" if "S p = Some sl" for p sl
    using inv that Ob z(1) unfolding caps_ok_def slot_ok_def by fastforce
  then have "slot_ok (Ob(ob := None)) (T(ob := None)) p sl \<and> p < n" if "S p = Some sl" for p sl
    using inv that unfolding caps_ok_def slot_ok_def by (auto split: if_splits)
  then show ?thesis using inv z(2) unfolding caps_ok_def by (auto split: if_splits)
qed

lemma caps_ok_hold:
  assumes inv: "caps_ok held Ob S T n" and Ob: "Ob ob = Some v" and m: "refcount v \<noteq> -1"
  shows "caps_ok (held(ob := held ob + 1)) (Ob(ob \<mapsto> v\<lparr>refcount := refcount v + 1\<rparr>)) S T n"
proof -
  have r: "unat (refcount v + 1) = Suc (unat (refcount v))" using unat_plus_one [OF m] .
  have "slot_ok (Ob(ob \<mapsto> v\<lparr>refcount := refcount v + 1\<rparr>)) T p sl" if "slot_ok Ob T p sl" for p sl
    using that Ob unfolding slot_ok_def by auto
  moreover have "object_ok (held(ob := held ob + 1)) S q w" if "(Ob(ob \<mapsto> v\<lparr>refcount := refcount v + 1\<rparr>)) q = Some w" for q w
    using inv that Ob r unfolding caps_ok_def object_ok_def by (auto split: if_splits)
  ultimately show ?thesis using inv Ob unfolding caps_ok_def by (auto split: if_splits)
qed

lemma caps_ok_release:
  assumes inv: "caps_ok held Ob S T n" and Ob: "Ob ob = Some v" and h: "0 < held ob"
  shows "caps_ok (held(ob := held ob - 1)) (Ob(ob \<mapsto> v\<lparr>refcount := refcount v - 1\<rparr>)) S T n"
    and "refcount v = 1 \<Longrightarrow> copies_head v = [] \<and> held ob = 1"
proof -
  have u: "unat (refcount v) = length (copies_head v) + held ob" using inv Ob unfolding caps_ok_def object_ok_def by blast
  then have "refcount v \<noteq> 0" using h by auto
  then have r: "unat (refcount v - 1) = length (copies_head v) + (held ob - 1)" using u h by (simp add: unat_minus_one)
  have "slot_ok (Ob(ob \<mapsto> v\<lparr>refcount := refcount v - 1\<rparr>)) T p sl" if "slot_ok Ob T p sl" for p sl
    using that Ob unfolding slot_ok_def by auto
  moreover have "object_ok (held(ob := held ob - 1)) S q w" if "(Ob(ob \<mapsto> v\<lparr>refcount := refcount v - 1\<rparr>)) q = Some w" for q w
    using inv that Ob r unfolding caps_ok_def object_ok_def by (auto split: if_splits)
  ultimately show "caps_ok (held(ob := held ob - 1)) (Ob(ob \<mapsto> v\<lparr>refcount := refcount v - 1\<rparr>)) S T n"
    using inv Ob unfolding caps_ok_def by (auto split: if_splits)
  show "refcount v = 1 \<Longrightarrow> copies_head v = [] \<and> held ob = 1" using u h by (cases "copies_head v") auto
qed

section \<open>The operations on states\<close>

lemma tables_upd [simp]:
  "tables (upd_object ob v s) = tables s"
  "cap_groups s g \<noteq> None \<Longrightarrow> tables (upd_table g st s) = (tables s)(g \<mapsto> st)"
  "tables (kfree_object ob s) = (tables s)(ob := None)"
  "tables (s\<lparr>obj_slots := S, next_id := n\<rparr>) = tables s" "tables (s\<lparr>obj_slots := S\<rparr>) = tables s" "tables (s\<lparr>next_id := n\<rparr>) = tables s"
  by (auto simp: tables_def fun_eq_iff)

lemma tables_Some [simp]: "cap_groups s g = Some cg \<Longrightarrow> tables s g = Some (slot_table cg)"
  by (simp add: tables_def)

lemma kmalloc_small [simp]: "kmalloc_ok mem OBJECT_SLOT_SIZE"
  by (simp add: kmalloc_ok_def OBJECT_SLOT_SIZE_def SLAB_MAX_ORDER_def)

text \<open>A destructor touches neither objects nor slots nor slot tables.\<close>

lemma obj_deinit_frame:
  assumes "obj_deinit ty ob s = Inr s'"
  shows "objects s' = objects s" "obj_slots s' = obj_slots s" "tables s' = tables s" "next_id s' = next_id s" "ks_mem s' = ks_mem s"
  using assms
  by (cases ty; auto simp: thread_deinit_def irq_deinit_def res_simps tables_def fun_eq_iff split: option.splits)+

text \<open>What the functions on slot tables give for a table of the invariant.\<close>

lemma caps_table:
  assumes "caps_inv held s" "cap_groups s g = Some cg"
  shows "table_ok (obj_slots s) g (slot_table cg)" "mem_bounded (ks_mem s)" "table_wf (slot_table cg)"
proof -
  show t: "table_ok (obj_slots s) g (slot_table cg)" "mem_bounded (ks_mem s)"
    using assms(1) tables_Some [OF assms(2)] unfolding caps_inv_def caps_ok_def by blast+
  show "table_wf (slot_table cg)" using t(1) unfolding table_ok_def by blast
qed

lemma caps_slot:
  assumes "caps_inv held s" "cap_groups s g = Some cg" "slot_at (slot_table cg) i = Some p"
  obtains sl v where "obj_slots s p = Some sl" "isvalid sl" "slot_id sl = i" "sl_cap_group sl = g"
    "objects s (sl_object sl) = Some v" "p \<in> set (copies_head v)"
proof -
  obtain sl where sl: "obj_slots s p = Some sl" "slot_id sl = i" "sl_cap_group sl = g"
    using caps_table(1) [OF assms(1,2)] assms(3) unfolding table_ok_def by blast
  have "slot_ok (objects s) (tables s) p sl" using assms(1) sl(1) unfolding caps_inv_def caps_ok_def by blast
  then obtain v where "isvalid sl" "objects s (sl_object sl) = Some v" "p \<in> set (copies_head v)"
    unfolding slot_ok_def by blast
  then show ?thesis using that sl by blast
qed

lemma caps_lookup:
  assumes "caps_inv held s" "cap_groups s g = Some cg"
  shows "caps s (g, i) = None \<longleftrightarrow> slot_at (slot_table cg) i = None"
    and "slot_at (slot_table cg) i = Some p \<Longrightarrow> obj_slots s p = Some sl \<Longrightarrow> caps s (g, i) = Some (sl_object sl, rights sl)"
proof -
  show "caps s (g, i) = None \<longleftrightarrow> slot_at (slot_table cg) i = None"
  proof (cases "slot_at (slot_table cg) i")
    case (Some p)
    obtain sl where "obj_slots s p = Some sl" by (rule caps_slot [OF assms Some])
    then show ?thesis using Some assms(2) by (simp add: caps_def caps_of_def tables_def)
  qed (simp add: caps_def caps_of_def tables_def assms(2))
  show "slot_at (slot_table cg) i = Some p \<Longrightarrow> obj_slots s p = Some sl \<Longrightarrow> caps s (g, i) = Some (sl_object sl, rights sl)"
    using assms(2) by (simp add: caps_def caps_of_def tables_def)
qed

text \<open>A failed search for a number leaves the state as it is.\<close>

lemma upd_table_same: "cap_groups s g = Some cg \<Longrightarrow> upd_table g (slot_table cg) s = s"
  by (simp add: upd_table_def fun_upd_idem)

lemma cap_alloc_ok:
  assumes inv: "caps_inv held s" and g: "cap_groups s g = Some cg" and ob: "objects s ob = Some v" and r: "refcount v = 0"
  shows "cap_alloc g ob rts s = Inr (- ENOMEM, s) \<or>
    (\<exists>i s'. cap_alloc g ob rts s = Inr (int i, s') \<and> caps_inv held s' \<and>
      caps s (g, i) = None \<and> caps s' = (caps s)((g, i) \<mapsto> (ob, rts)))"
proof -
  note t = caps_table [OF inv g]
  obtain r' st where a: "alloc_slot_id (ks_mem s) (ks_beyond s) (slot_table cg) = Inr (r', st)" "table_wf st"
    "\<forall>i. slot_at st i = slot_at (slot_table cg) i"
    "r' = - ENOMEM \<and> st = slot_table cg \<or> (\<exists>i. r' = int i \<and> i < slots_size st \<and> \<not> in_use (slot_table cg) i \<and>
      (\<forall>j. in_use st j \<longleftrightarrow> j = i \<or> in_use (slot_table cg) j))"
    using alloc_slot_id_ok [OF t(3,2)] by blast
  show ?thesis
  proof (cases "r' < 0")
    case True
    then have "r' = - ENOMEM" "st = slot_table cg" using a(4) by auto
    then show ?thesis using a(1) g upd_table_same [OF g] by (simp add: cap_alloc_def ENOMEM_def)
  next
    case False
    then obtain i where i: "r' = int i" "\<not> in_use (slot_table cg) i" "\<forall>j. in_use st j \<longleftrightarrow> j = i \<or> in_use (slot_table cg) j"
      using a(4) by (auto simp: ENOMEM_def)
    obtain st' where st': "install_slot i (next_id s) st = Inr st'" "table_wf st'"
      "\<forall>j. slot_at st' j = (if j = i then Some (next_id s) else slot_at st j)" "\<forall>j. in_use st' j = in_use st j"
      using install_slot_ok [OF a(2), of i "next_id s"] i(3) by blast
    define sl where "sl = \<lparr>slot_id = i, sl_cap_group = g, isvalid = True, rights = rts, sl_object = ob\<rparr>"
    define v' where "v' = v\<lparr>copies_head := next_id s # copies_head v, refcount := 1\<rparr>"
    define s' where "s' = (upd_object ob v' (upd_table g st' s))\<lparr>obj_slots := (obj_slots s)(next_id s \<mapsto> sl), next_id := next_id s + 1\<rparr>"
    have e: "cap_alloc g ob rts s = Inr (int i, s')"
      using a(1) g ob r i(1) st'(1) by (simp add: cap_alloc_def Let_def s'_def v'_def sl_def)
    have ok: "caps_ok held (objects s) (obj_slots s) (tables s) (next_id s)" using inv by (simp add: caps_inv_def)
    have "copies_head v = []" using ok ob r unfolding caps_ok_def object_ok_def by force
    then have v': "distinct (copies_head v')" "set (copies_head v') = insert (next_id s) (set (copies_head v))"
      "unat (refcount v') = unat (refcount v) + 1" using r by (simp_all add: v'_def)
    have at: "\<forall>j. slot_at st' j = (if j = i then Some (next_id s) else slot_at (slot_table cg) j)"
      "\<forall>j. in_use st' j \<longleftrightarrow> j = i \<or> in_use (slot_table cg) j" using st' a(3) i(3) by auto
    have sl: "slot_id sl = i" "sl_cap_group sl = g" "isvalid sl" "sl_object sl = ob" "rights sl = rts" by (simp_all add: sl_def)
    note add = caps_ok_add [OF ok tables_Some [OF g] ob i(2) st'(2) at v' sl(1-4)]
    have s': "tables s' = (tables s)(g \<mapsto> st')" "objects s' = (objects s)(ob \<mapsto> v')" "next_id s' = Suc (next_id s)"
      "obj_slots s' = (obj_slots s)(next_id s \<mapsto> sl)" "ks_mem s' = ks_mem s" using g by (simp_all add: s'_def)
    have i': "caps_inv held s'" using add(1) t(2) by (simp add: caps_inv_def s')
    have c: "caps s' = (caps s)((g, i) \<mapsto> (ob, rts))" using add(2) sl(5) by (simp add: caps_def s')
    have f: "caps s (g, i) = None" using t(1) i(2) unfolding caps_lookup(1) [OF inv g] table_ok_def by simp
    show ?thesis by (intro disjI2 exI conjI) (fact e i' f c)+
  qed
qed

lemma insert_after_in:
  assumes "x \<in> set zs" "distinct zs" "y \<notin> set zs"
  shows "set (insert_after x y zs) = insert y (set zs)" "distinct (insert_after x y zs)"
proof -
  show s: "set (insert_after x y zs) = insert y (set zs)" using assms(1) by (induction zs) auto
  have "length (insert_after x y zs) = Suc (length zs)" using assms(1) by (induction zs) auto
  then show "distinct (insert_after x y zs)" using s assms(2,3) by (simp add: card_distinct distinct_card)
qed

lemma cap_copy_none:
  assumes inv: "caps_inv held s" and g: "cap_groups s src = Some cg" "cap_groups s dest = Some dcg"
    and none: "sid < 0 \<or> caps s (src, nat sid) = None"
  shows "cap_copy src dest sid nv nr s = Inr (- ECAPBILITY, s)"
proof -
  have "get_slot sid (slot_table cg) = Inr None"
    using get_slot_ok [OF caps_table(3) [OF inv g(1)], of sid] none caps_lookup(1) [OF inv g(1), of "nat sid"] by auto
  then show ?thesis using g by (simp add: cap_copy_def)
qed

text \<open>
  A copy gives a fresh number of the destination to the object of the source, unless the table of
  the destination is full and cannot grow.
\<close>

lemma cap_copy_ok:
  assumes inv: "caps_inv held s" and g: "cap_groups s src = Some cg" "cap_groups s dest = Some dcg"
    and sid: "0 \<le> sid" "caps s (src, nat sid) = Some (ob, rts)" and v: "objects s ob = Some v" "refcount v \<noteq> -1"
  shows "alloc_slot_id (ks_mem s) (ks_beyond s) (slot_table dcg) = Inr (- ENOMEM, slot_table dcg) \<and>
      cap_copy src dest sid nv nr s = Inl Bad_Access \<or>
    (\<exists>i s'. cap_copy src dest sid nv nr s = Inr (int i, s') \<and> caps_inv held s' \<and>
      caps s (dest, i) = None \<and> caps s' = (caps s)((dest, i) \<mapsto> (ob, if nv then nr else rts)))"
proof -
  note t = caps_table [OF inv g(2)]
  obtain p where p: "slot_at (slot_table cg) (nat sid) = Some p"
    using sid(2) caps_lookup(1) [OF inv g(1), of "nat sid"] by fastforce
  obtain sl v0 where sl: "obj_slots s p = Some sl" "isvalid sl" "objects s (sl_object sl) = Some v0" "p \<in> set (copies_head v0)"
    by (rule caps_slot [OF inv g(1) p])
  have o: "sl_object sl = ob" "rights sl = rts" using caps_lookup(2) [OF inv g(1) p sl(1)] sid(2) by simp_all
  have vv: "v0 = v" using sl(3) o v by simp
  have get: "get_slot sid st = Inr (Some p)" if "table_wf st" "slot_at st (nat sid) = Some p" for st
    using get_slot_ok [OF that(1), of sid] that(2) sid(1) by simp
  obtain r' st where a: "alloc_slot_id (ks_mem s) (ks_beyond s) (slot_table dcg) = Inr (r', st)" "table_wf st"
    "\<forall>i. slot_at st i = slot_at (slot_table dcg) i"
    "r' = - ENOMEM \<and> st = slot_table dcg \<or> (\<exists>i. r' = int i \<and> i < slots_size st \<and> \<not> in_use (slot_table dcg) i \<and>
      (\<forall>j. in_use st j \<longleftrightarrow> j = i \<or> in_use (slot_table dcg) j))"
    using alloc_slot_id_ok [OF t(3,2)] by blast
  have g1: "get_slot sid (slot_table cg) = Inr (Some p)" using get [OF caps_table(3) [OF inv g(1)] p] .
  obtain cg1 where cg1: "cap_groups (upd_table dest st s) src = Some cg1" "get_slot sid (slot_table cg1) = Inr (Some p)"
    using g g1 get [OF a(2)] a(3) p by (cases "src = dest") auto
  show ?thesis
  proof (cases "r' < 0")
    case True
    then have "r' = - ENOMEM" "st = slot_table dcg" using a(4) by auto
    then show ?thesis using a(1) g g1 sl o v cg1 by (simp add: cap_copy_def ENOMEM_def)
  next
    case False
    then obtain i where i: "r' = int i" "\<not> in_use (slot_table dcg) i" "\<forall>j. in_use st j \<longleftrightarrow> j = i \<or> in_use (slot_table dcg) j"
      using a(4) by (auto simp: ENOMEM_def)
    obtain st' where st': "install_slot i (next_id s) st = Inr st'" "table_wf st'"
      "\<forall>j. slot_at st' j = (if j = i then Some (next_id s) else slot_at st j)" "\<forall>j. in_use st' j = in_use st j"
      using install_slot_ok [OF a(2), of i "next_id s"] i(3) by blast
    define rt where "rt = (if nv then nr else rts)"
    define sl' where "sl' = \<lparr>slot_id = i, sl_cap_group = dest, isvalid = True, rights = rt, sl_object = ob\<rparr>"
    define v' where "v' = v\<lparr>copies_head := insert_after p (next_id s) (copies_head v), refcount := refcount v + 1\<rparr>"
    define s' where "s' = (upd_object ob v' (upd_table dest st' (upd_table dest st s)))\<lparr>obj_slots := (obj_slots s)(next_id s \<mapsto> sl'), next_id := next_id s + 1\<rparr>"
    have e: "cap_copy src dest sid nv nr s = Inr (int i, s')"
      using a(1) g g1 cg1 sl(1,2) o v(1) i(1) st'(1) by (simp add: cap_copy_def Let_def s'_def v'_def sl'_def rt_def)
    have ok: "caps_ok held (objects s) (obj_slots s) (tables s) (next_id s)" using inv by (simp add: caps_inv_def)
    have vo: "object_ok held (obj_slots s) ob v" using ok v(1) unfolding caps_ok_def by blast
    have "next_id s \<notin> set (copies_head v)" using vo ok unfolding object_ok_def caps_ok_def by (metis less_irrefl)
    then have v': "distinct (copies_head v')" "set (copies_head v') = insert (next_id s) (set (copies_head v))"
      "unat (refcount v') = unat (refcount v) + 1"
      using insert_after_in [of p "copies_head v" "next_id s"] sl(4) vv vo unat_plus_one [OF v(2)] by (simp_all add: v'_def object_ok_def)
    have at: "\<forall>j. slot_at st' j = (if j = i then Some (next_id s) else slot_at (slot_table dcg) j)"
      "\<forall>j. in_use st' j \<longleftrightarrow> j = i \<or> in_use (slot_table dcg) j" using st' a(3) i(3) by auto
    have sl': "slot_id sl' = i" "sl_cap_group sl' = dest" "isvalid sl'" "sl_object sl' = ob" "rights sl' = rt" by (simp_all add: sl'_def)
    note add = caps_ok_add [OF ok tables_Some [OF g(2)] v(1) i(2) st'(2) at v' sl'(1-4)]
    have s': "tables s' = (tables s)(dest \<mapsto> st')" "objects s' = (objects s)(ob \<mapsto> v')" "next_id s' = Suc (next_id s)"
      "obj_slots s' = (obj_slots s)(next_id s \<mapsto> sl')" "ks_mem s' = ks_mem s" using g by (simp_all add: s'_def)
    have i': "caps_inv held s'" using add(1) t(2) by (simp add: caps_inv_def s')
    have c: "caps s' = (caps s)((dest, i) \<mapsto> (ob, if nv then nr else rts))" using add(2) sl'(5) by (simp add: caps_def s' rt_def)
    have f: "caps s (dest, i) = None" using t(1) i(2) unfolding caps_lookup(1) [OF inv g(2)] table_ok_def by simp
    show ?thesis by (intro disjI2 exI conjI) (fact e i' f c)+
  qed
qed

lemma cap_free_none:
  assumes inv: "caps_inv held s" and g: "cap_groups s g = Some cg" and none: "sid < 0 \<or> caps s (g, nat sid) = None"
  shows "cap_free_locked g sid s = Inr (- ECAPBILITY, s)"
proof -
  have "get_slot sid (slot_table cg) = Inr None"
    using get_slot_ok [OF caps_table(3) [OF inv g], of sid] none caps_lookup(1) [OF inv g, of "nat sid"] by auto
  then show ?thesis using g by (simp add: cap_free_locked_def)
qed

text \<open>When the destructor of an object returns.\<close>

definition deinit_ok :: "kstate \<Rightarrow> nat \<Rightarrow> object_type \<Rightarrow> bool" where
  "deinit_ok s ob ty =
    (case ty of
       TYPE_THREAD \<Rightarrow> (\<exists>th c g. threads (ks_sched s) (Thread ob) = Some th \<and> thread_ctx th = Some c \<and> state c \<noteq> TS_RUNNING \<and>
          th_type c \<noteq> TYPE_IDLE \<and> th_cap_group th = Some g \<and> cap_groups s g \<noteq> None) \<and> cur_sched_ops (ks_sched s) = RR
     | TYPE_IRQ \<Rightarrow> intr_vectors s ob \<noteq> None
     | _ \<Rightarrow> True)"

lemma thread_deinit_returns:
  assumes "deinit_ok s ob TYPE_THREAD"
  shows "\<exists>s'. thread_deinit ob s = Inr s'"
proof -
  obtain th c g cg where t: "threads (ks_sched s) (Thread ob) = Some th" "thread_ctx th = Some c" "state c \<noteq> TS_RUNNING"
    "th_type c \<noteq> TYPE_IDLE" "th_cap_group th = Some g" "cap_groups s g = Some cg" "cur_sched_ops (ks_sched s) = RR"
    using assms by (auto simp: deinit_ok_def)
  have c: "ctx_of (ks_sched s) (Thread ob) = Some c" "get_ctx (ks_sched s) (Thread ob) = Inr c" "checked_ctx (ks_sched s) (Thread ob) = Inr c"
    using t by (simp_all add: get_ctx_def ctx_of_def checked_ctx_def)
  have "\<exists>s2. (if state c = TS_READY then bind_res (sched_dequeue (Thread ob) (ks_sched s)) (\<lambda>(r, s1). Inr s1) else Inr (ks_sched s)) = Inr s2 \<and>
     ctx_of s2 (Thread ob) \<noteq> None"
    using t c by (auto simp: sched_dequeue_def rr_sched_dequeue_def rr_sched_dequeue_nolock_def)
  then obtain s2 where s2: "(if state c = TS_READY then bind_res (sched_dequeue (Thread ob) (ks_sched s)) (\<lambda>(r, s1). Inr s1) else Inr (ks_sched s)) = Inr s2"
     "ctx_of s2 (Thread ob) \<noteq> None" by blast
  then obtain s3 where "destroy_thread_ctx (Thread ob) s2 = Inr s3" by (auto simp: destroy_thread_ctx_def get_ctx_def Let_def)
  then show ?thesis using t c s2 by (simp add: thread_deinit_def)
qed

lemma deinit_ok_frame:
  assumes "deinit_ok s ob ty" "ks_sched s' = ks_sched s" "intr_vectors s' = intr_vectors s" "\<forall>g. cap_groups s g \<noteq> None \<longrightarrow> cap_groups s' g \<noteq> None"
  shows "deinit_ok s' ob ty"
  using assms by (cases ty) (auto simp: deinit_ok_def)

lemma obj_deinit_returns: "deinit_ok s ob ty \<Longrightarrow> \<exists>s'. obj_deinit ty ob s = Inr s'"
  by (cases ty) (auto intro: thread_deinit_returns simp: irq_deinit_def deinit_ok_def res_simps)

text \<open>
  \<^verbatim>\<open>__cap_free\<close> on a number in use: the state after the slot is gone (\<open>unslot\<close>), and the two
  ways it goes on.
\<close>

definition unslot :: "nat \<Rightarrow> slot_table \<Rightarrow> nat \<Rightarrow> nat \<Rightarrow> object \<Rightarrow> kstate \<Rightarrow> kstate" where
  "unslot g st p ob v s = (upd_object ob (v\<lparr>copies_head := remove1 p (copies_head v), refcount := refcount v - 1\<rparr>)
     (upd_table g st s))\<lparr>obj_slots := (obj_slots s)(p := None)\<rparr>"

lemma cap_free_unfold:
  assumes inv: "caps_inv held s" and g: "cap_groups s g = Some cg" and sid: "0 \<le> sid" "caps s (g, nat sid) = Some (ob, rts)"
    and v: "objects s ob = Some v"
  obtains st p where "slot_at (slot_table cg) (nat sid) = Some p" "p \<in> set (copies_head v)"
    "cap_free_locked g sid s = (if refcount v = 1
       then bind_res (obj_deinit (ob_type v) ob (unslot g st p ob v s)) (\<lambda>s2. Inr (0, kfree_object ob s2))
       else Inr (0, unslot g st p ob v s))"
    "caps_inv held (unslot g st p ob v s)" "caps (unslot g st p ob v s) = (caps s)((g, nat sid) := None)"
    "refcount v = 1 \<longrightarrow> remove1 p (copies_head v) = [] \<and> held ob = 0"
proof -
  note t = caps_table [OF inv g]
  obtain p where p: "slot_at (slot_table cg) (nat sid) = Some p"
    using sid(2) caps_lookup(1) [OF inv g, of "nat sid"] by fastforce
  obtain sl v0 where sl: "obj_slots s p = Some sl" "isvalid sl" "objects s (sl_object sl) = Some v0" "p \<in> set (copies_head v0)"
    by (rule caps_slot [OF inv g p])
  have o: "sl_object sl = ob" "rights sl = rts" using caps_lookup(2) [OF inv g p sl(1)] sid(2) by simp_all
  have vv: "v0 = v" using sl(3) o v by simp
  have get: "get_slot sid (slot_table cg) = Inr (Some p)"
    using get_slot_ok [OF t(3), of sid] p sid(1) by simp
  have "nat sid < slots_size (slot_table cg)" using p by (simp add: slot_at_def split: if_splits)
  then obtain st where st: "free_slot_id (nat sid) (slot_table cg) = Inr st" "table_wf st"
    "\<forall>j. slot_at st j = (if j = nat sid then None else slot_at (slot_table cg) j)" "\<forall>j. in_use st j \<longleftrightarrow> j \<noteq> nat sid \<and> in_use (slot_table cg) j"
    using free_slot_id_ok [OF t(3)] by blast
  define v' where "v' = v\<lparr>copies_head := remove1 p (copies_head v), refcount := refcount v - 1\<rparr>"
  have ok: "caps_ok held (objects s) (obj_slots s) (tables s) (next_id s)" using inv by (simp add: caps_inv_def)
  note rem = caps_ok_remove [OF ok tables_Some [OF g] sl(1) sl(3) [unfolded vv] p st(2,3,4) v'_def, unfolded o]
  have s': "tables (unslot g st p ob v s) = (tables s)(g \<mapsto> st)" "objects (unslot g st p ob v s) = (objects s)(ob \<mapsto> v')"
    "next_id (unslot g st p ob v s) = next_id s" "obj_slots (unslot g st p ob v s) = (obj_slots s)(p := None)"
    "ks_mem (unslot g st p ob v s) = ks_mem s" using g by (simp_all add: unslot_def v'_def)
  have last: "refcount v = 1 \<longrightarrow> remove1 p (copies_head v) = [] \<and> held ob = 0" using rem(3) by (simp add: v'_def)
  have "cap_free_locked g sid s = (if refcount v = 1
       then bind_res (obj_deinit (ob_type v) ob (unslot g st p ob v s)) (\<lambda>s2. bind_res (deref (objects s2) ob) (\<lambda>v2.
                if refcount v2 = 0 then bug_on (copies_head v2 \<noteq> []) (Inr (0, kfree_object ob s2))
                else Inr (0, s2)))
       else Inr (0, unslot g st p ob v s))"
    using g get sl o v st(1) by (simp add: cap_free_locked_def Let_def unslot_def)
  also have "\<dots> = (if refcount v = 1
       then bind_res (obj_deinit (ob_type v) ob (unslot g st p ob v s)) (\<lambda>s2. Inr (0, kfree_object ob s2))
       else Inr (0, unslot g st p ob v s))"
    using last s'(2) by (auto simp: v'_def dest: obj_deinit_frame(1) intro!: bind_res_cong)
  finally have e: "cap_free_locked g sid s = \<dots>" .
  have i: "caps_inv held (unslot g st p ob v s)" using rem(1) t(2) by (simp add: caps_inv_def s')
  have c: "caps (unslot g st p ob v s) = (caps s)((g, nat sid) := None)" using rem(2) by (simp add: caps_def s')
  show ?thesis using that [OF p _ e i c last] sl(4) vv by blast
qed

lemma caps_frame:
  assumes "objects s' = objects s" "obj_slots s' = obj_slots s" "tables s' = tables s" "next_id s' = next_id s" "ks_mem s' = ks_mem s"
  shows "caps_inv held s' = caps_inv held s" "caps s' = caps s"
  using assms by (simp_all add: caps_inv_def caps_def)

lemma kfree_inv:
  assumes "caps_inv held s" "objects s ob = Some v" "copies_head v = []" "held ob = 0"
  shows "caps_inv held (kfree_object ob s)" "caps (kfree_object ob s) = (\<lambda>(h, j). if h = ob then None else caps s (h, j))"
  using assms caps_ok_kfree [of held "objects s" "obj_slots s" "tables s" "next_id s" ob v]
  by (auto simp: caps_inv_def caps_def caps_of_def fun_eq_iff)

lemma cap_free_ret:
  assumes inv: "caps_inv held s" and g: "cap_groups s g = Some cg" and sid: "0 \<le> sid" "caps s (g, nat sid) = Some (ob, rts)"
    and v: "objects s ob = Some v" and r: "cap_free_locked g sid s = Inr (r, s')"
  shows "r = 0" "caps_inv held s'" "objects s' ob = None \<longleftrightarrow> refcount v = 1" "\<forall>q. q \<noteq> ob \<longrightarrow> objects s' q = objects s q"
    "caps s' = (\<lambda>(h, j). if h = ob \<and> refcount v = 1 then None else ((caps s)((g, nat sid) := None)) (h, j))"
proof -
  obtain st p where u: "cap_free_locked g sid s = (if refcount v = 1
       then bind_res (obj_deinit (ob_type v) ob (unslot g st p ob v s)) (\<lambda>s2. Inr (0, kfree_object ob s2))
       else Inr (0, unslot g st p ob v s))"
    "caps_inv held (unslot g st p ob v s)" "caps (unslot g st p ob v s) = (caps s)((g, nat sid) := None)"
    "refcount v = 1 \<longrightarrow> remove1 p (copies_head v) = [] \<and> held ob = 0"
    by (rule cap_free_unfold [OF inv g sid v])
  have "r = 0 \<and> caps_inv held s' \<and> (objects s' ob = None \<longleftrightarrow> refcount v = 1) \<and> (\<forall>q. q \<noteq> ob \<longrightarrow> objects s' q = objects s q) \<and>
    caps s' = (\<lambda>(h, j). if h = ob \<and> refcount v = 1 then None else ((caps s)((g, nat sid) := None)) (h, j))"
  proof (cases "refcount v = 1")
    case False
    then have "r = 0" "s' = unslot g st p ob v s" using r u(1) by auto
    then show ?thesis using u(2,3) False by (auto simp: unslot_def)
  next
    case True
    then obtain s2 where s2: "obj_deinit (ob_type v) ob (unslot g st p ob v s) = Inr s2" "s' = kfree_object ob s2" "r = 0"
      using r u(1) by (auto simp: res_simps)
    note f = obj_deinit_frame [OF s2(1)]
    have "caps_inv held s2" "caps s2 = (caps s)((g, nat sid) := None)" using caps_frame [OF f] u(2,3) by simp_all
    moreover have "objects s2 ob = Some (v\<lparr>copies_head := remove1 p (copies_head v), refcount := refcount v - 1\<rparr>)"
      using f(1) by (simp add: unslot_def)
    ultimately show ?thesis using kfree_inv [of held s2 ob] u(4) True s2 f(1) by (auto simp: unslot_def)
  qed
  then show "r = 0" "caps_inv held s'" "objects s' ob = None \<longleftrightarrow> refcount v = 1" "\<forall>q. q \<noteq> ob \<longrightarrow> objects s' q = objects s q"
    "caps s' = (\<lambda>(h, j). if h = ob \<and> refcount v = 1 then None else ((caps s)((g, nat sid) := None)) (h, j))" by blast+
qed

lemma cap_free_total:
  assumes inv: "caps_inv held s" and g: "cap_groups s g = Some cg" and sid: "0 \<le> sid" "caps s (g, nat sid) = Some (ob, rts)"
    and v: "objects s ob = Some v" and d: "refcount v = 1 \<longrightarrow> deinit_ok s ob (ob_type v)"
  shows "\<exists>s'. cap_free_locked g sid s = Inr (0, s')"
proof -
  obtain st p where u: "cap_free_locked g sid s = (if refcount v = 1
       then bind_res (obj_deinit (ob_type v) ob (unslot g st p ob v s)) (\<lambda>s2. Inr (0, kfree_object ob s2))
       else Inr (0, unslot g st p ob v s))"
    by (rule cap_free_unfold [OF inv g sid v])
  have "\<exists>s2. obj_deinit (ob_type v) ob (unslot g st p ob v s) = Inr s2" if "refcount v = 1"
    by (rule obj_deinit_returns, rule deinit_ok_frame [of s]) (use d that in \<open>auto simp: unslot_def\<close>)
  then show ?thesis using u by (cases "refcount v = 1") auto
qed

text \<open>Revocation: the walk removes every slot of an object to which a reference is held.\<close>

definition without :: "nat \<Rightarrow> (nat \<times> nat \<rightharpoonup> nat \<times> u64) \<Rightarrow> nat \<times> nat \<rightharpoonup> nat \<times> u64" where
  "without ob m = (\<lambda>k. case m k of None \<Rightarrow> None | Some (q, r) \<Rightarrow> if q = ob then None else Some (q, r))"

definition no_orphan :: "kstate \<Rightarrow> nat \<Rightarrow> bool" where
  "no_orphan s ob = (\<forall>p sl. obj_slots s p = Some sl \<longrightarrow> sl_object sl = ob \<longrightarrow> cap_groups s (sl_cap_group sl) \<noteq> None)"

lemma free_copies_ok:
  assumes "caps_inv held s" "objects s ob = Some v" "0 < held ob" "no_orphan s ob" "copies_head v = ps"
  shows "\<exists>s' v'. free_copies ps s = Inr s' \<and> caps_inv held s' \<and> objects s' ob = Some v' \<and> copies_head v' = [] \<and>
    ob_type v' = ob_type v \<and> caps s' = without ob (caps s) \<and> (\<forall>q. q \<noteq> ob \<longrightarrow> objects s' q = objects s q) \<and> ks_sched s' = ks_sched s"
  using assms
proof (induction ps arbitrary: s v)
  case Nil
  have "q \<noteq> ob" if c: "caps s (g, i) = Some (q, r)" for g i q r
  proof -
    obtain cg where g: "cap_groups s g = Some cg" using c by (auto simp: caps_def caps_of_def tables_def split: option.splits)
    obtain p where p: "slot_at (slot_table cg) i = Some p" using c caps_lookup(1) [OF Nil.prems(1) g, of i] by fastforce
    obtain sl v0 where "obj_slots s p = Some sl" "objects s (sl_object sl) = Some v0" "p \<in> set (copies_head v0)"
      by (rule caps_slot [OF Nil.prems(1) g p])
    then show ?thesis using caps_lookup(2) [OF Nil.prems(1) g p] c Nil.prems(2,5) by auto
  qed
  then have "caps s = without ob (caps s)" by (auto simp: without_def fun_eq_iff split: option.splits)
  then show ?case using Nil.prems by auto
next
  case (Cons p ps)
  have ok: "caps_ok held (objects s) (obj_slots s) (tables s) (next_id s)" using Cons.prems(1) by (simp add: caps_inv_def)
  have vo: "object_ok held (obj_slots s) ob v" using ok Cons.prems(2) unfolding caps_ok_def by blast
  then obtain sl where sl: "obj_slots s p = Some sl" "sl_object sl = ob" using Cons.prems(5) unfolding object_ok_def by auto
  obtain cg where cg: "cap_groups s (sl_cap_group sl) = Some cg" using Cons.prems(4) sl by (fastforce simp: no_orphan_def)
  have "slot_ok (objects s) (tables s) p sl" using ok sl(1) unfolding caps_ok_def by blast
  then have at: "slot_at (slot_table cg) (slot_id sl) = Some p" using tables_Some [OF cg] unfolding slot_ok_def by blast
  have c: "caps s (sl_cap_group sl, nat (int (slot_id sl))) = Some (ob, rights sl)"
    using caps_lookup(2) [OF Cons.prems(1) cg at sl(1)] sl(2) by simp
  have "unat (refcount v) = length (copies_head v) + held ob" using vo unfolding object_ok_def by blast
  then have r: "refcount v \<noteq> 1" using Cons.prems(3,5) by auto
  obtain st p' where u0: "slot_at (slot_table cg) (nat (int (slot_id sl))) = Some p'"
    and u: "cap_free_locked (sl_cap_group sl) (int (slot_id sl)) s = (if refcount v = 1
       then bind_res (obj_deinit (ob_type v) ob (unslot (sl_cap_group sl) st p' ob v s)) (\<lambda>s2. Inr (0, kfree_object ob s2))
       else Inr (0, unslot (sl_cap_group sl) st p' ob v s))"
    "caps_inv held (unslot (sl_cap_group sl) st p' ob v s)"
    "caps (unslot (sl_cap_group sl) st p' ob v s) = (caps s)((sl_cap_group sl, nat (int (slot_id sl))) := None)"
    by (rule cap_free_unfold [OF Cons.prems(1) cg _ c Cons.prems(2)]) simp_all
  have pp: "p' = p" using u0 at by simp
  define s1 where "s1 = unslot (sl_cap_group sl) st p ob v s"
  define v1 where "v1 = v\<lparr>copies_head := remove1 p (copies_head v), refcount := refcount v - 1\<rparr>"
  have s1: "objects s1 ob = Some v1" "copies_head v1 = ps" "ob_type v1 = ob_type v" "ks_sched s1 = ks_sched s"
    "\<forall>q. q \<noteq> ob \<longrightarrow> objects s1 q = objects s q" "no_orphan s1 ob"
    using Cons.prems(4,5) cg by (auto simp: s1_def v1_def unslot_def no_orphan_def)
  obtain s' v' where ih: "free_copies ps s1 = Inr s'" "caps_inv held s'" "objects s' ob = Some v'" "copies_head v' = []"
    "ob_type v' = ob_type v1" "caps s' = without ob (caps s1)" "\<forall>q. q \<noteq> ob \<longrightarrow> objects s' q = objects s1 q" "ks_sched s' = ks_sched s1"
    using Cons.IH [OF _ s1(1) Cons.prems(3) s1(6,2)] u(2) unfolding pp s1_def by blast
  have "without ob (caps s1) = without ob (caps s)"
    using u(3) c unfolding pp s1_def by (auto simp: without_def fun_eq_iff)
  then show ?case using ih u(1) r sl(1) s1 by (auto simp: pp s1_def [symmetric])
qed

end
