(* ===== verification/Cap_Spec.thy ===== *)
theory Cap_Spec
  imports Capability
begin

text \<open>
  What capabilities promise. A process sees the map \<^const>\<open>caps\<close> from numbers to objects and
  rights; each operation of \<^verbatim>\<open>kernel/object/capability.c\<close> is an update of that map, and
  no reachable state has a number that leads to a freed object.
\<close>

section \<open>References\<close>

lemma is_valid_slot_id_ok:
  assumes "table_ok S g st" "- (2 ^ 31) \<le> sid" "sid < int (slots_size st)"
  shows "is_valid_slot_id sid st = Inr (0 \<le> sid \<and> slot_at st (nat sid) \<noteq> None)"
proof (cases "sid < 0")
  case True
  have "slots_size st \<le> 2 ^ 27" using assms(1) by (simp add: table_ok_def table_wf_def)
  moreover have "(sid + 2 ^ 32) mod 2 ^ 32 = sid + 2 ^ 32"
    using True assms(2) by (intro mod_pos_pos_trivial) simp_all
  then have "sid mod 2 ^ 32 = sid + 2 ^ 32" by (simp only: mod_add_self2)
  ultimately have "sid mod 2 ^ 32 \<ge> int (slots_size st)" using assms(2) by simp
  then show ?thesis using True by (simp add: is_valid_slot_id_def)
next
  case False
  have w: "table_wf st" using assms(1) by (simp add: table_ok_def)
  have m: "nat (sid mod 2 ^ 32) = nat sid" "nat sid < slots_size st"
    using False assms(3) w by (auto simp: table_wf_def)
  have "get_bit (nat sid) (slots_bmp st) = Inr (bmp (slots_bmp st) (nat sid))"
    using m(2) table_wf_bmp [OF w] by simp
  moreover have "bmp (slots_bmp st) (nat sid) \<longleftrightarrow> slot_at st (nat sid) \<noteq> None"
    using assms(1) m(2) unfolding table_ok_def in_use_def by blast
  moreover have "nth_res (slots st) (nat sid) = Inr (slot_at st (nat sid))"
    using m(2) w by (simp add: slot_at_def table_wf_def)
  ultimately show ?thesis using False m(1) unfolding is_valid_slot_id_def m(1) by auto
qed

lemma get_opaque_out:
  assumes inv: "caps_inv held s" and g: "cap_groups s g = Some cg" and sid: "int (slots_size (slot_table cg)) \<le> sid" "sid < 2 ^ 31"
  shows "get_opaque g sid tv ty s = Inl Bad_Access"
proof -
  have w: "table_wf (slot_table cg)" using caps_table(3) [OF inv g] .
  have "sid mod 2 ^ 32 = sid" using sid by simp
  moreover have "length (slots_bmp (slot_table cg)) \<le> nat sid div 64"
    using sid w by (simp add: table_wf_def div_le_mono nat_le_iff le_nat_iff)
  ultimately have "is_valid_slot_id sid (slot_table cg) = Inl Bad_Access"
    using sid by (simp add: is_valid_slot_id_def get_bit_def nth_res_def BITS_PER_LONG_def)
  then show ?thesis using g by (simp add: get_opaque_def)
qed

lemma get_opaque_in:
  assumes inv: "caps_inv held s" and g: "cap_groups s g = Some cg" and sid: "- (2 ^ 31) \<le> sid" "sid < int (slots_size (slot_table cg))"
  shows "get_opaque g sid tv ty s =
    (case (if sid < 0 then None else caps s (g, nat sid)) of None \<Rightarrow> Inr (None, s)
     | Some (ob, r) \<Rightarrow> if \<not> tv \<or> ob_type (the (objects s ob)) = ty
         then Inr (Some ob, upd_object ob ((the (objects s ob))\<lparr>refcount := refcount (the (objects s ob)) + 1\<rparr>) s)
         else Inr (None, s))"
proof -
  note v = is_valid_slot_id_ok [OF caps_table(1) [OF inv g] sid]
  show ?thesis
  proof (cases "0 \<le> sid \<and> slot_at (slot_table cg) (nat sid) \<noteq> None")
    case False
    then show ?thesis using v g caps_lookup(1) [OF inv g, of "nat sid"] by (auto simp: get_opaque_def)
  next
    case True
    then obtain p where p: "slot_at (slot_table cg) (nat sid) = Some p" by blast
    obtain sl v0 where sl: "obj_slots s p = Some sl" "isvalid sl" "objects s (sl_object sl) = Some v0"
      by (rule caps_slot [OF inv g p])
    have "get_slot sid (slot_table cg) = Inr (Some p)" using get_slot_ok [OF caps_table(3) [OF inv g], of sid] p True by simp
    then show ?thesis using v True g sl caps_lookup(2) [OF inv g p sl(1)] by (simp add: get_opaque_def)
  qed
qed

lemma caps_object:
  assumes inv: "caps_inv held s" and c: "caps s (g, i) = Some (ob, r)"
  obtains v where "objects s ob = Some v" "refcount v \<noteq> 0" "copies_head v \<noteq> []"
proof -
  obtain cg where g: "cap_groups s g = Some cg" using c by (auto simp: caps_def caps_of_def tables_def split: option.splits)
  obtain p where p: "slot_at (slot_table cg) i = Some p" using c caps_lookup(1) [OF inv g, of i] by fastforce
  obtain sl v where sl: "obj_slots s p = Some sl" "objects s (sl_object sl) = Some v" "p \<in> set (copies_head v)"
    by (rule caps_slot [OF inv g p])
  have o: "sl_object sl = ob" using caps_lookup(2) [OF inv g p sl(1)] c by simp
  have "unat (refcount v) = length (copies_head v) + held (sl_object sl)"
    using inv sl(2) unfolding caps_inv_def caps_ok_def object_ok_def by blast
  moreover have ne: "copies_head v \<noteq> []" using sl(3) by auto
  ultimately have "refcount v \<noteq> 0" by auto
  then show ?thesis using that sl(2) o ne by blast
qed

lemma get_opaque_inv:
  assumes inv: "caps_inv held s" and g: "get_opaque g sid tv ty s = Inr (Some ob, s')" and m: "\<forall>v. objects s ob = Some v \<longrightarrow> refcount v \<noteq> -1"
    and sid: "- (2 ^ 31) \<le> sid" "sid < 2 ^ 31"
  shows "caps_inv (held(ob := held ob + 1)) s'" "caps s' = caps s"
    "\<exists>v. objects s ob = Some v \<and> s' = upd_object ob (v\<lparr>refcount := refcount v + 1\<rparr>) s \<and> (tv \<longrightarrow> ob_type v = ty)"
    "0 \<le> sid \<and> (\<exists>r. caps s (g, nat sid) = Some (ob, r))"
proof -
  obtain cg where cg: "cap_groups s g = Some cg" using g by (auto simp: get_opaque_def res_simps)
  have lt: "sid < int (slots_size (slot_table cg))"
    using get_opaque_out [OF inv cg _ sid(2), of tv ty] g by (cases "sid < int (slots_size (slot_table cg))") auto
  obtain r where r: "0 \<le> sid" "caps s (g, nat sid) = Some (ob, r)"
    and s': "s' = upd_object ob ((the (objects s ob))\<lparr>refcount := refcount (the (objects s ob)) + 1\<rparr>) s"
    and ty: "tv \<longrightarrow> ob_type (the (objects s ob)) = ty"
    using g unfolding get_opaque_in [OF inv cg sid(1) lt] by (auto split: option.splits if_splits)
  obtain v where v: "objects s ob = Some v" by (rule caps_object [OF inv r(2)])
  have "caps_ok (held(ob := held ob + 1)) ((objects s)(ob \<mapsto> v\<lparr>refcount := refcount v + 1\<rparr>)) (obj_slots s) (tables s) (next_id s)"
    using caps_ok_hold [of held "objects s" "obj_slots s" "tables s" "next_id s" ob v] inv m v unfolding caps_inv_def by blast
  then show "caps_inv (held(ob := held ob + 1)) s'" using inv s' v by (simp add: caps_inv_def)
  show "caps s' = caps s" using s' by (simp add: caps_def)
  show "\<exists>v. objects s ob = Some v \<and> s' = upd_object ob (v\<lparr>refcount := refcount v + 1\<rparr>) s \<and> (tv \<longrightarrow> ob_type v = ty)"
    using v s' ty by auto
  show "0 \<le> sid \<and> (\<exists>r. caps s (g, nat sid) = Some (ob, r))" using r by blast
qed

lemma obj_put_inv:
  assumes inv: "caps_inv held s" and h: "0 < held ob"
  shows "\<exists>s'. obj_put ob s = Inr s' \<and> caps_inv (held(ob := held ob - 1)) s' \<and> (\<forall>q. q \<noteq> ob \<longrightarrow> objects s' q = objects s q) \<and>
    (\<exists>v. objects s ob = Some v \<and> (objects s' ob = None \<longleftrightarrow> copies_head v = [] \<and> held ob = 1) \<and>
      caps s' = (\<lambda>(k, j). if k = ob \<and> copies_head v = [] \<and> held ob = 1 then None else caps s (k, j)) \<and>
      ks_sched s' = (if copies_head v = [] \<and> held ob = 1
        then (ks_sched s)\<lparr>threads := (threads (ks_sched s))(Thread ob := None)\<rparr> else ks_sched s))"
proof -
  have ok: "caps_ok held (objects s) (obj_slots s) (tables s) (next_id s)" using inv by (simp add: caps_inv_def)
  obtain v where v: "objects s ob = Some v" using ok h unfolding caps_ok_def by fastforce
  have u: "unat (refcount v) = length (copies_head v) + held ob" using ok v unfolding caps_ok_def object_ok_def by blast
  note rel = caps_ok_release [OF ok v h]
  define s1 where "s1 = upd_object ob (v\<lparr>refcount := refcount v - 1\<rparr>) s"
  have i1: "caps_inv (held(ob := held ob - 1)) s1" "caps s1 = caps s"
    using rel(1) inv by (simp_all add: caps_inv_def caps_def s1_def)
  have last: "refcount v = 1 \<longleftrightarrow> copies_head v = [] \<and> held ob = 1"
  proof
    assume "copies_head v = [] \<and> held ob = 1"
    then have "unat (refcount v) = unat (1 :: u64)" using u by simp
    then show "refcount v = 1" by (simp only: word_unat_eq_iff)
  qed (use rel(2) in blast)
  show ?thesis
  proof (cases "refcount v = 1")
    case False
    then have "obj_put ob s = Inr s1" using v by (simp add: obj_put_def s1_def)
    then show ?thesis using i1 v False last by (auto simp: s1_def)
  next
    case True
    then have "obj_put ob s = Inr (kfree_object ob s1)" using v by (simp add: obj_put_def s1_def)
    moreover have "objects s1 ob = Some (v\<lparr>refcount := refcount v - 1\<rparr>)" by (simp add: s1_def)
    then have "caps_inv (held(ob := held ob - 1)) (kfree_object ob s1)"
      "caps (kfree_object ob s1) = (\<lambda>(h, j). if h = ob then None else caps s1 (h, j))"
      using kfree_inv [OF i1(1)] True last by simp_all
    ultimately show ?thesis using True last v i1(2) by (auto simp: s1_def kfree_object_def)
  qed
qed

lemma cap_revoke_ok:
  assumes inv: "caps_inv held s" and g: "cap_groups s g = Some cg" and sid: "0 \<le> sid" and c: "caps s (g, nat sid) = Some (ob, r)"
    and m: "\<forall>v. objects s ob = Some v \<longrightarrow> refcount v \<noteq> -1" and orph: "no_orphan s ob"
  shows "\<exists>s'. cap_revoke g sid s = Inr (0, s') \<and> caps_inv held s' \<and> (objects s' ob = None \<longleftrightarrow> held ob = 0) \<and>
    caps s' = (\<lambda>(k, j). if k = ob \<and> held ob = 0 then None else without ob (caps s) (k, j)) \<and>
    ks_sched s' = (if held ob = 0 then (ks_sched s)\<lparr>threads := (threads (ks_sched s))(Thread ob := None)\<rparr> else ks_sched s)"
proof -
  have lt: "nat sid < slots_size (slot_table cg)"
    using c caps_lookup(1) [OF inv g, of "nat sid"] by (auto simp: slot_at_def split: if_splits)
  moreover have "slots_size (slot_table cg) \<le> 2 ^ 27" using caps_table(3) [OF inv g] by (simp add: table_wf_def)
  ultimately have rng: "- (2 ^ 31) \<le> sid" "sid < int (slots_size (slot_table cg))" "sid < 2 ^ 31" using sid by simp_all
  obtain v where v: "objects s ob = Some v" "refcount v \<noteq> 0" by (rule caps_object [OF inv c])
  define s1 where "s1 = upd_object ob (v\<lparr>refcount := refcount v + 1\<rparr>) s"
  have get: "get_opaque g sid False TYPE_CAP_GROUP s = Inr (Some ob, s1)"
    using c sid v(1) unfolding get_opaque_in [OF inv g rng(1,2)] by (simp add: s1_def)
  have i1: "caps_inv (held(ob := held ob + 1)) s1" "caps s1 = caps s"
    using get_opaque_inv(1,2) [OF inv get m rng(1,3)] by blast+
  have o1: "objects s1 ob = Some (v\<lparr>refcount := refcount v + 1\<rparr>)" "no_orphan s1 ob"
    using orph by (simp_all add: s1_def no_orphan_def)
  have "1 + refcount v \<noteq> 0" using m v(1) by (metis add.commute eq_neg_iff_add_eq_0)
  then have nz: "refcount (v\<lparr>refcount := refcount v + 1\<rparr>) \<noteq> 0" by (simp add: add.commute)
  obtain s2 v2 where f: "free_copies (copies_head v) s1 = Inr s2" "caps_inv (held(ob := held ob + 1)) s2" "objects s2 ob = Some v2"
    "copies_head v2 = []" "caps s2 = without ob (caps s1)" "ks_sched s2 = ks_sched s1"
    using free_copies_ok [OF i1(1) o1(1) _ o1(2), of "copies_head v"] by auto
  have fr: "obj_free (Some ob) s1 = Inr s2" using o1(1) nz f(1,3) by (simp add: obj_free_def)
  obtain s3 where p: "obj_put ob s2 = Inr s3" "caps_inv (held(ob := held ob)) s3"
    "objects s3 ob = None \<longleftrightarrow> held ob = 0"
    "caps s3 = (\<lambda>(k, j). if k = ob \<and> held ob = 0 then None else caps s2 (k, j))"
    "ks_sched s3 = (if held ob = 0 then (ks_sched s2)\<lparr>threads := (threads (ks_sched s2))(Thread ob := None)\<rparr> else ks_sched s2)"
    using obj_put_inv [OF f(2), of ob] f(3,4) by auto
  have "cap_revoke g sid s = Inr (0, s3)" using get fr p(1) by (simp add: cap_revoke_def)
  moreover have "ks_sched s2 = ks_sched s" using f(6) by (simp add: s1_def)
  ultimately show ?thesis using p f(5) i1(2) by auto
qed

section \<open>Sequences of operations\<close>

lemma caps_group: "caps s (g, i) = Some q \<Longrightarrow> \<exists>cg. cap_groups s g = Some cg"
  by (auto simp: caps_def caps_of_def tables_def split: option.splits)

definition counts_small :: "kstate \<Rightarrow> bool" where
  "counts_small s = (\<forall>ob v. objects s ob = Some v \<longrightarrow> refcount v \<noteq> -1)"

lemma obj_alloc_inv:
  assumes inv: "caps_inv held s" and a: "obj_alloc ty sz s = (obj, s')"
  shows "caps_inv held s'" "caps s' = caps s"
proof -
  have ok: "caps_ok held (objects s) (obj_slots s) (tables s) (next_id s)" "mem_bounded (ks_mem s)" using inv by (simp_all add: caps_inv_def)
  have n: "objects s (next_id s) = None" using ok(1) unfolding caps_ok_def by fastforce
  then have "slot_ok ((objects s)(next_id s \<mapsto> v)) (tables s) p sl" if "slot_ok (objects s) (tables s) p sl" for v p sl
    using that unfolding slot_ok_def by auto
  then have "caps_ok held ((objects s)(next_id s \<mapsto> \<lparr>ob_type = ty, ob_size = sz, copies_head = [], refcount = 0\<rparr>)) (obj_slots s) (tables s) (Suc (next_id s))"
    using ok(1) n unfolding caps_ok_def by (auto simp: object_ok_def less_Suc_eq split: if_splits)
  then show "caps_inv held s'" "caps s' = caps s"
    using a inv ok(2) by (auto simp: obj_alloc_def Let_def caps_inv_def caps_def split: if_splits)
qed

lemma cap_group_init_inv:
  assumes inv: "caps_inv held s" and g: "cap_groups s g = None" and sz: "0 < sz" and r: "cap_group_init g sz b s = Inr s'"
    and fresh: "\<forall>p sl. obj_slots s p = Some sl \<longrightarrow> sl_cap_group sl \<noteq> g"
  shows "caps_inv held s'" "caps s' = caps s"
proof -
  obtain st v where st: "slot_table_init (ks_mem s) sz = Inr st" "objects s g = Some v"
    and s': "tables s' = (tables s)(g \<mapsto> st)" "objects s' = objects s" "obj_slots s' = obj_slots s" "next_id s' = next_id s" "ks_mem s' = ks_mem s"
    using r by (auto simp: cap_group_init_def res_simps tables_def fun_eq_iff split: sum.splits)
  have ok: "caps_ok held (objects s) (obj_slots s) (tables s) (next_id s)" "mem_bounded (ks_mem s)" using inv by (simp_all add: caps_inv_def)
  define n where "n = DIV_ROUND_UP sz BASE_OBJECT_NUM * BASE_OBJECT_NUM"
  have n: "64 dvd n" "0 < n" using sz by (auto simp: n_def BASE_OBJECT_NUM_def BITS_PER_LONG_def DIV_ROUND_UP_def)
  have e: "slot_table_init (ks_mem s) n = Inr st"
    using st(1) by (simp add: slot_table_init_def n_def BASE_OBJECT_NUM_def BITS_PER_LONG_def)
  then have i: "st = \<lparr>slots_size = n, slots = replicate n None, full_slots_bmp = replicate (BITS_TO_LONGS (n div 64)) 0, slots_bmp = replicate (n div 64) 0\<rparr>"
    using slot_table_init_mult [OF n(1), of "ks_mem s"] by auto
  have at: "slot_at st j = None" "\<not> in_use st j" for j
    using n(1) by (auto simp: i slot_at_def in_use_def bmp_def)
  have "table_wf st" using slot_table_init_bound [OF n(1) ok(2) e] n by (simp add: i table_wf_def bmp_def)
  then have "table_ok (obj_slots s) g st" using at by (simp add: table_ok_def)
  then have "caps_ok held (objects s) (obj_slots s) ((tables s)(g \<mapsto> st)) (next_id s)"
    using ok(1) st(2) fresh unfolding caps_ok_def slot_ok_def by (auto split: if_splits)
  then show "caps_inv held s'" using ok(2) by (simp add: caps_inv_def s')
  have "tables s g = None" using g by (simp add: tables_def)
  then show "caps s' = caps s" using at by (auto simp: caps_def caps_of_def s' fun_eq_iff)
qed

lemma cap_free_inv:
  assumes inv: "caps_inv held s" and r: "cap_free g sid s = Inr (r, s')"
  shows "caps_inv held s'"
proof -
  obtain cg where g: "cap_groups s g = Some cg" using r by (auto simp: cap_free_def cap_free_locked_def res_simps)
  show ?thesis
  proof (cases "sid < 0 \<or> caps s (g, nat sid) = None")
    case True
    then show ?thesis using cap_free_none [OF inv g True] r inv by (simp add: cap_free_def)
  next
    case False
    then obtain ob rts where c: "0 \<le> sid" "caps s (g, nat sid) = Some (ob, rts)" by auto
    obtain v where v: "objects s ob = Some v" by (rule caps_object [OF inv c(2)])
    show ?thesis using cap_free_ret(2) [OF inv g c v] r by (simp add: cap_free_def)
  qed
qed

lemma cap_copy_inv:
  assumes inv: "caps_inv held s" and m: "counts_small s" and r: "cap_copy src dest sid nv nr s = Inr (r, s')"
  shows "caps_inv held s'"
proof -
  obtain cg dcg where g: "cap_groups s src = Some cg" "cap_groups s dest = Some dcg" using r by (auto simp: cap_copy_def res_simps)
  show ?thesis
  proof (cases "sid < 0 \<or> caps s (src, nat sid) = None")
    case True
    then show ?thesis using cap_copy_none [OF inv g True] r inv by simp
  next
    case False
    then obtain ob rts where c: "0 \<le> sid" "caps s (src, nat sid) = Some (ob, rts)" by auto
    obtain v where v: "objects s ob = Some v" by (rule caps_object [OF inv c(2)])
    show ?thesis using cap_copy_ok [OF inv g c v, of nv nr] m v r by (auto simp: counts_small_def)
  qed
qed

lemma cap_move_inv:
  assumes "caps_inv held s" "counts_small s" "cap_move src dest sid nv nr s = Inr (r, s')"
  shows "caps_inv held s'"
proof -
  obtain r1 s1 where c: "cap_copy src dest sid nv nr s = Inr (r1, s1)"
    and f: "s' = s1 \<or> (\<exists>r2. cap_free src sid s1 = Inr (r2, s'))"
    using assms(3) by (auto simp: cap_move_def res_simps split: if_splits)
  show ?thesis using cap_copy_inv [OF assms(1,2) c] f cap_free_inv by blast
qed

text \<open>
  All interleavings of the operations, from a state without objects. A new group has a number that
  no slot has named before; a reference is given back only by a holder; a revoked object has its
  slots in living groups.
\<close>

inductive cap_reachable :: "(nat \<Rightarrow> nat) \<Rightarrow> kstate \<Rightarrow> bool" where
  start: "objects s = Map.empty \<Longrightarrow> obj_slots s = Map.empty \<Longrightarrow> cap_groups s = Map.empty \<Longrightarrow> mem_bounded (ks_mem s) \<Longrightarrow>
    cap_reachable (\<lambda>_. 0) s"
| new_object: "cap_reachable held s \<Longrightarrow> obj_alloc ty sz s = (obj, s') \<Longrightarrow> cap_reachable held s'"
| new_group: "cap_reachable held s \<Longrightarrow> cap_groups s g = None \<Longrightarrow> (\<forall>p sl. obj_slots s p = Some sl \<longrightarrow> sl_cap_group sl \<noteq> g) \<Longrightarrow>
    0 < sz \<Longrightarrow> cap_group_init g sz b s = Inr s' \<Longrightarrow> cap_reachable held s'"
| new_cap: "cap_reachable held s \<Longrightarrow> objects s ob = Some v \<Longrightarrow> refcount v = 0 \<Longrightarrow> cap_groups s g = Some cg \<Longrightarrow>
    cap_alloc g ob rts s = Inr (r, s') \<Longrightarrow> cap_reachable held s'"
| free: "cap_reachable held s \<Longrightarrow> cap_free g sid s = Inr (r, s') \<Longrightarrow> cap_reachable held s'"
| copy: "cap_reachable held s \<Longrightarrow> counts_small s \<Longrightarrow> cap_copy src dest sid nv nr s = Inr (r, s') \<Longrightarrow> cap_reachable held s'"
| move: "cap_reachable held s \<Longrightarrow> counts_small s \<Longrightarrow> cap_move src dest sid nv nr s = Inr (r, s') \<Longrightarrow> cap_reachable held s'"
| get: "cap_reachable held s \<Longrightarrow> counts_small s \<Longrightarrow> - (2 ^ 31) \<le> sid \<Longrightarrow> sid < 2 ^ 31 \<Longrightarrow>
    get_opaque g sid tv ty s = Inr (Some ob, s') \<Longrightarrow> cap_reachable (held(ob := held ob + 1)) s'"
| put: "cap_reachable held s \<Longrightarrow> 0 < held ob \<Longrightarrow> obj_put ob s = Inr s' \<Longrightarrow> cap_reachable (held(ob := held ob - 1)) s'"
| revoke: "cap_reachable held s \<Longrightarrow> counts_small s \<Longrightarrow> 0 \<le> sid \<Longrightarrow> caps s (g, nat sid) = Some (ob, rts) \<Longrightarrow> no_orphan s ob \<Longrightarrow>
    cap_revoke g sid s = Inr (r, s') \<Longrightarrow> cap_reachable held s'"

lemma cap_reachable_inv: "cap_reachable held s \<Longrightarrow> caps_inv held s"
proof (induction rule: cap_reachable.induct)
  case (start s)
  then have "tables s = Map.empty" by (simp add: tables_def)
  then show ?case using start by (simp add: caps_inv_def caps_ok_def)
next
  case (new_object held s ty sz obj s')
  then show ?case using obj_alloc_inv(1) by blast
next
  case (new_group held s g sz b s')
  then show ?case using cap_group_init_inv(1) by blast
next
  case (new_cap held s ob v g cg rts r s')
  then show ?case using cap_alloc_ok [of held s g cg ob v rts] by auto
next
  case (free held s g sid r s')
  then show ?case using cap_free_inv by blast
next
  case (copy held s src dest sid nv nr r s')
  then show ?case using cap_copy_inv by blast
next
  case (move held s src dest sid nv nr r s')
  then show ?case using cap_move_inv by blast
next
  case (get held s sid g tv ty ob s')
  then have "caps_inv (held(ob := held ob + 1)) s'"
    using get_opaque_inv(1) [of held s g sid tv ty ob s'] by (simp add: counts_small_def)
  then show ?case by (simp only: fun_upd_def)
next
  case (put held s ob s')
  then have "caps_inv (held(ob := held ob - 1)) s'" using obj_put_inv [of held s ob] by auto
  then show ?case by (simp only: fun_upd_def)
next
  case (revoke held s sid g ob rts r s')
  obtain cg where "cap_groups s g = Some cg" using caps_group [OF revoke.hyps(4)] by blast
  then show ?case using cap_revoke_ok [of held s g cg sid ob rts] revoke by (auto simp: counts_small_def)
qed

section \<open>A concrete state\<close>

text \<open>
  One group (object 0) that holds capabilities for itself and for a thread (object 2), which waits
  in the ready queue of CPU 0.
\<close>

definition demo_table :: slot_table where
  "demo_table = \<lparr>slots_size = 64, slots = [Some 1, Some 3] @ replicate 62 None, full_slots_bmp = [0], slots_bmp = [3]\<rparr>"

definition demo_caps :: kstate where
  "demo_caps = boot_kstate\<lparr>
    ks_sched := boot_sched\<lparr>threads := [Thread 2 \<mapsto> zero_thread\<lparr>thread_ctx := Some (zero_ctx\<lparr>th_type := TYPE_USER,
        state := TS_READY\<rparr>), th_cap_group := Some 0\<rparr>], rr_ready_queue := (\<lambda>_. [])(0 := [Thread 2])\<rparr>,
    objects := [0 \<mapsto> \<lparr>ob_type = TYPE_CAP_GROUP, ob_size = 200, copies_head = [1], refcount = 1\<rparr>,
      2 \<mapsto> \<lparr>ob_type = TYPE_THREAD, ob_size = 200, copies_head = [3], refcount = 1\<rparr>],
    obj_slots := [1 \<mapsto> \<lparr>slot_id = 0, sl_cap_group = 0, isvalid = True, rights = 0, sl_object = 0\<rparr>,
      3 \<mapsto> \<lparr>slot_id = 1, sl_cap_group = 0, isvalid = True, rights = 7, sl_object = 2\<rparr>],
    cap_groups := [0 \<mapsto> \<lparr>slot_table = demo_table, thread_list = [Thread 2], thread_cnt = 1, badge = 1, notify_recycler = 0,
      cap_group_name = []\<rparr>], next_id := 4\<rparr>"

lemma demo_table_at: "slot_at demo_table i = (if i = 0 then Some 1 else if i = 1 then Some 3 else None)"
  by (auto simp: slot_at_def demo_table_def nth_append nth_Cons')

lemma demo_table_use: "in_use demo_table i \<longleftrightarrow> i < 2"
proof -
  have "(3 :: u64) = mask 2" by (simp add: mask_eq_exp_minus_1)
  then have "bit (3 :: u64) i \<longleftrightarrow> i < 2" by (simp only: bit_mask_iff) (auto dest: less_imp_le_nat)
  then show ?thesis by (auto simp: in_use_def demo_table_def bmp_def)
qed

lemma demo_table_wf: "table_wf demo_table"
  by (auto simp: table_wf_def demo_table_def bmp_def BITS_TO_LONGS_def BITS_PER_LONG_def DIV_ROUND_UP_def nth_Cons')

lemma demo_caps_inv: "caps_inv (\<lambda>_. 0) demo_caps"
  unfolding caps_inv_def
proof
  show "mem_bounded (ks_mem demo_caps)" by (simp add: demo_caps_def boot_kstate_def mem_bounded_def)
  have t: "tables demo_caps = [0 \<mapsto> demo_table]" by (auto simp: tables_def demo_caps_def boot_kstate_def)
  have "table_ok (obj_slots demo_caps) 0 demo_table"
    using demo_table_wf by (simp add: table_ok_def demo_table_use demo_table_at demo_caps_def boot_kstate_def)
  then show "caps_ok (\<lambda>_. 0) (objects demo_caps) (obj_slots demo_caps) (tables demo_caps) (next_id demo_caps)"
    unfolding caps_ok_def t
    by (auto simp: slot_ok_def object_ok_def demo_table_at demo_caps_def boot_kstate_def split: if_splits)
qed

lemma demo_caps_map: "caps demo_caps (0, 0) = Some (0, 0)" "caps demo_caps (0, 1) = Some (2, 7)" "caps demo_caps (0, 2) = None"
  by (simp_all add: caps_def caps_of_def tables_def demo_table_at demo_caps_def boot_kstate_def)

lemma demo_caps_sel:
  "cap_groups demo_caps 0 = Some \<lparr>slot_table = demo_table, thread_list = [Thread 2], thread_cnt = 1, badge = 1, notify_recycler = 0, cap_group_name = []\<rparr>"
  "objects demo_caps 2 = Some \<lparr>ob_type = TYPE_THREAD, ob_size = 200, copies_head = [3], refcount = 1\<rparr>"
  "objects demo_caps ob = Some v \<Longrightarrow> refcount v = 1" "no_orphan demo_caps ob"
  "rr_ready_queue (ks_sched demo_caps) 0 = [Thread 2]" "slots_size demo_table = 64"
  by (auto simp: demo_caps_def boot_kstate_def no_orphan_def demo_table_def split: if_splits)

section \<open>Properties\<close>

text \<open>
  C21: \<^verbatim>\<open>cap_copy\<close> from number \<open>sid\<close> of group \<open>src\<close> to group \<open>dest\<close> is an update of the map of
  capabilities: it returns \<^verbatim>\<open>-ECAPBILITY\<close> without effect when the number is not in use;
  otherwise it gives a number of \<open>dest\<close> that was free to the same object, with the new rights when
  they are given and the old ones else, and changes no other capability. Only when the table of
  \<open>dest\<close> is full and cannot grow does it not return: the code tests for \<open>-1\<close>, not for the
  \<^verbatim>\<open>-ENOMEM\<close> it gets, and indexes the bitmap with it.
\<close>

theorem cap_copy_refines:
  assumes "caps_inv held s" "cap_groups s src = Some cg" "cap_groups s dest = Some dcg"
    and "counts_small s"
  shows "case (if sid < 0 then None else caps s (src, nat sid)) of
     None \<Rightarrow> cap_copy src dest sid nv nr s = Inr (- ECAPBILITY, s)
   | Some (ob, rts) \<Rightarrow>
       alloc_slot_id (ks_mem s) (ks_beyond s) (slot_table dcg) = Inr (- ENOMEM, slot_table dcg) \<and>
         cap_copy src dest sid nv nr s = Inl Bad_Access \<or>
       (\<exists>i s'. cap_copy src dest sid nv nr s = Inr (int i, s') \<and> caps_inv held s' \<and>
         caps s (dest, i) = None \<and> caps s' = (caps s)((dest, i) \<mapsto> (ob, if nv then nr else rts)))"
proof (cases "sid < 0 \<or> caps s (src, nat sid) = None")
  case True
  then show ?thesis using cap_copy_none [OF assms(1-3) True] by auto
next
  case False
  then obtain ob rts where c: "0 \<le> sid" "caps s (src, nat sid) = Some (ob, rts)" by auto
  obtain v where v: "objects s ob = Some v" by (rule caps_object [OF assms(1) c(2)])
  have "refcount v \<noteq> -1" using assms(4) v by (simp add: counts_small_def)
  then show ?thesis using cap_copy_ok [OF assms(1-3) c v, of nv nr] c by simp
qed

theorem cap_copy_refines_witness:
  "caps_inv (\<lambda>_. 0) demo_caps \<and> cap_copy 0 0 5 False 0 demo_caps = Inr (- ECAPBILITY, demo_caps) \<and>
    (cap_copy 0 0 1 False 0 demo_caps = Inl Bad_Access \<or>
     (\<exists>i s'. cap_copy 0 0 1 False 0 demo_caps = Inr (int i, s') \<and> caps s' = (caps demo_caps)((0, i) \<mapsto> (2, 7))))"
proof -
  have m: "counts_small demo_caps" using demo_caps_sel(3) by (fastforce simp: counts_small_def)
  have "caps demo_caps (0, 5) = None" by (simp add: caps_def caps_of_def tables_def demo_table_at demo_caps_def boot_kstate_def)
  then show ?thesis
    using cap_copy_refines [OF demo_caps_inv demo_caps_sel(1,1) m, of 5 False 0]
      cap_copy_refines [OF demo_caps_inv demo_caps_sel(1,1) m, of 1 False 0] demo_caps_map(2) demo_caps_inv by auto
qed



text \<open>
  C23: \<^verbatim>\<open>cap_revoke\<close> of a number in use returns 0 and leaves no number of any group that leads
  to the object; every capability for another object stays. The object itself goes away unless
  kernel code still holds a reference. The slots of the object must belong to living groups.
\<close>

theorem cap_revoke_removes_all:
  assumes "caps_inv held s" "cap_groups s g = Some cg" "0 \<le> sid" "caps s (g, nat sid) = Some (ob, r)"
    and "\<forall>v. objects s ob = Some v \<longrightarrow> refcount v \<noteq> -1" "no_orphan s ob"
  shows "\<exists>s'. cap_revoke g sid s = Inr (0, s') \<and> caps_inv held s' \<and> (objects s' ob = None \<longleftrightarrow> held ob = 0) \<and>
    (\<forall>h j q. caps s' (h, j) = Some q \<longleftrightarrow> caps s (h, j) = Some q \<and> fst q \<noteq> ob \<and> \<not> (h = ob \<and> held ob = 0))"
proof -
  obtain s' where s': "cap_revoke g sid s = Inr (0, s')" "caps_inv held s'" "objects s' ob = None \<longleftrightarrow> held ob = 0"
    "caps s' = (\<lambda>(k, j). if k = ob \<and> held ob = 0 then None else without ob (caps s) (k, j))"
    using cap_revoke_ok [OF assms] by (elim exE conjE)
  have "caps s' (h, j) = Some q \<longleftrightarrow> caps s (h, j) = Some q \<and> fst q \<noteq> ob \<and> \<not> (h = ob \<and> held ob = 0)" for h j q
    unfolding s'(4) by (cases q) (auto simp: without_def split: option.splits if_splits)
  then have "\<forall>h j q. caps s' (h, j) = Some q \<longleftrightarrow> caps s (h, j) = Some q \<and> fst q \<noteq> ob \<and> \<not> (h = ob \<and> held ob = 0)" by (intro allI)
  then show ?thesis using s'(1-3) by (intro exI conjI)
qed

theorem cap_revoke_removes_all_witness:
  "caps demo_caps (0, 1) = Some (2, 7) \<and> (\<exists>s'. cap_revoke 0 1 demo_caps = Inr (0, s') \<and> objects s' 2 = None \<and>
    caps s' (0, 1) = None \<and> caps s' (0, 0) = Some (0, 0))"
proof -
  have m: "\<forall>v. objects demo_caps 2 = Some v \<longrightarrow> refcount v \<noteq> -1" using demo_caps_sel(2) by simp
  have c: "caps demo_caps (0, nat 1) = Some (2, 7)" using demo_caps_map(2) by simp
  obtain s' where s': "cap_revoke 0 1 demo_caps = Inr (0, s')" "objects s' 2 = None"
    "\<forall>h j q. caps s' (h, j) = Some q \<longleftrightarrow> caps demo_caps (h, j) = Some q \<and> fst q \<noteq> 2 \<and> \<not> (h = 2 \<and> (0 :: nat) = 0)"
    using cap_revoke_removes_all [OF demo_caps_inv demo_caps_sel(1) _ c m demo_caps_sel(4)] by auto
  have "caps s' (0, 1) = None" using s'(3) demo_caps_map(2) by (cases "caps s' (0, 1)") auto
  then show ?thesis using s' demo_caps_map by simp
qed

text \<open>
  C24: \<^verbatim>\<open>obj_get\<close> respects types: when it returns an object, that object is alive, has the type
  asked for and is the one the number leads to, and the caller holds one reference more.
\<close>

theorem obj_get_typed:
  assumes "caps_inv held s" "- (2 ^ 31) \<le> sid" "sid < 2 ^ 31" "counts_small s"
    and "obj_get g sid ty s = Inr (Some ob, s')"
  shows "0 \<le> sid \<and> (\<exists>r. caps s (g, nat sid) = Some (ob, r)) \<and> caps_inv (held(ob := held ob + 1)) s' \<and> caps s' = caps s \<and>
    (\<exists>v. objects s ob = Some v \<and> ob_type v = ty)"
proof -
  have m: "\<forall>v. objects s ob = Some v \<longrightarrow> refcount v \<noteq> -1" using assms(4) by (simp add: counts_small_def)
  note g = get_opaque_inv [OF assms(1) assms(5) [unfolded obj_get_def] m assms(2,3)]
  have "\<exists>v. objects s ob = Some v \<and> ob_type v = ty" using g(3) by auto
  then show ?thesis using g(1,2,4) by (intro conjI) simp_all
qed

theorem obj_get_typed_witness:
  "\<exists>s'. obj_get 0 1 TYPE_THREAD demo_caps = Inr (Some 2, s') \<and> caps_inv ((\<lambda>_. 0)(2 := 1)) s' \<and> caps s' = caps demo_caps"
proof -
  have m: "counts_small demo_caps" using demo_caps_sel(3) by (fastforce simp: counts_small_def)
  have "\<exists>s'. obj_get 0 1 TYPE_THREAD demo_caps = Inr (Some 2, s')"
    using get_opaque_in [OF demo_caps_inv demo_caps_sel(1), of 1 True TYPE_THREAD] demo_caps_map(2) demo_caps_sel(2,6)
    by (simp add: obj_get_def)
  then obtain s' where g: "obj_get 0 1 TYPE_THREAD demo_caps = Inr (Some 2, s')" by blast
  show ?thesis using obj_get_typed [OF demo_caps_inv _ _ m g] g by auto
qed

text \<open>
  \<^verbatim>\<open>obj_get\<close> with a number beyond the slot table, which a process may pass to any system
  call, reads the bitmap out of bounds: the check in \<^verbatim>\<open>is_valid_slot_id\<close> rejects negative
  numbers only.
\<close>

theorem obj_get_out_of_range:
  assumes "caps_inv held s" "cap_groups s g = Some cg" "int (slots_size (slot_table cg)) \<le> sid" "sid < 2 ^ 31"
  shows "obj_get g sid ty s = Inl Bad_Access"
  using get_opaque_out [OF assms] by (simp add: obj_get_def)

theorem obj_get_out_of_range_witness:
  "caps_inv (\<lambda>_. 0) demo_caps \<and> slots_size demo_table = 64 \<and> obj_get 0 64 TYPE_THREAD demo_caps = Inl Bad_Access"
  using obj_get_out_of_range [OF demo_caps_inv demo_caps_sel(1), of 64 TYPE_THREAD] demo_caps_inv demo_caps_sel(6) by simp

text \<open>
  C20: In every state that any sequence of capability operations can reach, a number in use leads to
  a living object, and the reference count of every object is the number of slots that point to it
  plus the references the kernel holds.
\<close>

theorem no_dangling_capability:
  assumes "cap_reachable held s"
  shows "(\<forall>g i ob r. caps s (g, i) = Some (ob, r) \<longrightarrow> (\<exists>v. objects s ob = Some v \<and> refcount v \<noteq> 0)) \<and>
    (\<forall>ob v. objects s ob = Some v \<longrightarrow>
      unat (refcount v) = card {p. \<exists>sl. obj_slots s p = Some sl \<and> sl_object sl = ob} + held ob)"
proof -
  have inv: "caps_inv held s" using cap_reachable_inv [OF assms] .
  have "\<exists>v. objects s ob = Some v \<and> refcount v \<noteq> 0" if c: "caps s (g, i) = Some (ob, r)" for g i ob r
    by (rule caps_object [OF inv c]) blast
  moreover have "unat (refcount v) = card {p. \<exists>sl. obj_slots s p = Some sl \<and> sl_object sl = ob} + held ob"
    if o: "objects s ob = Some v" for ob v
  proof -
    have ok: "object_ok held (obj_slots s) ob v" using inv o unfolding caps_inv_def caps_ok_def by blast
    have "p \<in> set (copies_head v)" if "obj_slots s p = Some sl" "sl_object sl = ob" for p sl
      using inv o that unfolding caps_inv_def caps_ok_def slot_ok_def by fastforce
    then have "{p. \<exists>sl. obj_slots s p = Some sl \<and> sl_object sl = ob} = set (copies_head v)"
      using ok unfolding object_ok_def by blast
    then show ?thesis using ok by (simp add: object_ok_def distinct_card)
  qed
  ultimately show ?thesis by blast
qed

lemma group_reachable: "\<exists>s. cap_reachable (\<lambda>_. 0) s \<and> caps s = Map.empty \<and> table_wf empty_table \<and>
  cap_groups s 0 = Some \<lparr>slot_table = empty_table, thread_list = [], thread_cnt = 0, badge = 1, notify_recycler = 0, cap_group_name = []\<rparr> \<and>
  objects s 0 = Some \<lparr>ob_type = TYPE_CAP_GROUP, ob_size = 200, copies_head = [], refcount = 0\<rparr>"
proof -
  define s1 where "s1 = snd (obj_alloc TYPE_CAP_GROUP 200 boot_kstate)"
  have e: "obj_alloc TYPE_CAP_GROUP 200 boot_kstate = (Some 0, s1)" "objects s1 0 = Some \<lparr>ob_type = TYPE_CAP_GROUP, ob_size = 200, copies_head = [], refcount = 0\<rparr>"
    "cap_groups s1 = Map.empty" "obj_slots s1 = Map.empty" "ks_mem s1 = (\<lambda>n. n \<le> 4096)"
    by (simp_all add: s1_def obj_alloc_def boot_kstate_def kmalloc_ok_def OBJECT_SIZE_def SLAB_MAX_ORDER_def upd_object_def)
  have r: "cap_reachable (\<lambda>_. 0) s1"
    by (rule new_object [OF start e(1)]) (simp_all add: boot_kstate_def mem_bounded_def)
  have "slot_table_init (ks_mem s1) 64 = Inr empty_table"
    by (simp add: slot_table_init_def e(5) kmalloc_ok_def SLAB_MAX_ORDER_def BASE_OBJECT_NUM_def BITS_PER_LONG_def
        BITS_TO_LONGS_def DIV_ROUND_UP_def empty_table_def)
  then have i: "cap_group_init 0 64 1 s1 = Inr (s1\<lparr>cap_groups := [0 \<mapsto> \<lparr>slot_table = empty_table, thread_list = [], thread_cnt = 0,
      badge = 1, notify_recycler = 0, cap_group_name = []\<rparr>]\<rparr>)"
    using e by (simp add: cap_group_init_def)
  show ?thesis
    by (intro exI conjI, rule new_group [OF r _ _ _ i]) (auto simp: e empty_table_wf caps_def caps_of_def tables_def fun_eq_iff)
qed

theorem no_dangling_capability_witness:
  "\<exists>s v. cap_reachable (\<lambda>_. 0) s \<and> objects s 0 = Some v \<and>
      unat (refcount v) = card {p. \<exists>sl. obj_slots s p = Some sl \<and> sl_object sl = 0} + 0"
proof -
  obtain s v where s: "cap_reachable (\<lambda>_. 0) s" "objects s 0 = Some v" using group_reachable by auto
  show ?thesis using no_dangling_capability [OF s(1)] s by blast
qed

text \<open>
  C25: \<^verbatim>\<open>cap_revoke\<close> of a thread drops the slots while it holds a reference itself, so the last
  reference goes away in \<^verbatim>\<open>obj_put\<close>, which frees the object without its destructor
  \<^verbatim>\<open>thread_deinit\<close>. A thread that was first in a ready queue stays there although its memory
  is free, and the next choice of a thread on that CPU follows the dangling pointer.
\<close>

theorem cap_revoke_dangling_thread:
  assumes "caps_inv held s" "cap_groups s g = Some cg" "0 \<le> sid" "caps s (g, nat sid) = Some (ob, r)"
    and "\<forall>v. objects s ob = Some v \<longrightarrow> refcount v \<noteq> -1" "no_orphan s ob" "held ob = 0"
    and "rr_ready_queue (ks_sched s) cpu = Thread ob # ts"
  shows "\<exists>s'. cap_revoke g sid s = Inr (0, s') \<and> rr_ready_queue (ks_sched s') cpu = Thread ob # ts \<and>
    threads (ks_sched s') (Thread ob) = None \<and> rr_sched_choose_thread cpu (ks_sched s') = Inl Bad_Access"
proof -
  obtain s' where s': "cap_revoke g sid s = Inr (0, s')"
    "ks_sched s' = (if held ob = 0 then (ks_sched s)\<lparr>threads := (threads (ks_sched s))(Thread ob := None)\<rparr> else ks_sched s)"
    using cap_revoke_ok [OF assms(1-6)] by (elim exE conjE)
  have "threads (ks_sched s') (Thread ob) = None" "rr_ready_queue (ks_sched s') cpu = Thread ob # ts"
    using s'(2) assms(7,8) by simp_all
  then show ?thesis using s'(1) by (simp add: rr_sched_choose_thread_def get_ctx_def ctx_of_def)
qed

theorem cap_revoke_dangling_thread_witness:
  "\<exists>s'. cap_revoke 0 1 demo_caps = Inr (0, s') \<and> rr_sched_choose_thread 0 (ks_sched s') = Inl Bad_Access"
proof -
  have m: "\<forall>v. objects demo_caps 2 = Some v \<longrightarrow> refcount v \<noteq> -1" using demo_caps_sel(2) by simp
  have c: "caps demo_caps (0, nat 1) = Some (2, 7)" using demo_caps_map(2) by simp
  show ?thesis
    using cap_revoke_dangling_thread [OF demo_caps_inv demo_caps_sel(1) _ c m demo_caps_sel(4) _ demo_caps_sel(5)] by auto
qed

end
