(* ===== verification/Timer.thy ===== *)
theory Timer
  imports Kernel_State
begin

text \<open>
  Timers: the per-CPU list of sleeping threads, ordered by the tick at which they wake up, and the
  timer interrupt (\<^verbatim>\<open>kernel/irq/timer.c\<close>, with the generic timer of
  \<^verbatim>\<open>kernel/arch/aarch64/plat/raspi3/irq/timer.c\<close> and the time-out of a notification from
  \<^verbatim>\<open>kernel/ipc/notification.c\<close>). The value of the counter \<^verbatim>\<open>cntpct_el0\<close> at each
  read is an argument (\<open>now\<close>, \<open>now2\<close>).
\<close>

section \<open>The hardware timer\<close>

definition TICK_MS :: u64 where "TICK_MS = 10"
definition NS_IN_S :: u64 where "NS_IN_S = 1000000000"
definition NS_IN_US :: u64 where "NS_IN_US = 1000"

definition plat_timer_init :: "nat \<Rightarrow> u64 \<Rightarrow> u64 \<Rightarrow> kstate \<Rightarrow> kstate" where
  "plat_timer_init cpu now freq s =
    (let tval = freq * TICK_MS div 1000 in
     s\<lparr>cntv_init := now, cntv_freq := freq, cntv_tval := tval, tick_per_us := freq div 1000 div 1000,
       cntv_tval_el0 := (cntv_tval_el0 s)(cpu := tval), cntv_ctl_el0 := (cntv_ctl_el0 s)(cpu := 1)\<rparr>)"

definition plat_set_next_timer :: "nat \<Rightarrow> u64 \<Rightarrow> kstate \<Rightarrow> kstate" where
  "plat_set_next_timer cpu tick_delta s = s\<lparr>cntv_tval_el0 := (cntv_tval_el0 s)(cpu := tick_delta)\<rparr>"

definition plat_handle_timer_irq :: "nat \<Rightarrow> u64 \<Rightarrow> kstate \<Rightarrow> kstate" where
  "plat_handle_timer_irq cpu tick_delta s = s\<lparr>cntv_tval_el0 := (cntv_tval_el0 s)(cpu := tick_delta)\<rparr>"

definition plat_disable_timer :: "nat \<Rightarrow> kstate \<Rightarrow> kstate" where
  "plat_disable_timer cpu s = s\<lparr>cntv_ctl_el0 := (cntv_ctl_el0 s)(cpu := 0)\<rparr>"

definition plat_enable_timer :: "nat \<Rightarrow> kstate \<Rightarrow> kstate" where
  "plat_enable_timer cpu s =
    s\<lparr>cntv_tval_el0 := (cntv_tval_el0 s)(cpu := cntv_tval s), cntv_ctl_el0 := (cntv_ctl_el0 s)(cpu := 1)\<rparr>"

definition plat_get_mono_time :: "u64 \<Rightarrow> kstate \<Rightarrow> u64" where
  "plat_get_mono_time now s = (now - cntv_init s) * NS_IN_US div tick_per_us s"

section \<open>Sleeping threads\<close>

definition upd_time :: "nat \<Rightarrow> (time_state \<Rightarrow> time_state) \<Rightarrow> kstate \<Rightarrow> kstate" where
  "upd_time cpu f s = s\<lparr>time_states := (time_states s)(cpu := f (time_states s cpu))\<rparr>"

definition upd_sleep :: "tid \<Rightarrow> (sleep_state \<Rightarrow> sleep_state) \<Rightarrow> kstate \<Rightarrow> kstate" where
  "upd_sleep t f s = s\<lparr>ks_sched := upd_thread t (sleep_state_update f) (ks_sched s)\<rparr>"

fun init_sleep_lists :: "nat \<Rightarrow> kstate \<Rightarrow> kstate" where
  "init_sleep_lists 0 s = s"
| "init_sleep_lists (Suc i) s = upd_time i (\<lambda>ts. ts\<lparr>sleep_list := []\<rparr>) (init_sleep_lists i s)"

definition timer_init :: "nat \<Rightarrow> u64 \<Rightarrow> u64 \<Rightarrow> kstate \<Rightarrow> kstate" where
  "timer_init cpu now freq s =
    plat_timer_init cpu now freq (if cpu = 0 then init_sleep_lists PLAT_CPU_NUM s else s)"

definition get_next_tick_delta :: "nat \<Rightarrow> u64 \<Rightarrow> kstate \<Rightarrow> u64 res" where
  "get_next_tick_delta cpu now s =
    (let waiting_tick = TICK_MS * 1000 * tick_per_us s in
     case sleep_list (time_states s cpu) of [] \<Rightarrow> Inr waiting_tick
     | first_sleeper # _ \<Rightarrow> bind_res (deref (threads (ks_sched s)) first_sleeper) (\<lambda>th.
         let w = wakeup_tick (sleep_state th) in
         if now + waiting_tick > w \<and> w > now then Inr (w - now) else Inr waiting_tick))"

text \<open>Insertion before the first thread that wakes up later.\<close>

fun insert_sleeper :: "u64 \<Rightarrow> tid \<Rightarrow> tid list \<Rightarrow> kstate \<Rightarrow> tid list res" where
  "insert_sleeper w t [] s = Inr [t]"
| "insert_sleeper w t (u # us) s =
    bind_res (deref (threads (ks_sched s)) u) (\<lambda>th.
      if wakeup_tick (sleep_state th) > w then Inr (t # u # us)
      else bind_res (insert_sleeper w t us s) (\<lambda>l. Inr (u # l)))"

definition enqueue_sleeper :: "nat \<Rightarrow> u64 \<Rightarrow> tid \<Rightarrow> u64 \<times> u64 \<Rightarrow> timer_cb \<Rightarrow> kstate \<Rightarrow> (s32 \<times> kstate) res" where
  "enqueue_sleeper cpu now t timeout c s =
    (let (sec, ns) = timeout;
         total_us = sec * 1000 * 1000 + ns div 1000;
         w = now + total_us * tick_per_us s in
     bind_res (deref (threads (ks_sched s)) t) (\<lambda>_.
     let s1 = upd_sleep t (\<lambda>sl. sl\<lparr>wakeup_tick := w, sleep_cpu := cpu\<rparr>) s in
     bind_res (insert_sleeper w t (sleep_list (time_states s1 cpu)) s1) (\<lambda>l.
       let s2 = upd_sleep t (\<lambda>sl. sl\<lparr>cb := Some c\<rparr>) (upd_time cpu (\<lambda>ts. ts\<lparr>sleep_list := l\<rparr>) s1) in
       if next_expire (time_states s2 cpu) > w
       then Inr (0, plat_set_next_timer cpu (total_us * tick_per_us s) (upd_time cpu (\<lambda>ts. ts\<lparr>next_expire := w\<rparr>) s2))
       else Inr (0, s2))))"

definition try_dequeue_sleeper :: "tid \<Rightarrow> kstate \<Rightarrow> (bool \<times> kstate) res" where
  "try_dequeue_sleeper t s =
    bind_res (deref (threads (ks_sched s)) t) (\<lambda>th.
      let sl = sleep_state th; cpu = sleep_cpu sl in
      if cpu \<ge> PLAT_CPU_NUM then Inl Bad_Access
      else if cb sl \<noteq> None
      then Inr (True, upd_sleep t (\<lambda>sl. sl\<lparr>cb := None\<rparr>) (upd_time cpu (\<lambda>ts. ts\<lparr>sleep_list := remove1 t (sleep_list ts)\<rparr>) s))
      else Inr (False, s))"

section \<open>Callbacks\<close>

definition enqueue_or_bug :: "nat \<Rightarrow> tid \<Rightarrow> sched_state \<Rightarrow> kstate \<Rightarrow> kstate res" where
  "enqueue_or_bug cpu t q s =
    bind_res (sched_enqueue cpu t q) (\<lambda>(r, q1). bug_on (r \<noteq> 0) (Inr (s\<lparr>ks_sched := q1\<rparr>)))"

definition sleep_timer_cb :: "nat \<Rightarrow> tid \<Rightarrow> kstate \<Rightarrow> kstate res" where
  "sleep_timer_cb cpu t s =
    bind_res (get_ctx (ks_sched s) t) (\<lambda>_.
      enqueue_or_bug cpu t (upd_ctx t (\<lambda>c. c\<lparr>state := TS_INTER\<rparr>) (ks_sched s)) s)"

definition notific_timer_cb :: "nat \<Rightarrow> tid \<Rightarrow> kstate \<Rightarrow> kstate res" where
  "notific_timer_cb cpu t s =
    bind_res (deref (threads (ks_sched s)) t) (\<lambda>th.
      let s1 = upd_sleep t (\<lambda>sl. sl\<lparr>pending_notific := None\<rparr>) s in
      case pending_notific (sleep_state th) of None \<Rightarrow> Inl Bad_Access
      | Some nt \<Rightarrow> bind_res (deref (notifications s1) nt) (\<lambda>n.
        bind_res (get_ctx (ks_sched s1) t) (\<lambda>c.
          if state c \<noteq> TS_WAITING then Inr s1
          else bug_on (waiting_threads_count n = 0)
            (let s2 = s1\<lparr>notifications := (notifications s1)(nt \<mapsto> n\<lparr>waiting_threads := remove1 t (waiting_threads n),
                    waiting_threads_count := waiting_threads_count n - 1\<rparr>)\<rparr> in
             bind_res (arch_set_thread_return t (word_of_int (- EAGAIN)) (ks_sched s2)) (\<lambda>q.
               enqueue_or_bug cpu t (upd_ctx t (\<lambda>c. c\<lparr>state := TS_INTER\<rparr>) q) s2)))))"

fun run_timer_cb :: "timer_cb \<Rightarrow> nat \<Rightarrow> tid \<Rightarrow> kstate \<Rightarrow> kstate res" where
  "run_timer_cb Sleep_Timer_Cb cpu t s = sleep_timer_cb cpu t s"
| "run_timer_cb Notific_Timer_Cb cpu t s = notific_timer_cb cpu t s"

section \<open>The timer interrupt\<close>

text \<open>The walk keeps the next node at hand, so it runs over the list as it was at the start.\<close>

fun wake_sleepers :: "nat \<Rightarrow> u64 \<Rightarrow> tid list \<Rightarrow> kstate \<Rightarrow> kstate res" where
  "wake_sleepers cpu now [] s = Inr s"
| "wake_sleepers cpu now (t # ts) s =
    bind_res (deref (threads (ks_sched s)) t) (\<lambda>th.
      if wakeup_tick (sleep_state th) < now
      then let s1 = upd_time cpu (\<lambda>x. x\<lparr>sleep_list := remove1 t (sleep_list x)\<rparr>) s in
        bind_res (if cb (sleep_state th) = Some Sleep_Timer_Cb
            then bind_res (get_ctx (ks_sched s1) t) (\<lambda>c. bug_on (state c \<noteq> TS_WAITING) (Inr ())) else Inr ()) (\<lambda>_.
          case cb (sleep_state th) of None \<Rightarrow> Inl Bug_On
          | Some c \<Rightarrow> bind_res (run_timer_cb c cpu t s1) (\<lambda>s2.
              wake_sleepers cpu now ts (upd_sleep t (\<lambda>sl. sl\<lparr>cb := None\<rparr>) s2)))
      else Inr s)"

text \<open>The tail of the handler: one tick less of the running thread's budget.\<close>

definition tick_budget :: "nat \<Rightarrow> sched_state \<Rightarrow> sched_state res" where
  "tick_budget cpu s =
    (case current_threads s cpu of None \<Rightarrow> Inr s
     | Some t \<Rightarrow> bind_res (get_ctx s t) (\<lambda>c.
        case sc c of None \<Rightarrow> Inl Bug_On
        | Some k \<Rightarrow> bind_res (deref (sched_conts s) k) (\<lambda>b. bug_on (b = 0)
            (Inr (s\<lparr>sched_conts := (sched_conts s)(k \<mapsto> b - 1)\<rparr>)))))"

definition handle_timer_irq :: "nat \<Rightarrow> u64 \<Rightarrow> u64 \<Rightarrow> kstate \<Rightarrow> kstate res" where
  "handle_timer_irq cpu now now2 s =
    bind_res (wake_sleepers cpu now (sleep_list (time_states s cpu)) s) (\<lambda>s1.
    bind_res (get_next_tick_delta cpu now2 s1) (\<lambda>tick_delta.
      let s2 = plat_handle_timer_irq cpu tick_delta (upd_time cpu (\<lambda>x. x\<lparr>next_expire := now + tick_delta\<rparr>) s1) in
      bind_res (tick_budget cpu (ks_sched s2)) (\<lambda>q. Inr (s2\<lparr>ks_sched := q\<rparr>))))"

section \<open>System calls\<close>

text \<open>
  The time written to user memory is a result. A blocking call ends in the thread that runs next.
\<close>

definition sys_clock_gettime :: "u64 \<Rightarrow> u64 \<Rightarrow> kstate \<Rightarrow> (s32 \<times> (u64 \<times> u64) option) res" where
  "sys_clock_gettime now ts s =
    (if ts = 0 then Inr (-1, None)
     else bug_on (ts \<ge> KBASE)
       (let mono_ns = plat_get_mono_time now s in Inr (0, Some (mono_ns div NS_IN_S, mono_ns mod NS_IN_S))))"

definition sched_away :: "nat \<Rightarrow> kstate \<Rightarrow> (tid \<times> kstate) res" where
  "sched_away cpu s =
    bind_res (bind_res (sched cpu (ks_sched s)) (eret_to_thread cpu)) (\<lambda>(t, q). Inr (t, s\<lparr>ks_sched := q\<rparr>))"

definition sys_clock_nanosleep :: "nat \<Rightarrow> u64 \<Rightarrow> u64 \<Rightarrow> u64 \<times> u64 \<Rightarrow> kstate \<Rightarrow> (tid \<times> kstate) res" where
  "sys_clock_nanosleep cpu now req ts_k s =
    bug_on (req \<ge> KBASE)
    (bind_res (current_thread cpu s) (\<lambda>t.
     bind_res (enqueue_sleeper cpu now t ts_k Sleep_Timer_Cb s) (\<lambda>(_, s1).
     bind_res (get_ctx (ks_sched s1) t) (\<lambda>_.
       sched_away cpu (s1\<lparr>ks_sched := upd_ctx t (\<lambda>c. c\<lparr>state := TS_WAITING\<rparr>) (ks_sched s1)\<rparr>)))))"

end
