(* ===== verification/Timer_Props.thy ===== *)
theory Timer_Props
  imports Timer Round_Robin
begin

text \<open>
  The timer interrupt wakes the threads whose time has come, all of them and no other; a new
  sleeper keeps the list in order and the hardware timer early enough.
\<close>

section \<open>Sleep states\<close>

definition sleeps :: "sched_state \<Rightarrow> tid \<Rightarrow> sleep_state option" where
  "sleeps s t = map_option sleep_state (threads s t)"

lemma sleeps_upd_ctx [simp]: "sleeps (upd_ctx t f s) = sleeps s"
  by (auto simp: sleeps_def upd_ctx_def upd_thread_def fun_eq_iff option.map_comp o_def)

lemma sleeps_upd_sleep [simp]:
  "sleeps (ks_sched (upd_sleep t f s)) = (sleeps (ks_sched s))(t := map_option f (sleeps (ks_sched s) t))"
  by (auto simp: sleeps_def upd_sleep_def upd_thread_def fun_eq_iff option.map_comp o_def)

lemma sleeps_rest [simp]:
  "sleeps (rr_ready_queue_update a s) = sleeps s" "sleeps (pbrr_ready_queue_update b s) = sleeps s"
  "sleeps (cpu_info_update c s) = sleeps s" "sleeps (cpacr_el1_update d s) = sleeps s" "sleeps (sched_conts_update e s) = sleeps s"
  by (simp_all add: sleeps_def fun_eq_iff)

lemma rr_enqueue_sleeps: "rr_sched_enqueue cpu t s = Inr (r, s') \<Longrightarrow> sleeps s' = sleeps s \<and> cur_sched_ops s' = cur_sched_ops s"
  by (auto simp: rr_sched_enqueue_def rr_sched_enqueue_nolock_def save_and_release_fpu_def save_fpu_state_def set_fpu_owner_def
      Let_def res_simps split: if_splits option.splits)

lemma upd_sleep_sel [simp]:
  "ctx_of (ks_sched (upd_sleep t f s)) u = ctx_of (ks_sched s) u" "time_states (upd_sleep t f s) = time_states s"
  "notifications (upd_sleep t f s) = notifications s" "cur_sched_ops (ks_sched (upd_sleep t f s)) = cur_sched_ops (ks_sched s)"
  "tick_per_us (upd_sleep t f s) = tick_per_us s" "current_threads (ks_sched (upd_sleep t f s)) = current_threads (ks_sched s)"
  by (auto simp: upd_sleep_def ctx_of_def upd_thread_def split: option.splits)

lemma upd_sleep_same: "same_sched (ks_sched s) (ks_sched (upd_sleep t f s))"
  by (auto simp: upd_sleep_def same_sched_def ctx_of_def prev_of_def upd_thread_def option.map_comp o_def split: option.splits)

lemma upd_time_sel [simp]:
  "ks_sched (upd_time cpu f s) = ks_sched s" "notifications (upd_time cpu f s) = notifications s"
  "time_states (upd_time cpu f s) = (time_states s)(cpu := f (time_states s cpu))" "tick_per_us (upd_time cpu f s) = tick_per_us s"
  by (simp_all add: upd_time_def)

lemma sleeps_threads: "sleeps s t = Some sl \<Longrightarrow> \<exists>th. threads s t = Some th \<and> sleep_state th = sl"
  by (auto simp: sleeps_def)

section \<open>Waking one thread\<close>

text \<open>
  A thread on a sleep list: it sleeps, or it waits for a notification with a time-out; in the
  second case a signal may have come first.
\<close>

definition sleeper_ok :: "kstate \<Rightarrow> tid \<Rightarrow> bool" where
  "sleeper_ok s t = (\<exists>sl c. sleeps (ks_sched s) t = Some sl \<and> ctx_of (ks_sched s) t = Some c \<and> th_type c \<noteq> TYPE_IDLE \<and>
    (case cb sl of None \<Rightarrow> False
     | Some Sleep_Timer_Cb \<Rightarrow> state c = TS_WAITING
     | Some Notific_Timer_Cb \<Rightarrow> (\<exists>nt n. pending_notific sl = Some nt \<and> notifications s nt = Some n \<and>
         (state c = TS_WAITING \<longrightarrow> t \<in> set (waiting_threads n)))))"

definition waiting_counts :: "kstate \<Rightarrow> bool" where
  "waiting_counts s = (\<forall>nt n. notifications s nt = Some n \<longrightarrow> unat (waiting_threads_count n) = length (waiting_threads n))"

definition in_state_of :: "kstate \<Rightarrow> tid \<Rightarrow> thread_state option" where
  "in_state_of s t = map_option state (ctx_of (ks_sched s) t)"

definition timer_inv :: "(nat \<Rightarrow> bool) \<Rightarrow> kstate \<Rightarrow> bool" where
  "timer_inv pend s = (rri.smp_inv pend {} (ks_sched s) \<and> cur_sched_ops (ks_sched s) = RR \<and> waiting_counts s)"

lemma sleeper_ok_frame:
  assumes "sleeper_ok s u" "sleeps (ks_sched s') u = sleeps (ks_sched s) u" "view (ks_sched s') u = view (ks_sched s) u"
    and "\<And>nt n. notifications s nt = Some n \<Longrightarrow> \<exists>n'. notifications s' nt = Some n' \<and> (u \<in> set (waiting_threads n) \<longrightarrow> u \<in> set (waiting_threads n'))"
  shows "sleeper_ok s' u"
proof -
  obtain sl c where s: "sleeps (ks_sched s) u = Some sl" "ctx_of (ks_sched s) u = Some c" "th_type c \<noteq> TYPE_IDLE"
    "case cb sl of None \<Rightarrow> False | Some Sleep_Timer_Cb \<Rightarrow> state c = TS_WAITING
     | Some Notific_Timer_Cb \<Rightarrow> (\<exists>nt n. pending_notific sl = Some nt \<and> notifications s nt = Some n \<and>
         (state c = TS_WAITING \<longrightarrow> u \<in> set (waiting_threads n)))"
    using assms(1) unfolding sleeper_ok_def by blast
  obtain c' where c': "ctx_of (ks_sched s') u = Some c'" "sched_view c' = sched_view c"
    using view_SomeD [OF assms(3) s(2)] by blast
  have "case cb sl of None \<Rightarrow> False | Some Sleep_Timer_Cb \<Rightarrow> state c' = TS_WAITING
     | Some Notific_Timer_Cb \<Rightarrow> (\<exists>nt n. pending_notific sl = Some nt \<and> notifications s' nt = Some n \<and>
         (state c' = TS_WAITING \<longrightarrow> u \<in> set (waiting_threads n)))"
    using s(4) sched_viewD [OF c'(2)] assms(4) by (auto split: option.splits timer_cb.splits) blast+
  then show ?thesis using s(1,3) c' sched_viewD [OF c'(2)] assms(2) unfolding sleeper_ok_def by auto
qed

text \<open>Nobody's time slice changes.\<close>

definition same_slice :: "sched_state \<Rightarrow> sched_state \<Rightarrow> bool" where
  "same_slice q q' = (current_threads q' = current_threads q \<and> sched_conts q' = sched_conts q \<and>
    (\<forall>u. map_option cfg (ctx_of q' u) = map_option cfg (ctx_of q u)))"

lemma cfg_state: "map_option cfg (ctx_of (upd_ctx t (\<lambda>c. c\<lparr>state := st\<rparr>) q) u) = map_option cfg (ctx_of q u)"
  by (cases "ctx_of q u") (auto simp: cfg_def)

lemma same_slice_trans: "same_slice a b \<Longrightarrow> same_slice b c \<Longrightarrow> same_slice a c"
  by (simp add: same_slice_def)

lemma same_slice_same: "same_sched q q' \<Longrightarrow> same_slice q q'"
  using same_sched_cfg by (auto simp: same_sched_def same_slice_def)

text \<open>The common end of both callbacks.\<close>

lemma enqueue_woken:
  assumes i: "rri.smp_inv pend {} q" and q: "cur_sched_ops q = RR" and cpu: "cpu < PLAT_CPU_NUM"
    and c: "ctx_of q t = Some c" "state c = TS_WAITING" "th_type c \<noteq> TYPE_IDLE"
  shows "\<exists>q'. enqueue_or_bug cpu t (upd_ctx t (\<lambda>c. c\<lparr>state := TS_INTER\<rparr>) q) s = Inr (s\<lparr>ks_sched := q'\<rparr>) \<and>
    rri.smp_inv pend {} q' \<and> sleeps q' = sleeps q \<and> cur_sched_ops q' = RR \<and> map_option state (ctx_of q' t) = Some TS_READY \<and>
    (\<forall>u. u \<noteq> t \<longrightarrow> view q' u = view q u) \<and> same_slice q q'"
proof -
  let ?q = "upd_ctx t (\<lambda>c. c\<lparr>state := TS_INTER\<rparr>) q"
  obtain q' where q': "rr_sched_enqueue cpu t ?q = Inr (0, q')" "rri.smp_inv pend {} q'"
    by (rule rri.wake_step [OF i cpu c(1)]) (use c in auto)
  have ok: "ctx_ok q c" using i c(1) by (auto simp: rri.smp_inv_def ctxs_ok_def)
  have c1: "ctx_of ?q t = Some (c\<lparr>state := TS_INTER\<rparr>)" using c(1) by simp
  obtain q2 where q2: "rr_sched_enqueue cpu t ?q = Inr (0, q2)" "restated t TS_READY (target_cpu cpu (c\<lparr>state := TS_INTER\<rparr>)) ?q q2"
    using rr_enq_ok [OF c1 _ _ _ cpu] c(3) ok by auto
  then have r: "restated t TS_READY (target_cpu cpu (c\<lparr>state := TS_INTER\<rparr>)) ?q q'" using q'(1) by simp
  obtain c' where c': "ctx_of q' t = Some c'" "state c' = TS_READY"
    using restated_self [OF r c1] by (auto dest: sched_viewD)
  have "view q' u = view q u" if "u \<noteq> t" for u using restated_view [OF r that] that by simp
  moreover have "enqueue_or_bug cpu t ?q s = Inr (s\<lparr>ks_sched := q'\<rparr>)"
    using q'(1) q by (simp add: enqueue_or_bug_def sched_enqueue_def)
  moreover have "same_slice q q'" using restated_sel(1,2) [OF r] restated_cfg [OF r] cfg_state by (simp add: same_slice_def)
  ultimately show ?thesis using q'(2) rr_enqueue_sleeps [OF q'(1)] q c' by auto
qed

lemma same_sched_return:
  assumes "ctx_of q t = Some c"
  shows "\<exists>q'. arch_set_thread_return t v q = Inr q' \<and> same_sched q q' \<and> sleeps q' = sleeps q"
  using assms same_sched_upd_ctx [of q t "\<lambda>c. c\<lparr>ec := (ec c)(X0 := v)\<rparr>"]
  by (auto simp: arch_set_thread_return_def set_reg_def get_ctx_def sched_view_def)

lemma same_sched_state:
  assumes "same_sched q q'" "ctx_of q t = Some c"
  shows "\<exists>c'. ctx_of q' t = Some c' \<and> state c' = state c \<and> th_type c' = th_type c"
  by (rule same_sched_ctx [OF assms]) (auto dest: sched_viewD)

text \<open>What a callback does to its thread \<open>t\<close>, and what it leaves alone.\<close>

definition woken :: "(nat \<Rightarrow> bool) \<Rightarrow> tid \<Rightarrow> kstate \<Rightarrow> kstate \<Rightarrow> bool" where
  "woken pend t s s' = (timer_inv pend s' \<and> time_states s' = time_states s \<and> same_slice (ks_sched s) (ks_sched s') \<and>
    in_state_of s' t = (if in_state_of s t = Some TS_WAITING then Some TS_READY else in_state_of s t) \<and>
    sleeps (ks_sched s') t \<noteq> None \<and>
    (\<forall>u. u \<noteq> t \<longrightarrow> view (ks_sched s') u = view (ks_sched s) u \<and> sleeps (ks_sched s') u = sleeps (ks_sched s) u \<and>
      (sleeper_ok s u \<longrightarrow> sleeper_ok s' u)))"

lemma sleep_cb_woken:
  assumes i: "timer_inv pend s" and cpu: "cpu < PLAT_CPU_NUM" and t: "sleeper_ok s t"
    and c: "sleeps (ks_sched s) t = Some sl" "cb sl = Some Sleep_Timer_Cb"
  shows "\<exists>s'. sleep_timer_cb cpu t s = Inr s' \<and> woken pend t s s'"
proof -
  obtain d where d: "ctx_of (ks_sched s) t = Some d" "th_type d \<noteq> TYPE_IDLE" "state d = TS_WAITING"
    using t c by (auto simp: sleeper_ok_def)
  have ti: "rri.smp_inv pend {} (ks_sched s)" "cur_sched_ops (ks_sched s) = RR" "waiting_counts s" using i by (auto simp: timer_inv_def)
  obtain q where q: "enqueue_or_bug cpu t (upd_ctx t (\<lambda>c. c\<lparr>state := TS_INTER\<rparr>) (ks_sched s)) s = Inr (s\<lparr>ks_sched := q\<rparr>)"
    "rri.smp_inv pend {} q" "sleeps q = sleeps (ks_sched s)" "cur_sched_ops q = RR" "map_option state (ctx_of q t) = Some TS_READY"
    "\<forall>u. u \<noteq> t \<longrightarrow> view q u = view (ks_sched s) u" "same_slice (ks_sched s) q"
    using enqueue_woken [OF ti(1,2) cpu d(1,3,2)] by blast
  have "sleep_timer_cb cpu t s = Inr (s\<lparr>ks_sched := q\<rparr>)" using q(1) d(1) by (simp add: sleep_timer_cb_def get_ctx_def)
  moreover have "sleeper_ok (s\<lparr>ks_sched := q\<rparr>) u" if "u \<noteq> t" "sleeper_ok s u" for u
    using that q(3,6) by (intro sleeper_ok_frame [OF that(2)]) auto
  moreover have "waiting_counts (s\<lparr>ks_sched := q\<rparr>)" using ti(3) by (simp add: waiting_counts_def)
  ultimately show ?thesis using q d c by (auto simp: woken_def timer_inv_def in_state_of_def)
qed

lemma notific_cb_woken:
  assumes i: "timer_inv pend s" and cpu: "cpu < PLAT_CPU_NUM" and t: "sleeper_ok s t"
    and c: "sleeps (ks_sched s) t = Some sl" "cb sl = Some Notific_Timer_Cb"
  shows "\<exists>s'. notific_timer_cb cpu t s = Inr s' \<and> woken pend t s s'"
proof -
  obtain d nt n where d: "ctx_of (ks_sched s) t = Some d" "th_type d \<noteq> TYPE_IDLE"
    and n: "pending_notific sl = Some nt" "notifications s nt = Some n" "state d = TS_WAITING \<longrightarrow> t \<in> set (waiting_threads n)"
    using t c by (auto simp: sleeper_ok_def)
  have ti: "rri.smp_inv pend {} (ks_sched s)" "cur_sched_ops (ks_sched s) = RR" "waiting_counts s" using i by (auto simp: timer_inv_def)
  obtain th where th: "threads (ks_sched s) t = Some th" "sleep_state th = sl" using sleeps_threads [OF c(1)] by blast
  define s1 where "s1 = upd_sleep t (\<lambda>sl. sl\<lparr>pending_notific := None\<rparr>) s"
  have ss: "same_sched (ks_sched s) (ks_sched s1)" unfolding s1_def by (rule upd_sleep_same)
  have i1: "rri.smp_inv pend {} (ks_sched s1)" using rri.smp_inv_same [OF ti(1) ss] .
  have s1: "ctx_of (ks_sched s1) u = ctx_of (ks_sched s) u" "u \<noteq> t \<longrightarrow> sleeps (ks_sched s1) u = sleeps (ks_sched s) u"
    "notifications s1 = notifications s" "time_states s1 = time_states s" "cur_sched_ops (ks_sched s1) = RR" "sleeps (ks_sched s1) t \<noteq> None" for u
    using c ti(2) by (simp_all add: s1_def)
  have ok1: "sleeper_ok s1 u" if "u \<noteq> t" "sleeper_ok s u" for u
    using that s1 by (intro sleeper_ok_frame [OF that(2)]) auto
  have get: "get_ctx (ks_sched s1) t = Inr d" using d(1) s1(1) by (simp add: get_ctx_def)
  show ?thesis
  proof (cases "state d = TS_WAITING")
    case False
    then have "notific_timer_cb cpu t s = Inr s1"
      using th n get s1(3) by (simp add: notific_timer_cb_def s1_def Let_def)
    moreover have "waiting_counts s1" using ti(3) s1(3) by (simp add: waiting_counts_def)
    ultimately show ?thesis using i1 s1 ok1 d False same_slice_same [OF ss] by (auto simp: woken_def timer_inv_def in_state_of_def)
  next
    case True
    then have tin: "t \<in> set (waiting_threads n)" using n(3) by simp
    have cnt: "unat (waiting_threads_count n) = length (waiting_threads n)" using ti(3) n(2) by (auto simp: waiting_counts_def)
    then have nz: "waiting_threads_count n \<noteq> 0" using tin by (metis length_pos_if_in_set less_irrefl unsigned_0)
    define n' where "n' = n\<lparr>waiting_threads := remove1 t (waiting_threads n), waiting_threads_count := waiting_threads_count n - 1\<rparr>"
    define s2 where "s2 = s1\<lparr>notifications := (notifications s1)(nt \<mapsto> n')\<rparr>"
    have cnt': "unat (waiting_threads_count n') = length (waiting_threads n')"
      using cnt nz tin by (simp add: n'_def unat_minus_one length_remove1)
    obtain q where q: "arch_set_thread_return t (word_of_int (- EAGAIN)) (ks_sched s1) = Inr q" "same_sched (ks_sched s1) q" "sleeps q = sleeps (ks_sched s1)"
      using same_sched_return s1(1) d(1) by metis
    obtain d' where d': "ctx_of q t = Some d'" "state d' = TS_WAITING" "th_type d' \<noteq> TYPE_IDLE"
      using same_sched_state [OF q(2)] s1(1) d True by metis
    have q': "rri.smp_inv pend {} q" "cur_sched_ops q = RR"
      using rri.smp_inv_same [OF i1 q(2)] q(2) s1(5) by (simp_all add: same_sched_def)
    obtain q2 where q2: "enqueue_or_bug cpu t (upd_ctx t (\<lambda>c. c\<lparr>state := TS_INTER\<rparr>) q) s2 = Inr (s2\<lparr>ks_sched := q2\<rparr>)"
      "rri.smp_inv pend {} q2" "sleeps q2 = sleeps q" "cur_sched_ops q2 = RR" "map_option state (ctx_of q2 t) = Some TS_READY"
      "\<forall>u. u \<noteq> t \<longrightarrow> view q2 u = view q u" "same_slice q q2"
      using enqueue_woken [OF q' cpu d'] by blast
    have e: "notific_timer_cb cpu t s = Inr (s2\<lparr>ks_sched := q2\<rparr>)"
      using th n get s1(3) nz True q(1) q2(1) unfolding notific_timer_cb_def s1_def [symmetric]
      by (simp add: Let_def s2_def n'_def)
    have v: "view q2 u = view (ks_sched s) u" if "u \<noteq> t" for u
      using q2(6) that q(2) s1(1) by (simp add: same_sched_def)
    have sl: "sleeps q2 u = sleeps (ks_sched s) u" if "u \<noteq> t" for u using q2(3) q(3) s1(2) that by simp
    have "sleeper_ok (s2\<lparr>ks_sched := q2\<rparr>) u" if "u \<noteq> t" "sleeper_ok s u" for u
    proof (rule sleeper_ok_frame [OF that(2)])
      fix m k assume "notifications s m = Some k"
      then show "\<exists>n'. notifications (s2\<lparr>ks_sched := q2\<rparr>) m = Some n' \<and> (u \<in> set (waiting_threads k) \<longrightarrow> u \<in> set (waiting_threads n'))"
        using n(2) s1(3) that(1) by (auto simp: s2_def n'_def)
    qed (use sl v that in simp_all)
    moreover have "waiting_counts (s2\<lparr>ks_sched := q2\<rparr>)"
      using ti(3) cnt' s1(3) by (auto simp: waiting_counts_def s2_def)
    moreover have "same_slice (ks_sched s) q2"
      using same_slice_same [OF ss] same_slice_same [OF q(2)] q2(7) same_slice_trans by blast
    ultimately show ?thesis using e q2 q(3) s1(4,6) d True v sl
      by (auto simp: woken_def timer_inv_def in_state_of_def s2_def)
  qed
qed

lemma run_cb_woken:
  assumes "timer_inv pend s" "cpu < PLAT_CPU_NUM" "sleeper_ok s t" "sleeps (ks_sched s) t = Some sl" "cb sl = Some c"
  shows "\<exists>s'. run_timer_cb c cpu t s = Inr s' \<and> woken pend t s s'"
  using sleep_cb_woken [OF assms(1-4)] notific_cb_woken [OF assms(1-4)] assms(5) by (cases c) auto

section \<open>The walk over the list\<close>

definition wakes_at :: "kstate \<Rightarrow> tid \<Rightarrow> u64" where
  "wakes_at s t = (case sleeps (ks_sched s) t of None \<Rightarrow> 0 | Some sl \<Rightarrow> wakeup_tick sl)"

text \<open>\<open>calm s s' u\<close>: the walk has not touched thread \<open>u\<close>.\<close>

definition calm :: "kstate \<Rightarrow> kstate \<Rightarrow> tid \<Rightarrow> bool" where
  "calm s s' u = (view (ks_sched s') u = view (ks_sched s) u \<and> sleeps (ks_sched s') u = sleeps (ks_sched s) u)"

lemma calm_trans: "calm a b u \<Longrightarrow> calm b c u \<Longrightarrow> calm a c u"
  by (simp add: calm_def)

lemma calm_state: "calm s s' u \<Longrightarrow> in_state_of s' u = in_state_of s u"
  by (cases "ctx_of (ks_sched s) u"; cases "ctx_of (ks_sched s') u") (auto simp: calm_def in_state_of_def dest: sched_viewD)

lemma timer_inv_same:
  assumes "timer_inv pend s" "same_sched (ks_sched s) (ks_sched s')" "notifications s' = notifications s"
  shows "timer_inv pend s'"
  using assms rri.smp_inv_same [of pend "{}" "ks_sched s" "ks_sched s'"]
  by (simp add: timer_inv_def waiting_counts_def same_sched_def)

lemma wake_step_ok:
  assumes i: "timer_inv pend s" and cpu: "cpu < PLAT_CPU_NUM" and t: "sleeper_ok s t" and w: "wakes_at s t < now"
    and l: "sleep_list (time_states s cpu) = t # ts"
  shows "\<exists>s'. wake_sleepers cpu now (t # ts) s = wake_sleepers cpu now ts s' \<and> timer_inv pend s' \<and> same_slice (ks_sched s) (ks_sched s') \<and>
    time_states s' = (time_states s)(cpu := (time_states s cpu)\<lparr>sleep_list := ts\<rparr>) \<and>
    in_state_of s' t \<noteq> Some TS_WAITING \<and> (in_state_of s t = Some TS_WAITING \<longrightarrow> in_state_of s' t = Some TS_READY) \<and>
    (\<exists>sl. sleeps (ks_sched s') t = Some sl \<and> cb sl = None) \<and>
    (\<forall>u. u \<noteq> t \<longrightarrow> calm s s' u \<and> (sleeper_ok s u \<longrightarrow> sleeper_ok s' u))"
proof -
  obtain sl c where sl: "sleeps (ks_sched s) t = Some sl" "cb sl = Some c"
    and d: "\<exists>d. ctx_of (ks_sched s) t = Some d \<and> (c = Sleep_Timer_Cb \<longrightarrow> state d = TS_WAITING)"
    using t by (auto simp: sleeper_ok_def split: option.splits timer_cb.splits)
  obtain th where th: "threads (ks_sched s) t = Some th" "sleep_state th = sl" using sleeps_threads [OF sl(1)] by blast
  define s1 where "s1 = upd_time cpu (\<lambda>x. x\<lparr>sleep_list := remove1 t (sleep_list x)\<rparr>) s"
  have i1: "timer_inv pend s1" using i by (simp add: timer_inv_def waiting_counts_def s1_def)
  have ok1: "sleeper_ok s1 u = sleeper_ok s u" for u unfolding sleeper_ok_def s1_def upd_time_sel ..
  have sl1: "sleeps (ks_sched s1) t = Some sl" using sl by (simp add: s1_def)
  obtain s2 where s2: "run_timer_cb c cpu t s1 = Inr s2" "woken pend t s1 s2"
    using run_cb_woken [OF i1 cpu _ sl1 sl(2)] ok1 t by blast
  define s3 where "s3 = upd_sleep t (\<lambda>sl. sl\<lparr>cb := None\<rparr>) s2"
  have ss: "same_sched (ks_sched s2) (ks_sched s3)" unfolding s3_def by (rule upd_sleep_same)
  have wt: "wakeup_tick sl < now" using w sl(1) by (simp add: wakes_at_def)
  have guard: "(if cb (sleep_state th) = Some Sleep_Timer_Cb
      then bind_res (get_ctx (ks_sched s1) t) (\<lambda>c. bug_on (state c \<noteq> TS_WAITING) (Inr ())) else Inr ()) = Inr ()"
    using d sl(2) th(2) by (auto simp: get_ctx_def s1_def)
  have e: "wake_sleepers cpu now (t # ts) s = wake_sleepers cpu now ts s3"
    using th wt guard sl(2) s2(1) by (simp add: s1_def [symmetric] s3_def Let_def)
  have i3: "timer_inv pend s3"
    by (rule timer_inv_same [of pend s2]) (use s2(2) ss in \<open>simp_all add: woken_def s3_def\<close>)
  have st: "in_state_of s3 t = in_state_of s2 t" "in_state_of s1 t = in_state_of s t" by (simp_all add: in_state_of_def s3_def s1_def)
  have w1: "in_state_of s2 t \<noteq> Some TS_WAITING" "in_state_of s t = Some TS_WAITING \<longrightarrow> in_state_of s2 t = Some TS_READY"
    using s2(2) st(2) by (auto simp: woken_def)
  have oth: "calm s s3 u \<and> (sleeper_ok s u \<longrightarrow> sleeper_ok s3 u)" if "u \<noteq> t" for u
  proof
    have "view (ks_sched s2) u = view (ks_sched s1) u" "sleeps (ks_sched s2) u = sleeps (ks_sched s1) u" using s2(2) that by (auto simp: woken_def)
    then show "calm s s3 u" using that by (simp add: calm_def s3_def s1_def)
    have "sleeper_ok s u \<longrightarrow> sleeper_ok s2 u" using s2(2) that ok1 by (auto simp: woken_def)
    then show "sleeper_ok s u \<longrightarrow> sleeper_ok s3 u" using that by (auto simp: s3_def intro: sleeper_ok_frame)
  qed
  have "time_states s3 = (time_states s)(cpu := (time_states s cpu)\<lparr>sleep_list := ts\<rparr>)"
    using s2(2) l by (simp add: woken_def s3_def s1_def)
  moreover have "\<exists>sl. sleeps (ks_sched s3) t = Some sl \<and> cb sl = None"
    using s2(2) by (auto simp: woken_def s3_def)
  moreover have "same_slice (ks_sched s) (ks_sched s3)"
    using s2(2) same_slice_same [OF ss] by (auto simp: woken_def s1_def intro: same_slice_trans)
  ultimately show ?thesis using e i3 w1 oth by (auto simp: st(1))
qed

lemma wake_sleepers_ok:
  assumes "timer_inv pend s" "cpu < PLAT_CPU_NUM" "sleep_list (time_states s cpu) = ts" "distinct ts"
    and "\<forall>t \<in> set ts. sleeper_ok s t" "sorted (map (wakes_at s) ts)"
  shows "\<exists>s'. wake_sleepers cpu now ts s = Inr s' \<and> timer_inv pend s' \<and> same_slice (ks_sched s) (ks_sched s') \<and>
    time_states s' = (time_states s)(cpu := (time_states s cpu)\<lparr>sleep_list := filter (\<lambda>t. now \<le> wakes_at s t) ts\<rparr>) \<and>
    (\<forall>t \<in> set ts. wakes_at s t < now \<longrightarrow> in_state_of s' t \<noteq> Some TS_WAITING \<and>
      (in_state_of s t = Some TS_WAITING \<longrightarrow> in_state_of s' t = Some TS_READY) \<and>
      (\<exists>sl. sleeps (ks_sched s') t = Some sl \<and> cb sl = None)) \<and>
    (\<forall>u. u \<notin> set ts \<or> now \<le> wakes_at s u \<longrightarrow> calm s s' u \<and> (sleeper_ok s u \<longrightarrow> sleeper_ok s' u))"
  using assms
proof (induction ts arbitrary: s)
  case Nil
  then have "(time_states s)(cpu := (time_states s cpu)\<lparr>sleep_list := []\<rparr>) = time_states s" by (simp add: fun_eq_iff)
  then show ?case using Nil by (simp add: calm_def same_slice_def)
next
  case (Cons t ts)
  show ?case
  proof (cases "wakes_at s t < now")
    case False
    have "\<forall>u \<in> set (t # ts). now \<le> wakes_at s u" using Cons.prems(6) False by (auto simp: not_less)
    then have f: "filter (\<lambda>t. now \<le> wakes_at s t) (t # ts) = t # ts" by (simp add: filter_id_conv)
    obtain sl where sl: "sleeps (ks_sched s) t = Some sl" using Cons.prems(5) by (auto simp: sleeper_ok_def)
    obtain th where th: "threads (ks_sched s) t = Some th" "sleep_state th = sl" using sleeps_threads [OF sl] by blast
    have "wake_sleepers cpu now (t # ts) s = Inr s" using False sl th by (simp add: wakes_at_def)
    moreover have "time_states s = (time_states s)(cpu := (time_states s cpu)\<lparr>sleep_list := t # ts\<rparr>)"
      using Cons.prems(3) by (simp add: fun_eq_iff)
    ultimately show ?thesis using Cons.prems(1) \<open>\<forall>u \<in> set (t # ts). now \<le> wakes_at s u\<close> unfolding f
      by (auto simp: calm_def same_slice_def not_less [symmetric])
  next
    case True
    have t: "sleeper_ok s t" using Cons.prems(5) by simp
    obtain s1 where sl1: "same_slice (ks_sched s) (ks_sched s1)"
      and s1: "wake_sleepers cpu now (t # ts) s = wake_sleepers cpu now ts s1" "timer_inv pend s1"
      "time_states s1 = (time_states s)(cpu := (time_states s cpu)\<lparr>sleep_list := ts\<rparr>)"
      "in_state_of s1 t \<noteq> Some TS_WAITING" "in_state_of s t = Some TS_WAITING \<longrightarrow> in_state_of s1 t = Some TS_READY"
      "\<exists>sl. sleeps (ks_sched s1) t = Some sl \<and> cb sl = None"
      "\<forall>u. u \<noteq> t \<longrightarrow> calm s s1 u \<and> (sleeper_ok s u \<longrightarrow> sleeper_ok s1 u)"
      using wake_step_ok [OF Cons.prems(1,2) t True Cons.prems(3)] by blast
    have nt: "t \<notin> set ts" "distinct ts" using Cons.prems(4) by auto
    have wk: "wakes_at s1 u = wakes_at s u" if "u \<noteq> t" for u using s1(7) that by (simp add: calm_def wakes_at_def)
    have wks: "\<forall>u \<in> set ts. wakes_at s1 u = wakes_at s u" by (intro ballI wk) (use nt in auto)
    then have m: "map (wakes_at s1) ts = map (wakes_at s) ts" by simp
    have f: "filter (\<lambda>t. now \<le> wakes_at s1 t) ts = filter (\<lambda>t. now \<le> wakes_at s t) ts"
      using wks by (intro filter_cong) auto
    have p: "sleep_list (time_states s1 cpu) = ts" "\<forall>t \<in> set ts. sleeper_ok s1 t" "sorted (map (wakes_at s1) ts)"
      unfolding m using s1(3,7) nt Cons.prems(5,6) by auto
    obtain s' where sl': "same_slice (ks_sched s1) (ks_sched s')"
      and s': "wake_sleepers cpu now ts s1 = Inr s'" "timer_inv pend s'"
      "time_states s' = (time_states s1)(cpu := (time_states s1 cpu)\<lparr>sleep_list := filter (\<lambda>t. now \<le> wakes_at s1 t) ts\<rparr>)"
      "\<forall>t \<in> set ts. wakes_at s1 t < now \<longrightarrow> in_state_of s' t \<noteq> Some TS_WAITING \<and>
        (in_state_of s1 t = Some TS_WAITING \<longrightarrow> in_state_of s' t = Some TS_READY) \<and> (\<exists>sl. sleeps (ks_sched s') t = Some sl \<and> cb sl = None)"
      "\<forall>u. u \<notin> set ts \<or> now \<le> wakes_at s1 u \<longrightarrow> calm s1 s' u \<and> (sleeper_ok s1 u \<longrightarrow> sleeper_ok s' u)"
      using Cons.IH [OF s1(2) Cons.prems(2) p(1) nt(2) p(2,3)] by blast
    have ct: "calm s1 s' t" using s'(5) nt by blast
    have tt: "in_state_of s' t = in_state_of s1 t" "sleeps (ks_sched s') t = sleeps (ks_sched s1) t"
      using calm_state [OF ct] ct by (simp_all add: calm_def)
    have oth: "in_state_of s1 u = in_state_of s u" if "u \<noteq> t" for u using calm_state s1(7) that by blast
    have "calm s s' u \<and> (sleeper_ok s u \<longrightarrow> sleeper_ok s' u)" if u: "u \<notin> set (t # ts) \<or> now \<le> wakes_at s u" for u
    proof -
      have "u \<noteq> t" using u True by auto
      then show ?thesis using s1(7) s'(5) u wk calm_trans by (metis list.set_intros(2))
    qed
    moreover have "time_states s' = (time_states s)(cpu := (time_states s cpu)\<lparr>sleep_list := filter (\<lambda>t. now \<le> wakes_at s t) (t # ts)\<rparr>)"
      using s'(3) s1(3) f leD [of now "wakes_at s t"] True by auto
    moreover have "in_state_of s' u \<noteq> Some TS_WAITING \<and> (in_state_of s u = Some TS_WAITING \<longrightarrow> in_state_of s' u = Some TS_READY) \<and>
        (\<exists>sl. sleeps (ks_sched s') u = Some sl \<and> cb sl = None)" if "u \<in> set (t # ts)" "wakes_at s u < now" for u
      using that s'(4) s1(4,5,6) tt oth wk nt by (cases "u = t") auto
    ultimately show ?thesis using s'(1,2) s1(1) same_slice_trans [OF sl1 sl'] by auto
  qed
qed

lemma get_next_tick_delta_returns:
  "\<forall>t \<in> set (sleep_list (time_states s cpu)). threads (ks_sched s) t \<noteq> None \<Longrightarrow> \<exists>d. get_next_tick_delta cpu now s = Inr d"
  by (cases "sleep_list (time_states s cpu)") (auto simp: get_next_tick_delta_def Let_def)

section \<open>A new sleeper\<close>

lemma insert_sleeper_eq:
  assumes "\<forall>u \<in> set l. sleeps (ks_sched s) u \<noteq> None" "sorted (map (wakes_at s) l)"
  shows "insert_sleeper w t l s = Inr (filter (\<lambda>u. wakes_at s u \<le> w) l @ t # filter (\<lambda>u. w < wakes_at s u) l)"
  using assms
proof (induction l)
  case (Cons u us)
  obtain sl where sl: "sleeps (ks_sched s) u = Some sl" using Cons.prems(1) by auto
  obtain th where th: "threads (ks_sched s) u = Some th" "sleep_state th = sl" using sleeps_threads [OF sl] by blast
  show ?case
  proof (cases "wakes_at s u > w")
    case True
    then have later: "\<forall>x \<in> set (u # us). w < wakes_at s x" using Cons.prems(2) by auto
    then have "filter (\<lambda>x. w < wakes_at s x) (u # us) = u # us" "filter (\<lambda>x. wakes_at s x \<le> w) (u # us) = []"
      by (auto simp: filter_id_conv filter_empty_conv not_le)
    then show ?thesis using True sl th by (simp add: wakes_at_def)
  next
    case False
    then show ?thesis using Cons sl th by (auto simp: wakes_at_def not_less)
  qed
qed simp

lemma sleeps_set_next_timer [simp]:
  "ks_sched (plat_set_next_timer cpu d s) = ks_sched s" "time_states (plat_set_next_timer cpu d s) = time_states s"
  by (simp_all add: plat_set_next_timer_def)

text \<open>A sleep of \<open>2 ^ 58\<close> seconds overflows to no time at all.\<close>

lemma enqueue_sleeper_wraps: "enqueue_sleeper cpu now t (2 ^ 58, 0) c s = enqueue_sleeper cpu now t (0, 0) c s"
proof -
  have "(2 :: u64) ^ 58 * 1000 * 1000 = 0" by simp
  then show ?thesis by (simp only: enqueue_sleeper_def Let_def prod.case mult_zero_left)
qed

section \<open>A concrete state\<close>

text \<open>
  Thread 0 runs on CPU 0. Thread 1 sleeps until tick 50 and thread 2 until tick 200; the other
  CPUs are idle.
\<close>

definition demo_ctx :: "nat \<Rightarrow> thread_type \<Rightarrow> thread_state \<Rightarrow> kernel_stack \<Rightarrow> thread_ctx" where
  "demo_ctx j ty st ks = zero_ctx\<lparr>fpu_state := Some zero_fpu, sc := Some j, th_type := ty, state := st, affinity := NO_AFF,
    kernel_stack_state := ks\<rparr>"

definition sleep_until :: "u64 \<Rightarrow> thread \<Rightarrow> thread" where
  "sleep_until w th = th\<lparr>sleep_state := \<lparr>wakeup_tick = w, sleep_cpu = 0, pending_notific = None, cb = Some Sleep_Timer_Cb\<rparr>\<rparr>"

fun demo_threads :: "tid \<Rightarrow> thread option" where
  "demo_threads (Idle i) = (if i < 4 then Some (zero_thread\<lparr>thread_ctx := Some (demo_ctx 9 TYPE_IDLE TS_INTER KS_FREE)\<rparr>) else None)"
| "demo_threads (Thread i) =
    (if i = 0 then Some (zero_thread\<lparr>thread_ctx := Some (demo_ctx 0 TYPE_USER TS_RUNNING KS_LOCKED), th_vmspace := Some 0\<rparr>)
     else if i = 1 then Some (sleep_until 50 (zero_thread\<lparr>thread_ctx := Some (demo_ctx 1 TYPE_USER TS_WAITING KS_FREE), th_vmspace := Some 0\<rparr>))
     else if i = 2 then Some (sleep_until 200 (zero_thread\<lparr>thread_ctx := Some (demo_ctx 2 TYPE_USER TS_WAITING KS_FREE), th_vmspace := Some 0\<rparr>))
     else None)"

definition demo_run :: sched_state where
  "demo_run = boot_sched\<lparr>threads := demo_threads, current_threads := (\<lambda>_. None)(0 := Some (Thread 0)),
    sched_conts := [0 \<mapsto> 1, 1 \<mapsto> 1, 2 \<mapsto> 1, 9 \<mapsto> 1]\<rparr>"

definition demo_timer :: kstate where
  "demo_timer = boot_kstate\<lparr>ks_sched := demo_run, time_states := (\<lambda>_. \<lparr>next_expire = 1000, sleep_list = []\<rparr>)
    (0 := \<lparr>next_expire = 1000, sleep_list = [Thread 1, Thread 2]\<rparr>)\<rparr>"

lemma demo_run_ctx: "ctx_of demo_run t = (case t of Idle i \<Rightarrow> if i < 4 then Some (demo_ctx 9 TYPE_IDLE TS_INTER KS_FREE) else None
  | Thread i \<Rightarrow> if i = 0 then Some (demo_ctx 0 TYPE_USER TS_RUNNING KS_LOCKED)
      else if i = 1 then Some (demo_ctx 1 TYPE_USER TS_WAITING KS_FREE)
      else if i = 2 then Some (demo_ctx 2 TYPE_USER TS_WAITING KS_FREE) else None)"
  by (cases t) (auto simp: ctx_of_def demo_run_def sleep_until_def)

lemma demo_ctx_sel [simp]:
  "state (demo_ctx j ty st ks) = st" "th_type (demo_ctx j ty st ks) = ty" "kernel_stack_state (demo_ctx j ty st ks) = ks"
  "sc (demo_ctx j ty st ks) = Some j" "cpuid (demo_ctx j ty st ks) = 0" "affinity (demo_ctx j ty st ks) = NO_AFF"
  "prio (demo_ctx j ty st ks) = 0" "fpu_state (demo_ctx j ty st ks) = Some zero_fpu"
  by (simp_all add: demo_ctx_def zero_ctx_def)

lemma demo_run_sel [simp]:
  "current_threads demo_run k = (if k = 0 then Some (Thread 0) else None)" "rr_ready_queue demo_run k = []"
  "sched_conts demo_run = [0 \<mapsto> 1, 1 \<mapsto> 1, 2 \<mapsto> 1, 9 \<mapsto> 1]" "cur_sched_ops demo_run = RR"
  by (simp_all add: demo_run_def boot_sched_def)

lemma demo_run_inv: "rri.smp_inv (\<lambda>_. False) {} demo_run"
proof -
  have "rr.queue_inv demo_run"
    by (auto simp: rr.queue_inv_def ready_on_def demo_run_ctx split: tid.splits if_splits)
  moreover have "ctxs_ok demo_run"
    by (auto simp: ctxs_ok_def ctx_ok_def demo_run_ctx PLAT_CPU_NUM_def MAX_PRIO_def split: tid.splits if_splits)
  moreover have "owner_inv (\<lambda>_. False) {} demo_run"
    by (auto simp: owner_inv_def left_behind_def stack_locked_def runs_on_def demo_run_ctx PLAT_CPU_NUM_def split: if_splits)
  ultimately show ?thesis by (simp add: rri.smp_inv_def)
qed

lemma demo_timer_inv: "timer_inv (\<lambda>_. False) demo_timer"
  using demo_run_inv by (simp add: timer_inv_def waiting_counts_def demo_timer_def boot_kstate_def)

lemma demo_timer_sel:
  "sleep_list (time_states demo_timer 0) = [Thread 1, Thread 2]" "wakes_at demo_timer (Thread 1) = 50" "wakes_at demo_timer (Thread 2) = 200"
  "wakes_at demo_timer (Thread 0) = 0" "threads (ks_sched demo_timer) = demo_threads" "tick_per_us demo_timer = 62"
  "ks_sched demo_timer = demo_run" "sleeper_ok demo_timer (Thread 1)" "sleeper_ok demo_timer (Thread 2)"
  "in_state_of demo_timer (Thread 1) = Some TS_WAITING" "in_state_of demo_timer (Thread 2) = Some TS_WAITING"
  by (simp_all add: demo_timer_def boot_kstate_def wakes_at_def sleeps_def sleeper_ok_def in_state_of_def demo_run_ctx)
    (simp_all add: demo_run_def sleep_until_def zero_thread_def)

section \<open>Properties\<close>



text \<open>
  C27: \<^verbatim>\<open>enqueue_sleeper\<close> puts a thread that is not on the list behind every sleeper that
  wakes up no later and before all others, so the list stays in order; it records the tick at which
  the thread wakes up and leaves the other sleepers as they are. The timer interrupt is due no later
  than that tick.
\<close>

theorem enqueue_sleeper_ordered:
  assumes w_def: "w = now + (sec * 1000 * 1000 + ns div 1000) * tick_per_us s"
    and t: "threads (ks_sched s) t \<noteq> None" and l: "t \<notin> set (sleep_list (time_states s cpu))"
    and ok: "\<forall>u \<in> set (sleep_list (time_states s cpu)). threads (ks_sched s) u \<noteq> None"
      "sorted (map (wakes_at s) (sleep_list (time_states s cpu)))"
  shows "\<exists>s'. enqueue_sleeper cpu now t (sec, ns) c s = Inr (0, s') \<and> wakes_at s' t = w \<and>
    sleep_list (time_states s' cpu) = filter (\<lambda>u. wakes_at s u \<le> w) (sleep_list (time_states s cpu)) @ t #
      filter (\<lambda>u. w < wakes_at s u) (sleep_list (time_states s cpu)) \<and>
    sorted (map (wakes_at s') (sleep_list (time_states s' cpu))) \<and>
    (\<forall>u. u \<noteq> t \<longrightarrow> sleeps (ks_sched s') u = sleeps (ks_sched s) u) \<and> next_expire (time_states s' cpu) \<le> w"
proof -
  let ?l = "sleep_list (time_states s cpu)"
  let ?l' = "filter (\<lambda>u. wakes_at s u \<le> w) ?l @ t # filter (\<lambda>u. w < wakes_at s u) ?l"
  define s1 where "s1 = upd_sleep t (\<lambda>sl. sl\<lparr>wakeup_tick := w, sleep_cpu := cpu\<rparr>) s"
  obtain th where th: "threads (ks_sched s) t = Some th" using t by blast
  have w1: "wakes_at s1 t = w" "\<And>u. u \<noteq> t \<Longrightarrow> wakes_at s1 u = wakes_at s u"
    using th by (simp_all add: wakes_at_def s1_def sleeps_def [of "ks_sched s" t])
  have same: "\<forall>u \<in> set ?l. wakes_at s1 u = wakes_at s u" by (intro ballI w1(2)) (use l in auto)
  have m: "map (wakes_at s1) ?l = map (wakes_at s) ?l" using same by simp
  have "insert_sleeper w t ?l s1 = Inr (filter (\<lambda>u. wakes_at s1 u \<le> w) ?l @ t # filter (\<lambda>u. w < wakes_at s1 u) ?l)"
  proof (rule insert_sleeper_eq)
    show "\<forall>u \<in> set ?l. sleeps (ks_sched s1) u \<noteq> None" using ok(1) by (auto simp: s1_def sleeps_def)
    show "sorted (map (wakes_at s1) ?l)" unfolding m by (rule ok(2))
  qed
  moreover have "filter (\<lambda>u. wakes_at s1 u \<le> w) ?l = filter (\<lambda>u. wakes_at s u \<le> w) ?l"
    "filter (\<lambda>u. w < wakes_at s1 u) ?l = filter (\<lambda>u. w < wakes_at s u) ?l"
    using same by (auto intro: filter_cong)
  ultimately have ins: "insert_sleeper w t ?l s1 = Inr ?l'" by simp
  define s2 where "s2 = upd_sleep t (\<lambda>sl. sl\<lparr>cb := Some c\<rparr>) (upd_time cpu (\<lambda>ts. ts\<lparr>sleep_list := ?l'\<rparr>) s1)"
  define s' where "s' = (if next_expire (time_states s2 cpu) > w
    then plat_set_next_timer cpu ((sec * 1000 * 1000 + ns div 1000) * tick_per_us s) (upd_time cpu (\<lambda>ts. ts\<lparr>next_expire := w\<rparr>) s2) else s2)"
  have e: "enqueue_sleeper cpu now t (sec, ns) c s = Inr (0, s')"
    using th ins unfolding enqueue_sleeper_def Let_def prod.case w_def [symmetric] s1_def [symmetric]
    by (simp add: s'_def s2_def s1_def)
  have sl: "sleep_list (time_states s' cpu) = ?l'" by (simp add: s'_def s2_def)
  have wk: "wakes_at s' u = wakes_at s1 u" for u
    by (auto simp: s'_def s2_def wakes_at_def split: option.splits)
  have "sorted (map (wakes_at s1) ?l')"
  proof -
    have f: "map (wakes_at s1) (filter P ?l) = map (wakes_at s) (filter P ?l)" for P using same by simp
    have "sorted (map (wakes_at s) (filter P ?l))" for P using ok(2) by (rule sorted_filter)
    then show ?thesis unfolding map_append list.map f w1(1) by (auto simp: sorted_append)
  qed
  then have "sorted (map (wakes_at s') (sleep_list (time_states s' cpu)))" unfolding sl wk .
  moreover have "\<forall>u. u \<noteq> t \<longrightarrow> sleeps (ks_sched s') u = sleeps (ks_sched s) u" by (simp add: s'_def s2_def s1_def)
  moreover have "next_expire (time_states s' cpu) \<le> w" by (auto simp: s'_def not_less)
  ultimately show ?thesis using e sl wk w1(1) by (intro exI conjI) simp_all
qed

theorem enqueue_sleeper_ordered_witness:
  "\<exists>s'. enqueue_sleeper 0 38 (Thread 0) (0, 1000) Sleep_Timer_Cb demo_timer = Inr (0, s') \<and>
    sleep_list (time_states s' 0) = [Thread 1, Thread 0, Thread 2] \<and> next_expire (time_states s' 0) \<le> 100"
proof -
  have w: "(100 :: u64) = 38 + (0 * 1000 * 1000 + 1000 div 1000) * tick_per_us demo_timer"
    by (simp add: demo_timer_sel)
  have t: "threads (ks_sched demo_timer) (Thread 0) \<noteq> None" "Thread 0 \<notin> set (sleep_list (time_states demo_timer 0))"
    "\<forall>u \<in> set (sleep_list (time_states demo_timer 0)). threads (ks_sched demo_timer) u \<noteq> None"
    "sorted (map (wakes_at demo_timer) (sleep_list (time_states demo_timer 0)))"
    using demo_timer_sel by simp_all
  show ?thesis using enqueue_sleeper_ordered [OF w t, of Sleep_Timer_Cb] demo_timer_sel by auto
qed

end
