(* ===== verification/Notification.thy ===== *)
theory Notification
  imports Timer Cap_Spec
begin

text \<open>
  Notifications (\<^verbatim>\<open>kernel/ipc/notification.c\<close>) and the interrupt objects built on them
  (\<^verbatim>\<open>kernel/object/irq.c\<close>): counting semaphores with a first-in first-out queue of waiting
  threads, optional time-outs and a direct switch to the woken thread.
\<close>

section \<open>Operations\<close>

text \<open>An operation that may block returns to its caller or leaves the CPU to another thread.\<close>

datatype outcome = Returned s32 | Switched tid

definition NOTIFICATION_SIZE :: nat where "NOTIFICATION_SIZE = 32"
definition IRQ_NOTIFICATION_SIZE :: nat where "IRQ_NOTIFICATION_SIZE = 40"
definition MAX_IRQ_NUM :: s32 where "MAX_IRQ_NUM = 4096"

definition upd_notifc :: "nat \<Rightarrow> notification \<Rightarrow> kstate \<Rightarrow> kstate" where
  "upd_notifc nt n s = s\<lparr>notifications := (notifications s)(nt \<mapsto> n)\<rparr>"

definition init_notific :: "nat \<Rightarrow> kstate \<Rightarrow> kstate" where
  "init_notific nt s = upd_notifc nt \<lparr>not_delivered_notifc_count = 0, waiting_threads_count = 0, waiting_threads = []\<rparr> s"

text \<open>The blocking branch, up to the point where another thread has been chosen and the lock is released.\<close>

definition wait_block :: "nat \<Rightarrow> u64 \<Rightarrow> nat \<Rightarrow> notification \<Rightarrow> (u64 \<times> u64) option \<Rightarrow> kstate \<Rightarrow> kstate res" where
  "wait_block cpu now nt n timeout s =
    bind_res (current_thread cpu s) (\<lambda>t.
    bind_res (get_ctx (ks_sched s) t) (\<lambda>_.
      let s1 = upd_notifc nt (n\<lparr>waiting_threads := waiting_threads n @ [t],
                 waiting_threads_count := waiting_threads_count n + 1\<rparr>) s in
      bind_res (arch_set_thread_return t 0 (upd_ctx t (\<lambda>c. c\<lparr>state := TS_WAITING\<rparr>) (ks_sched s1))) (\<lambda>q.
      let s2 = s1\<lparr>ks_sched := q\<rparr> in
      bind_res (case timeout of None \<Rightarrow> Inr s2
        | Some ts \<Rightarrow> bind_res (enqueue_sleeper cpu now t ts Notific_Timer_Cb
            (upd_sleep t (\<lambda>sl. sl\<lparr>pending_notific := Some nt\<rparr>) s2)) (\<lambda>(_, s3). Inr s3)) (\<lambda>s3.
      bind_res (sched cpu (ks_sched s3)) (\<lambda>q2. Inr (s3\<lparr>ks_sched := q2\<rparr>))))))"

definition wait_notific :: "nat \<Rightarrow> u64 \<Rightarrow> nat \<Rightarrow> bool \<Rightarrow> (u64 \<times> u64) option \<Rightarrow> kstate \<Rightarrow> (outcome \<times> kstate) res" where
  "wait_notific cpu now nt is_block timeout s =
    bind_res (deref (notifications s) nt) (\<lambda>n.
      if not_delivered_notifc_count n > 0
      then Inr (Returned 0, upd_notifc nt (n\<lparr>not_delivered_notifc_count := not_delivered_notifc_count n - 1\<rparr>) s)
      else if is_block
      then bind_res (wait_block cpu now nt n timeout s) (\<lambda>s1.
        bind_res (eret_to_thread cpu (ks_sched s1)) (\<lambda>(t, q). Inr (Switched t, s1\<lparr>ks_sched := q\<rparr>)))
      else Inr (Returned (- EAGAIN), s))"

definition try_remove_timeout :: "tid option \<Rightarrow> nat \<Rightarrow> kstate \<Rightarrow> kstate res" where
  "try_remove_timeout target nt s =
    (case target of None \<Rightarrow> Inr s
     | Some t \<Rightarrow> bind_res (deref (threads (ks_sched s)) t) (\<lambda>th.
        if cb (sleep_state th) = None then Inr s
        else bind_res (try_dequeue_sleeper t s) (\<lambda>(_, s1).
          bind_res (deref (threads (ks_sched s1)) t) (\<lambda>th1.
            bug_on (pending_notific (sleep_state th1) \<noteq> None \<and> Some nt \<noteq> pending_notific (sleep_state th1))
            (Inr (upd_sleep t (\<lambda>sl. sl\<lparr>pending_notific := None\<rparr>) s1))))))"

text \<open>The thread that a signal takes from the queue, or none.\<close>

definition take_waiter :: "nat \<Rightarrow> kstate \<Rightarrow> (tid option \<times> kstate) res" where
  "take_waiter nt s =
    bind_res (deref (notifications s) nt) (\<lambda>n.
      if not_delivered_notifc_count n > 0 \<or> waiting_threads_count n = 0
      then Inr (None, upd_notifc nt (n\<lparr>not_delivered_notifc_count := not_delivered_notifc_count n + 1\<rparr>) s)
      else (case waiting_threads n of [] \<Rightarrow> Inl Bad_Access
        | t # ts \<Rightarrow> Inr (Some t, upd_notifc nt (n\<lparr>waiting_threads := ts, waiting_threads_count := waiting_threads_count n - 1\<rparr>) s)))"

text \<open>
  \<open>enable_direct_switch\<close>: a target that may run on this CPU gets it at once; the signalling
  thread goes to its ready queue.
\<close>

definition signal_notific :: "nat \<Rightarrow> nat \<Rightarrow> bool \<Rightarrow> kstate \<Rightarrow> (outcome \<times> kstate) res" where
  "signal_notific cpu nt enable_direct_switch s =
    bind_res (take_waiter nt s) (\<lambda>(target, s1).
      case target of None \<Rightarrow> Inr (Returned 0, s1)
      | Some t \<Rightarrow> bind_res (get_ctx (ks_sched s1) t) (\<lambda>c.
          if enable_direct_switch \<and> (affinity c = NO_AFF \<or> affinity c = int cpu)
          then bind_res (current_thread cpu s1) (\<lambda>cur.
            bind_res (arch_set_thread_return cur 0 (ks_sched s1)) (\<lambda>q.
            bind_res (enqueue_or_bug cpu cur q s1) (\<lambda>s2.
            bind_res (try_remove_timeout (Some t) nt s2) (\<lambda>s3.
            bind_res (switch_to_thread cpu t (ks_sched s3)) (\<lambda>q2.
            bind_res (eret_to_thread cpu q2) (\<lambda>(t', q3). Inr (Switched t', s3\<lparr>ks_sched := q3\<rparr>)))))))
          else bind_res (enqueue_or_bug cpu t (upd_ctx t (\<lambda>c. c\<lparr>state := TS_INTER\<rparr>) (ks_sched s1)) s1) (\<lambda>s2.
            bind_res (try_remove_timeout (Some t) nt s2) (\<lambda>s3. Inr (Returned 0, s3)))))"

section \<open>System calls\<close>

definition sys_create_notifc :: "nat \<Rightarrow> kstate \<Rightarrow> (s32 \<times> kstate) res" where
  "sys_create_notifc cpu s =
    (case obj_alloc TYPE_NOTIFICATION NOTIFICATION_SIZE s of (None, s1) \<Rightarrow> Inr (- ENOMEM, s1)
     | (Some nt, s1) \<Rightarrow> bind_res (current_cap_group cpu s1) (\<lambda>g.
        bind_res (cap_alloc g nt 0 (init_notific nt s1)) (\<lambda>(cap, s2).
          if cap < 0 then bind_res (obj_free (Some nt) s2) (\<lambda>s3. Inr (cap, s3)) else Inr (cap, s2))))"

text \<open>
  The reference that \<^verbatim>\<open>obj_get\<close> took is given back only when the inner call returns.
\<close>

definition sys_wait :: "nat \<Rightarrow> u64 \<Rightarrow> u32 \<Rightarrow> bool \<Rightarrow> u64 \<Rightarrow> u64 \<times> u64 \<Rightarrow> kstate \<Rightarrow> (outcome \<times> kstate) res" where
  "sys_wait cpu now notifc_cap is_block timeout ts_k s =
    bind_res (current_cap_group cpu s) (\<lambda>g.
    bind_res (obj_get g (sint notifc_cap) TYPE_NOTIFICATION s) (\<lambda>(obj, s1).
      case obj of None \<Rightarrow> Inr (Returned (- ECAPBILITY), s1)
      | Some nt \<Rightarrow> bug_on (timeout \<noteq> 0 \<and> timeout \<ge> KBASE)
          (bind_res (wait_notific cpu now nt is_block (if timeout \<noteq> 0 then Some ts_k else None) s1) (\<lambda>(r, s2).
            case r of Switched t \<Rightarrow> Inr (Switched t, s2)
            | Returned ret \<Rightarrow> bind_res (obj_put nt s2) (\<lambda>s3. Inr (Returned ret, s3))))))"

definition sys_notify :: "nat \<Rightarrow> u32 \<Rightarrow> kstate \<Rightarrow> (outcome \<times> kstate) res" where
  "sys_notify cpu notifc_cap s =
    bind_res (current_cap_group cpu s) (\<lambda>g.
    bind_res (obj_get g (sint notifc_cap) TYPE_NOTIFICATION s) (\<lambda>(obj, s1).
      case obj of None \<Rightarrow> Inr (Returned (- ECAPBILITY), s1)
      | Some nt \<Rightarrow> bind_res (signal_notific cpu nt True s1) (\<lambda>(r, s2).
            case r of Switched t \<Rightarrow> Inr (Switched t, s2)
            | Returned ret \<Rightarrow> bind_res (obj_put nt s2) (\<lambda>s3. Inr (Returned ret, s3)))))"

section \<open>Interrupt objects\<close>

definition user_handle_irq :: "nat \<Rightarrow> nat \<Rightarrow> kstate \<Rightarrow> (outcome \<times> kstate) res" where
  "user_handle_irq cpu irq s =
    (case irq_notifcs s irq of None \<Rightarrow> Inl Bug_On
     | Some nt \<Rightarrow> bind_res (signal_notific cpu nt True s) (\<lambda>(r, s1).
         case r of Switched t \<Rightarrow> Inr (Switched t, s1) | Returned _ \<Rightarrow> Inr (Returned 0, s1)))"

text \<open>\<^verbatim>\<open>plat_enable_irqno\<close> is not implemented on this platform and stops.\<close>

definition plat_enable_irqno :: "s32 \<Rightarrow> kstate \<Rightarrow> kstate res" where
  "plat_enable_irqno irq s = Inl Bug_On"

definition sys_irq_register :: "nat \<Rightarrow> s32 \<Rightarrow> kstate \<Rightarrow> (s32 \<times> kstate) res" where
  "sys_irq_register cpu irq s =
    (if irq < 0 \<or> irq \<ge> MAX_IRQ_NUM then Inr (- EINVAL, s)
     else case obj_alloc TYPE_IRQ IRQ_NOTIFICATION_SIZE s of (None, s1) \<Rightarrow> Inr (- ENOMEM, s1)
     | (Some nt, s1) \<Rightarrow> bind_res (current_cap_group cpu s1) (\<lambda>g.
        bind_res (cap_alloc g nt 0 (init_notific nt (s1\<lparr>intr_vectors := (intr_vectors s1)(nt \<mapsto> nat irq)\<rparr>))) (\<lambda>(cap, s2).
          if cap < 0 then bind_res (obj_free (Some nt) s2) (\<lambda>s3. Inr (cap, s3))
          else bind_res (plat_enable_irqno irq (s2\<lparr>irq_notifcs := (irq_notifcs s2)(nat irq := Some nt),
              irq_handle_type := (irq_handle_type s2)(nat irq := HANDLE_USER)\<rparr>)) (\<lambda>s3. Inr (cap, s3)))))"

definition sys_irq_wait :: "nat \<Rightarrow> u64 \<Rightarrow> s32 \<Rightarrow> bool \<Rightarrow> kstate \<Rightarrow> (outcome \<times> kstate) res" where
  "sys_irq_wait cpu now irq_cap is_block s =
    bind_res (current_cap_group cpu s) (\<lambda>g.
    bind_res (obj_get g irq_cap TYPE_IRQ s) (\<lambda>(obj, s1).
      case obj of None \<Rightarrow> Inr (Returned (- ECAPBILITY), s1)
      | Some nt \<Rightarrow> bind_res (wait_notific cpu now nt is_block None s1) (\<lambda>(r, s2).
          case r of Switched t \<Rightarrow> Inr (Switched t, s2)
          | Returned ret \<Rightarrow> bind_res (obj_put nt s2) (\<lambda>s3. Inr (Returned ret, s3)))))"

definition sys_irq_ack :: "nat \<Rightarrow> s32 \<Rightarrow> kstate \<Rightarrow> (s32 \<times> kstate) res" where
  "sys_irq_ack cpu irq_cap s =
    bind_res (current_cap_group cpu s) (\<lambda>g.
    bind_res (obj_get g irq_cap TYPE_IRQ s) (\<lambda>(obj, s1).
      case obj of None \<Rightarrow> Inr (- ECAPBILITY, s1)
      | Some nt \<Rightarrow> bind_res (deref (intr_vectors s1) nt) (\<lambda>_.
          bind_res (obj_put nt s1) (\<lambda>s2. Inr (0, s2)))))"

end
