(* ===== verification/Notification_Props.thy ===== *)
theory Notification_Props
  imports Notification Timer_Props
begin

text \<open>
  Notifications are counting semaphores with a fair queue; the direct switch to the woken thread,
  however, does not ask whether another CPU still runs on its kernel stack.
\<close>

lemma upd_notifc_sel [simp]:
  "ks_sched (upd_notifc nt n s) = ks_sched s" "notifications (upd_notifc nt n s) = (notifications s)(nt \<mapsto> n)"
  "time_states (upd_notifc nt n s) = time_states s" "objects (upd_notifc nt n s) = objects s"
  by (simp_all add: upd_notifc_def)

section \<open>What the scheduler leaves alone\<close>

text \<open>The address space and the type of a thread, and the address spaces a switch needs.\<close>

definition vms :: "sched_state \<Rightarrow> tid \<Rightarrow> (nat option \<times> thread_type option) option" where
  "vms s t = map_option (\<lambda>th. (th_vmspace th, map_option th_type (thread_ctx th))) (threads s t)"

definition has_vmspace :: "sched_state \<Rightarrow> bool" where
  "has_vmspace s = (\<forall>t ty. vms s t = Some (None, Some ty) \<longrightarrow> ty = TYPE_IDLE \<or> ty = TYPE_KERNEL \<or> ty = TYPE_TESTS)"

lemma vms_upd_ctx [simp]: "(\<And>c. th_type (f c) = th_type c) \<Longrightarrow> vms (upd_ctx t f s) = vms s"
  by (auto simp: vms_def upd_ctx_def upd_thread_def fun_eq_iff option.map_comp o_def)

lemma vms_upd_prev [simp]: "vms (upd_thread t (prev_thread_update f) s) = vms s"
  by (auto simp: vms_def upd_thread_def fun_eq_iff option.map_comp o_def)

lemma vms_upd_sleep [simp]: "vms (ks_sched (upd_sleep t f s)) = vms (ks_sched s)"
  by (auto simp: vms_def upd_sleep_def upd_thread_def fun_eq_iff option.map_comp o_def)

lemma vms_rest [simp]:
  "vms (rr_ready_queue_update a s) = vms s" "vms (pbrr_ready_queue_update b s) = vms s"
  "vms (cpu_info_update c s) = vms s" "vms (cpacr_el1_update d s) = vms s" "vms (sched_conts_update e s) = vms s"
  "vms (current_threads_update f s) = vms s" "vms (tpidr_el0_update g s) = vms s"
  "vms (history_cpus_update h s) = vms s" "vms (ttbr0_el1_update i s) = vms s"
  by (simp_all add: vms_def fun_eq_iff)

lemma sleeps_upd_prev [simp]: "sleeps (upd_thread t (prev_thread_update f) s) = sleeps s"
  by (auto simp: sleeps_def upd_thread_def fun_eq_iff option.map_comp o_def)

lemma sleeps_more [simp]:
  "sleeps (current_threads_update a s) = sleeps s" "sleeps (tpidr_el0_update b s) = sleeps s"
  "sleeps (history_cpus_update c s) = sleeps s" "sleeps (ttbr0_el1_update d s) = sleeps s"
  by (simp_all add: sleeps_def fun_eq_iff)

definition framed :: "sched_state \<Rightarrow> sched_state \<Rightarrow> bool" where
  "framed s s' = (sleeps s' = sleeps s \<and> cur_sched_ops s' = cur_sched_ops s \<and> vms s' = vms s)"

lemma framed_refl [simp]: "framed s s"
  by (simp add: framed_def)

lemma framed_trans: "framed a b \<Longrightarrow> framed b c \<Longrightarrow> framed a c"
  by (simp add: framed_def)

lemma rr_enqueue_frame: "rr_sched_enqueue cpu t s = Inr (r, s') \<Longrightarrow> framed s s'"
  by (auto simp: framed_def rr_sched_enqueue_def rr_sched_enqueue_nolock_def save_and_release_fpu_def save_fpu_state_def
      set_fpu_owner_def Let_def res_simps split: if_splits option.splits)

lemma switch_tls_info_frame: "switch_tls_info cpu x y s = Inr s' \<Longrightarrow> framed s s'"
  by (auto simp: framed_def switch_tls_info_def res_simps split: option.splits if_splits)

lemma disable_fpu_frame: "framed s (disable_fpu_usage cpu s)"
  by (simp add: framed_def disable_fpu_usage_def)

lemma switch_to_thread_frame: "switch_to_thread cpu t s = Inr s' \<Longrightarrow> framed s s'"
  using disable_fpu_frame by (auto simp: switch_to_thread_def res_simps Let_def framed_def split: if_splits dest!: switch_tls_info_frame)

lemma rr_dequeue_frame: "rr_sched_dequeue_nolock t s = Inr (r, s') \<Longrightarrow> framed s s'"
  by (cases "ctx_of s t") (auto simp: framed_def rr_sched_dequeue_nolock_def get_ctx_def split: if_split_asm)

lemma rr_choose_frame:
  assumes "rr_sched_choose_thread cpu s = Inr (t, s')"
  shows "framed s s'"
proof (cases "s' = s")
  case False
  then obtain u r where "rr_sched_dequeue_nolock u s = Inr (r, s')"
    using assms by (auto simp: rr_sched_choose_thread_def bind_res_eq_Inr bug_on_def split: if_split_asm option.split_asm)
  then show ?thesis by (rule rr_dequeue_frame)
qed simp

lemma rr_choose_switch_frame:
  "\<lbrakk>rr_sched_choose_thread cpu s = Inr (t, s1); switch_to_thread cpu t s1 = Inr s'\<rbrakk> \<Longrightarrow> framed s s'"
  using rr_choose_frame switch_to_thread_frame framed_trans by metis

lemma rr_refill_frame: "rr_sched_refill_budget t b s = Inr s' \<Longrightarrow> framed s s'"
  by (auto simp: framed_def rr_sched_refill_budget_def bind_res_eq_Inr split: option.split_asm)

lemma rr_sched_frame:
  assumes "rr_sched cpu s = Inr s'"
  shows "framed s s'"
proof (cases "current_threads s cpu")
  case None
  then show ?thesis using assms by (auto simp: rr_sched_def bind_res_eq_Inr dest: rr_choose_switch_frame)
next
  case (Some old)
  obtain c where c: "ctx_of s old = Some c" using assms Some by (auto simp: rr_sched_def bind_res_eq_Inr res_simps)
  obtain k where k: "sc c = Some k" using assms Some c by (cases "sc c") (auto simp: rr_sched_def bind_res_eq_Inr res_simps)
  show ?thesis using assms Some c k
    by (auto simp: rr_sched_def res_simps framed_def split: if_split_asm
        dest!: rr_choose_switch_frame rr_enqueue_frame rr_refill_frame)
qed

lemma switch_context_frame: "switch_context cpu s = Inr (t, s') \<Longrightarrow> framed s s'"
  by (auto simp: framed_def switch_context_def record_history_cpu_def switch_thread_vmspace_to_def res_simps split: if_splits option.splits)

lemma finish_switch_frame:
  assumes "finish_switch cpu s = Inr s'"
  shows "framed s s' \<and> (\<forall>u. map_option state (ctx_of s' u) = map_option state (ctx_of s u))"
proof -
  have "s' = s \<or> (\<exists>p. s' = upd_ctx p (\<lambda>c. c\<lparr>kernel_stack_state := KS_FREE\<rparr>) s)"
  proof (cases "current_threads s cpu")
    case (Some t)
    then obtain th where "threads s t = Some th" using assms by (auto simp: finish_switch_def res_simps)
    then show ?thesis using assms Some by (cases "prev_thread th") (auto simp: finish_switch_def res_simps)
  qed (use assms in \<open>simp add: finish_switch_def\<close>)
  then show ?thesis by (auto simp: framed_def option.map_comp o_def)
qed

lemma state_view: "view s' t = view s t \<Longrightarrow> map_option state (ctx_of s' t) = map_option state (ctx_of s t)"
  by (cases "ctx_of s t"; cases "ctx_of s' t") (auto dest: sched_viewD)

text \<open>The way back to user mode succeeds when the chosen thread has an address space.\<close>

lemma eret_ok:
  assumes i: "rri.smp_inv pend {} q" and cpu: "cpu < PLAT_CPU_NUM" "pend cpu" and t: "current_threads q cpu = Some t" and v: "has_vmspace q"
  shows "\<exists>q'. eret_to_thread cpu q = Inr (t, q') \<and> rri.smp_inv (pend(cpu := False)) {} q' \<and> current_threads q' = current_threads q \<and>
    framed q q' \<and> (\<forall>u. map_option state (ctx_of q' u) = map_option state (ctx_of q u))"
proof -
  obtain c where c: "ctx_of q t = Some c" "ctx_ok q c" using rri.smp_inv_current [OF i t] by metis
  then obtain th where th: "threads q t = Some th" "thread_ctx th = Some c" using ctx_of_threads by (auto simp: ctx_of_def split: option.splits)
  have "th_vmspace th \<noteq> None \<or> th_type c \<in> {TYPE_IDLE, TYPE_KERNEL, TYPE_TESTS}"
    using v [unfolded has_vmspace_def, rule_format, of t "th_type c"] th by (auto simp: vms_def)
  then have "\<exists>q1. switch_context cpu q = Inr (t, q1)"
    using t th c cpu(1) by (auto simp: switch_context_def record_history_cpu_def switch_thread_vmspace_to_def)
  then obtain q1 where q1: "switch_context cpu q = Inr (t, q1)" ..
  have ss: "same_sched q q1" using switch_context_same [OF q1] by simp
  have t1: "current_threads q1 cpu = Some t" "current_threads q1 = current_threads q" using ss t by (simp_all add: same_sched_def)
  obtain q' where q': "finish_switch cpu q1 = Inr q'" "rri.smp_inv (pend(cpu := False)) {} q'" "current_threads q' = current_threads q1"
    by (rule rri.finish_step [OF rri.smp_inv_same [OF i ss] t1(1) cpu(2)])
  have "map_option state (ctx_of q1 u) = map_option state (ctx_of q u)" for u
    using ss by (intro state_view) (simp add: same_sched_def)
  then show ?thesis using q1 q' t1(2) finish_switch_frame [OF q'(1)] framed_trans [OF switch_context_frame [OF q1]]
    by (auto simp: eret_to_thread_def)
qed

section \<open>Waiting\<close>

lemma set_return_commute:
  assumes "ctx_of q t = Some c"
  shows "arch_set_thread_return t v (upd_ctx t (\<lambda>c. c\<lparr>state := st\<rparr>) q) =
    Inr (upd_ctx t (\<lambda>c. c\<lparr>state := st\<rparr>) (upd_ctx t (\<lambda>c. c\<lparr>ec := (ec c)(X0 := v)\<rparr>) q))"
proof -
  have e: "(\<lambda>c. c\<lparr>state := st, ec := (ec c)(X0 := v)\<rparr>) = (\<lambda>c. c\<lparr>ec := (ec c)(X0 := v), state := st\<rparr>)" by (simp add: fun_eq_iff)
  have "arch_set_thread_return t v (upd_ctx t (\<lambda>c. c\<lparr>state := st\<rparr>) q) = Inr (upd_ctx t (\<lambda>c. c\<lparr>state := st, ec := (ec c)(X0 := v)\<rparr>) q)"
    using assms by (simp add: arch_set_thread_return_def set_reg_def get_ctx_def)
  also have "\<dots> = Inr (upd_ctx t (\<lambda>c. c\<lparr>ec := (ec c)(X0 := v), state := st\<rparr>) q)" unfolding e ..
  finally show ?thesis by simp
qed

lemma unat32_plus_one:
  assumes "x \<noteq> (-1 :: u32)"
  shows "unat (x + 1) = Suc (unat x)"
proof -
  have "unat x \<noteq> unat (-1 :: u32)" using assms by (simp only: word_unat_eq_iff simp_thms)
  moreover have "unat (-1 :: u32) = 2 ^ 32 - 1" by (simp add: unsigned_minus_1_eq_mask mask_eq_exp_minus_1)
  moreover have "unat x < 2 ^ 32" using unsigned_less [of x, where ?'a = nat] by simp
  ultimately have "unat x + 1 < 2 ^ 32" by simp
  then show ?thesis by (simp add: unat_word_ariths)
qed

lemma wait_block_ok:
  assumes i: "timer_inv pend s" and cpu: "cpu < PLAT_CPU_NUM" "\<not> pend cpu"
    and cur: "current_threads (ks_sched s) cpu = Some t" "\<forall>i. t \<noteq> Idle i"
    and n: "notifications s nt = Some n" "waiting_threads_count n \<noteq> -1"
  shows "\<exists>s'. wait_block cpu now nt n None s = Inr s' \<and> timer_inv (pend(cpu := True)) s' \<and> in_state_of s' t = Some TS_WAITING \<and>
    notifications s' = (notifications s)(nt \<mapsto> n\<lparr>waiting_threads := waiting_threads n @ [t], waiting_threads_count := waiting_threads_count n + 1\<rparr>) \<and>
    current_threads (ks_sched s') cpu \<noteq> None \<and> current_threads (ks_sched s') cpu \<noteq> Some t \<and> framed (ks_sched s) (ks_sched s')"
proof -
  have ti: "rri.smp_inv pend {} (ks_sched s)" "cur_sched_ops (ks_sched s) = RR" "waiting_counts s" using i by (auto simp: timer_inv_def)
  obtain c where c: "ctx_of (ks_sched s) t = Some c" using rri.smp_inv_current [OF ti(1) cur(1)] by metis
  define q where "q = upd_ctx t (\<lambda>c. c\<lparr>ec := (ec c)(X0 := 0)\<rparr>) (ks_sched s)"
  have ss: "same_sched (ks_sched s) q" unfolding q_def by (rule same_sched_upd_ctx) (simp add: sched_view_def)
  have iq: "rri.smp_inv pend {} q" "current_threads q cpu = Some t" "cur_sched_ops q = RR"
    using rri.smp_inv_same [OF ti(1) ss] ss cur ti(2) by (simp_all add: same_sched_def)
  obtain q' where q': "rr_sched cpu (upd_ctx t (\<lambda>c. c\<lparr>state := TS_WAITING\<rparr>) q) = Inr q'" "rri.smp_inv (pend(cpu := True)) {} q'"
    "current_threads q' cpu \<noteq> None" "\<exists>c. ctx_of q' t = Some c \<and> state c = TS_WAITING"
    using wait_inv [OF iq(1) cpu iq(2)] cur(2) by blast
  define n' where "n' = n\<lparr>waiting_threads := waiting_threads n @ [t], waiting_threads_count := waiting_threads_count n + 1\<rparr>"
  define s' where "s' = (upd_notifc nt n' s)\<lparr>ks_sched := q'\<rparr>"
  have "sched cpu (upd_ctx t (\<lambda>c. c\<lparr>state := TS_WAITING\<rparr>) q) = Inr q'" using q'(1) iq(3) by (simp add: sched_def)
  then have e: "wait_block cpu now nt n None s = Inr s'"
    using cur(1) c set_return_commute [OF c, of 0 TS_WAITING]
    by (simp add: wait_block_def current_thread_def get_ctx_def Let_def q_def s'_def n'_def)
  have "current_threads q' cpu \<noteq> Some t" using q'(4) rri.smp_inv_current [OF q'(2), of cpu t] by fastforce
  moreover have "framed (ks_sched s) q'" "cur_sched_ops q' = RR"
    using rr_sched_frame [OF q'(1)] iq(3) by (simp_all add: framed_def q_def)
  moreover have "waiting_counts s'"
    using ti(3) n unat32_plus_one [OF n(2)] by (auto simp: waiting_counts_def s'_def n'_def)
  ultimately show ?thesis using e q' by (auto simp: s'_def n'_def timer_inv_def in_state_of_def)
qed

section \<open>Signalling\<close>

text \<open>The time-out of a waiting thread, if it has one, was started by this notification.\<close>

definition timeout_ok :: "kstate \<Rightarrow> nat \<Rightarrow> tid \<Rightarrow> bool" where
  "timeout_ok s nt t = (\<exists>sl. sleeps (ks_sched s) t = Some sl \<and> (cb sl \<noteq> None \<longrightarrow> sleep_cpu sl < PLAT_CPU_NUM \<and>
    (pending_notific sl = None \<or> pending_notific sl = Some nt)))"

lemma try_remove_timeout_ok:
  assumes "timeout_ok s nt t"
  shows "\<exists>s'. try_remove_timeout (Some t) nt s = Inr s' \<and> same_sched (ks_sched s) (ks_sched s') \<and> notifications s' = notifications s \<and>
    vms (ks_sched s') = vms (ks_sched s) \<and> (\<exists>sl. sleeps (ks_sched s') t = Some sl \<and> cb sl = None)"
proof -
  obtain sl where sl: "sleeps (ks_sched s) t = Some sl" "cb sl \<noteq> None \<longrightarrow> sleep_cpu sl < PLAT_CPU_NUM \<and>
    (pending_notific sl = None \<or> pending_notific sl = Some nt)" using assms by (auto simp: timeout_ok_def)
  obtain th where th: "threads (ks_sched s) t = Some th" "sleep_state th = sl" using sleeps_threads [OF sl(1)] by blast
  show ?thesis
  proof (cases "cb sl = None")
    case True
    then show ?thesis using th sl(1) by (simp add: try_remove_timeout_def)
  next
    case False
    define s1 where "s1 = upd_sleep t (\<lambda>sl. sl\<lparr>cb := None\<rparr>)
      (upd_time (sleep_cpu sl) (\<lambda>ts. ts\<lparr>sleep_list := remove1 t (sleep_list ts)\<rparr>) s)"
    define s2 where "s2 = upd_sleep t (\<lambda>sl. sl\<lparr>pending_notific := None\<rparr>) s1"
    have sl1: "sleeps (ks_sched s1) t = Some (sl\<lparr>cb := None\<rparr>)" using sl(1) by (simp add: s1_def)
    obtain th1 where th1: "threads (ks_sched s1) t = Some th1" "sleep_state th1 = sl\<lparr>cb := None\<rparr>" using sleeps_threads [OF sl1] by blast
    have "try_dequeue_sleeper t s = Inr (True, s1)" using th False sl(2) by (simp add: try_dequeue_sleeper_def Let_def s1_def)
    then have "try_remove_timeout (Some t) nt s = Inr s2"
      using th th1 False sl(2) by (auto simp: try_remove_timeout_def s2_def)
    moreover have "same_sched (ks_sched s) (ks_sched s2)"
      unfolding s2_def s1_def by (rule same_sched_trans [OF _ upd_sleep_same]) (use upd_sleep_same [of "upd_time _ _ s"] in simp)
    ultimately show ?thesis using sl1 by (auto simp: s2_def s1_def)
  qed
qed

lemma enqueue_current_ok:
  assumes i: "rri.smp_inv pend {} q" and cpu: "cpu < PLAT_CPU_NUM" and cur: "current_threads q cpu = Some u"
  shows "\<exists>q'. rr_sched_enqueue cpu u q = Inr (0, q') \<and> rri.smp_inv pend {cpu} q' \<and> current_threads q' = current_threads q \<and>
    (\<forall>w. w \<noteq> u \<longrightarrow> view q' w = view q w) \<and> ((\<forall>i. u \<noteq> Idle i) \<longrightarrow> map_option state (ctx_of q' u) = Some TS_READY) \<and>
    (\<forall>w. map_option th_vmspace (threads q' w) = map_option th_vmspace (threads q w))"
proof -
  obtain c where c: "ctx_of q u = Some c" "state c = TS_RUNNING" "ctx_ok q c" "th_type c = TYPE_IDLE \<longleftrightarrow> (\<exists>i. u = Idle i)"
    "\<And>j. j \<noteq> cpu \<Longrightarrow> current_threads q j \<noteq> Some u" using rri.smp_inv_current [OF i cur] by metis
  have w: "rri.smp_inv pend {cpu} q" using rri.smp_inv_weaken [OF i] .
  show ?thesis
  proof (cases "th_type c = TYPE_IDLE")
    case True
    then have "rr_sched_enqueue cpu u q = Inr (0, q)" using rri.enq_idle [OF c(1)] by simp
    then show ?thesis using w True c(4) by auto
  next
    case False
    obtain q' where q': "rr_sched_enqueue cpu u q = Inr (0, q')" "rri.smp_inv pend {cpu} q'" "current_threads q' = current_threads q"
      by (rule rri.enq_step [OF w cpu c(1)]) (use c False in auto)
    obtain q2 where q2: "rr_sched_enqueue cpu u q = Inr (0, q2)" "restated u TS_READY (target_cpu cpu c) q q2"
      using rr_enq_ok [OF c(1) _ False c(3) cpu] c(2) by auto
    then have r: "restated u TS_READY (target_cpu cpu c) q q'" using q'(1) by simp
    show ?thesis using q' restated_view [OF r] restated_self [OF r c(1)] restated_sel(5) [OF r] by (auto dest: sched_viewD)
  qed
qed

lemma take_waiter_first:
  assumes "notifications s nt = Some n" "not_delivered_notifc_count n = 0" "waiting_threads n = t # ts" "waiting_counts s"
  shows "take_waiter nt s = Inr (Some t, upd_notifc nt (n\<lparr>waiting_threads := ts, waiting_threads_count := waiting_threads_count n - 1\<rparr>) s)"
    "waiting_counts (upd_notifc nt (n\<lparr>waiting_threads := ts, waiting_threads_count := waiting_threads_count n - 1\<rparr>) s)"
proof -
  have cnt: "unat (waiting_threads_count n) = Suc (length ts)" using assms by (auto simp: waiting_counts_def)
  then have nz: "waiting_threads_count n \<noteq> 0" by auto
  then show "take_waiter nt s = Inr (Some t, upd_notifc nt (n\<lparr>waiting_threads := ts, waiting_threads_count := waiting_threads_count n - 1\<rparr>) s)"
    using assms by (simp add: take_waiter_def)
  have "unat (waiting_threads_count n - 1) = length ts" using cnt nz by (simp add: unat_minus_one)
  then show "waiting_counts (upd_notifc nt (n\<lparr>waiting_threads := ts, waiting_threads_count := waiting_threads_count n - 1\<rparr>) s)"
    using assms by (auto simp: waiting_counts_def)
qed

lemma set_return_frame: "arch_set_thread_return t v q = Inr q' \<Longrightarrow> framed q q'"
  by (auto simp: arch_set_thread_return_def set_reg_def framed_def res_simps)

text \<open>A thread that waits and whose kernel stack no CPU uses.\<close>

definition parked :: "kstate \<Rightarrow> nat \<Rightarrow> tid \<Rightarrow> bool" where
  "parked s nt t = (in_state_of s t = Some TS_WAITING \<and> (\<forall>i. t \<noteq> Idle i) \<and> \<not> stack_locked (ks_sched s) t \<and> timeout_ok s nt t)"

lemma parked_ctx:
  assumes "parked s nt t" "timer_inv pend s"
  shows "\<exists>c. ctx_of (ks_sched s) t = Some c \<and> state c = TS_WAITING \<and> th_type c \<noteq> TYPE_IDLE"
  using assms by (auto simp: parked_def in_state_of_def timer_inv_def rri.smp_inv_def ctxs_ok_def)

lemma signal_direct:
  assumes i: "timer_inv pend s" and cpu: "cpu < PLAT_CPU_NUM" "\<not> pend cpu" and v: "has_vmspace (ks_sched s)"
    and cur: "current_threads (ks_sched s) cpu = Some u"
    and n: "notifications s nt = Some n" "not_delivered_notifc_count n = 0" "waiting_threads n = t # ts"
    and t: "parked s nt t" "ctx_of (ks_sched s) t = Some c" "affinity c = NO_AFF \<or> affinity c = int cpu"
  shows "\<exists>s'. signal_notific cpu nt True s = Inr (Switched t, s') \<and> timer_inv pend s' \<and>
    notifications s' = (notifications s)(nt \<mapsto> n\<lparr>waiting_threads := ts, waiting_threads_count := waiting_threads_count n - 1\<rparr>) \<and>
    current_threads (ks_sched s') = (current_threads (ks_sched s))(cpu \<mapsto> t) \<and>
    ((\<forall>i. u \<noteq> Idle i) \<longrightarrow> in_state_of s' u = Some TS_READY)"
proof -
  have ti: "rri.smp_inv pend {} (ks_sched s)" "cur_sched_ops (ks_sched s) = RR" "waiting_counts s" using i by (auto simp: timer_inv_def)
  define s1 where "s1 = upd_notifc nt (n\<lparr>waiting_threads := ts, waiting_threads_count := waiting_threads_count n - 1\<rparr>) s"
  have tw: "take_waiter nt s = Inr (Some t, s1)" "waiting_counts s1" using take_waiter_first [OF n ti(3)] by (simp_all add: s1_def)
  have c: "state c = TS_WAITING" "th_type c \<noteq> TYPE_IDLE" using parked_ctx [OF t(1) i] t(2) by auto
  obtain cu where cu: "ctx_of (ks_sched s) u = Some cu" "state cu = TS_RUNNING" using rri.smp_inv_current [OF ti(1) cur] by metis
  have tu: "t \<noteq> u" using cu c t(2) by auto
  obtain q where q: "arch_set_thread_return u 0 (ks_sched s) = Inr q" "same_sched (ks_sched s) q"
    using same_sched_return [OF cu(1)] by blast
  have fq: "framed (ks_sched s) q" using set_return_frame [OF q(1)] .
  have cq: "current_threads q cpu = Some u" "current_threads q = current_threads (ks_sched s)" using q(2) cur by (simp_all add: same_sched_def)
  obtain q1 where q1: "rr_sched_enqueue cpu u q = Inr (0, q1)" "rri.smp_inv pend {cpu} q1" "current_threads q1 = current_threads q"
    "\<forall>w. w \<noteq> u \<longrightarrow> view q1 w = view q w" "(\<forall>i. u \<noteq> Idle i) \<longrightarrow> map_option state (ctx_of q1 u) = Some TS_READY"
    using enqueue_current_ok [OF rri.smp_inv_same [OF ti(1) q(2)] cpu(1) cq(1)] by blast
  have f1: "framed (ks_sched s) q1" using framed_trans [OF fq rr_enqueue_frame [OF q1(1)]] .
  define s2 where "s2 = s1\<lparr>ks_sched := q1\<rparr>"
  have e2: "enqueue_or_bug cpu u q s1 = Inr s2"
    using q1(1) fq ti(2) by (simp add: enqueue_or_bug_def sched_enqueue_def framed_def s2_def)
  have "timeout_ok s2 nt t" using t(1) f1 by (simp add: parked_def timeout_ok_def s2_def framed_def)
  then obtain s3 where s3: "try_remove_timeout (Some t) nt s2 = Inr s3" "same_sched q1 (ks_sched s3)" "notifications s3 = notifications s2"
    "vms (ks_sched s3) = vms q1" using try_remove_timeout_ok [of s2 nt t] by (auto simp: s2_def)
  have v3: "view (ks_sched s3) t = view (ks_sched s) t" using s3(2) q1(4) q(2) tu by (simp add: same_sched_def)
  obtain x where x: "ctx_of (ks_sched s3) t = Some x" "sched_view x = sched_view c" using view_SomeD [OF v3 [symmetric] ] t(2) v3 by auto
  have ns: "\<not> stack_locked (ks_sched s3) t" using t(1) stack_locked_view [OF v3] by (simp add: parked_def)
  have c3: "current_threads (ks_sched s3) = current_threads (ks_sched s)" using s3(2) q1(3) cq(2) by (simp add: same_sched_def)
  obtain q2 where q2: "switch_to_thread cpu t (ks_sched s3) = Inr q2" "rri.smp_inv (pend(cpu := True)) {} q2"
    "current_threads q2 = (current_threads (ks_sched s3))(cpu := Some t)" "\<forall>w. w \<noteq> t \<longrightarrow> view q2 w = view (ks_sched s3) w"
    by (rule rri.switch_step [OF rri.smp_inv_same [OF q1(2) s3(2)] cpu x(1)])
      (use sched_viewD [OF x(2)] c c3 cur tu ns t(1) in \<open>auto simp: parked_def\<close>)
  have v2: "vms q2 = vms (ks_sched s)" "cur_sched_ops q2 = RR"
    using switch_to_thread_frame [OF q2(1)] s3(2,4) f1 ti(2) by (simp_all add: framed_def same_sched_def)
  have "has_vmspace q2" using v v2(1) by (simp add: has_vmspace_def)
  then obtain q3 where q3: "eret_to_thread cpu q2 = Inr (t, q3)" "rri.smp_inv pend {} q3" "current_threads q3 = current_threads q2"
    "framed q2 q3" "\<forall>w. map_option state (ctx_of q3 w) = map_option state (ctx_of q2 w)"
    using eret_ok [OF q2(2) cpu(1)] q2(3) cpu(2) by (auto simp: fun_upd_idem)
  define s' where "s' = s3\<lparr>ks_sched := q3\<rparr>"
  have "signal_notific cpu nt True s = Inr (Switched t, s')"
    using tw(1) t(2,3) cur q(1) e2 s3(1) q2(1) q3(1)
    by (auto simp: signal_notific_def current_thread_def get_ctx_def s1_def s'_def)
  moreover have "timer_inv pend s'" using q3(2,4) v2(2) tw(2) s3(3) by (simp add: timer_inv_def s'_def framed_def waiting_counts_def s2_def)
  moreover have "map_option state (ctx_of q3 u) = map_option state (ctx_of q1 u)"
    using q3(5) state_view [of q2 u "ks_sched s3"] q2(4) state_view [of "ks_sched s3" u q1] s3(2) tu by (simp add: same_sched_def)
  ultimately show ?thesis using q1(5) q3(3) q2(3) c3 s3(3) by (auto simp: s'_def s2_def s1_def in_state_of_def)
qed

lemma signal_queue:
  assumes i: "timer_inv pend s" and cpu: "cpu < PLAT_CPU_NUM"
    and n: "notifications s nt = Some n" "not_delivered_notifc_count n = 0" "waiting_threads n = t # ts"
    and t: "parked s nt t" "ctx_of (ks_sched s) t = Some c" "\<not> (ds \<and> (affinity c = NO_AFF \<or> affinity c = int cpu))"
  shows "\<exists>s'. signal_notific cpu nt ds s = Inr (Returned 0, s') \<and> timer_inv pend s' \<and>
    notifications s' = (notifications s)(nt \<mapsto> n\<lparr>waiting_threads := ts, waiting_threads_count := waiting_threads_count n - 1\<rparr>) \<and>
    current_threads (ks_sched s') = current_threads (ks_sched s) \<and> in_state_of s' t = Some TS_READY"
proof -
  have ti: "rri.smp_inv pend {} (ks_sched s)" "cur_sched_ops (ks_sched s) = RR" "waiting_counts s" using i by (auto simp: timer_inv_def)
  define s1 where "s1 = upd_notifc nt (n\<lparr>waiting_threads := ts, waiting_threads_count := waiting_threads_count n - 1\<rparr>) s"
  have tw: "take_waiter nt s = Inr (Some t, s1)" "waiting_counts s1" using take_waiter_first [OF n ti(3)] by (simp_all add: s1_def)
  have c: "state c = TS_WAITING" "th_type c \<noteq> TYPE_IDLE" using parked_ctx [OF t(1) i] t(2) by auto
  obtain q where q: "enqueue_or_bug cpu t (upd_ctx t (\<lambda>c. c\<lparr>state := TS_INTER\<rparr>) (ks_sched s)) s1 = Inr (s1\<lparr>ks_sched := q\<rparr>)"
    "rri.smp_inv pend {} q" "sleeps q = sleeps (ks_sched s)" "cur_sched_ops q = RR" "map_option state (ctx_of q t) = Some TS_READY"
    "same_slice (ks_sched s) q"
    using enqueue_woken [OF ti(1,2) cpu t(2) c] by blast
  define s2 where "s2 = s1\<lparr>ks_sched := q\<rparr>"
  have "timeout_ok s2 nt t" using t(1) q(3) by (simp add: parked_def timeout_ok_def s2_def)
  then obtain s3 where s3: "try_remove_timeout (Some t) nt s2 = Inr s3" "same_sched q (ks_sched s3)" "notifications s3 = notifications s2"
    using try_remove_timeout_ok [of s2 nt t] by (auto simp: s2_def)
  have "signal_notific cpu nt ds s = Inr (Returned 0, s3)"
    using tw(1) t(2,3) q(1) s3(1) by (auto simp: signal_notific_def get_ctx_def s1_def s2_def)
  moreover have "timer_inv pend s3"
    using rri.smp_inv_same [OF q(2) s3(2)] s3(2,3) q(4) tw(2) by (simp add: timer_inv_def same_sched_def waiting_counts_def s2_def)
  moreover have "in_state_of s3 t = Some TS_READY"
    using state_view [of "ks_sched s3" t q] s3(2) q(5) by (simp add: same_sched_def in_state_of_def)
  ultimately show ?thesis using s3(2,3) q(6) by (auto simp: s2_def s1_def same_sched_def same_slice_def)
qed

section \<open>Properties\<close>

definition demo_notifc :: "u32 \<Rightarrow> tid list \<Rightarrow> kstate" where
  "demo_notifc k ws = upd_sleep (Thread 1) (\<lambda>sl. sl\<lparr>pending_notific := Some 7, cb := Some Notific_Timer_Cb\<rparr>)
    (demo_timer\<lparr>notifications := [7 \<mapsto> \<lparr>not_delivered_notifc_count = k, waiting_threads_count = of_nat (length ws), waiting_threads = ws\<rparr>]\<rparr>)"

lemma demo_notifc_same: "same_sched demo_run (ks_sched (demo_notifc k ws))"
  using upd_sleep_same [of "demo_timer\<lparr>notifications := _\<rparr>"] demo_timer_sel(7) by (simp add: demo_notifc_def)

lemma demo_notifc_sel [simp]:
  "notifications (demo_notifc k ws) = [7 \<mapsto> \<lparr>not_delivered_notifc_count = k, waiting_threads_count = of_nat (length ws), waiting_threads = ws\<rparr>]"
  "ctx_of (ks_sched (demo_notifc k ws)) t = ctx_of demo_run t"
  "current_threads (ks_sched (demo_notifc k ws)) = current_threads demo_run"
  by (simp_all add: demo_notifc_def demo_timer_sel)

lemma demo_notifc_inv:
  assumes "length ws < 2 ^ 32"
  shows "timer_inv (\<lambda>_. False) (demo_notifc k ws)"
proof -
  have "waiting_counts (demo_notifc k ws)" using assms by (auto simp: waiting_counts_def unsigned_of_nat take_bit_nat_eq_self)
  then show ?thesis using rri.smp_inv_same [OF demo_run_inv demo_notifc_same] demo_notifc_same [of k ws]
    by (simp add: timer_inv_def same_sched_def)
qed

lemma demo_notifc_vms: "has_vmspace (ks_sched (demo_notifc k ws))"
proof -
  have "has_vmspace demo_run"
    unfolding has_vmspace_def
  proof (intro allI impI)
    fix t ty assume "vms demo_run t = Some (None, Some ty)"
    then show "ty = TYPE_IDLE \<or> ty = TYPE_KERNEL \<or> ty = TYPE_TESTS"
      by (cases t) (auto simp: vms_def demo_run_def sleep_until_def split: if_split_asm)
  qed
  then show ?thesis by (simp add: has_vmspace_def demo_notifc_def demo_timer_sel)
qed

lemma demo_notifc_parked: "parked (demo_notifc k ws) 7 (Thread 1)"
proof -
  have "sleeps demo_run (Thread 1) \<noteq> None" "map_option sleep_cpu (sleeps demo_run (Thread 1)) = Some 0"
    by (simp_all add: sleeps_def demo_run_def sleep_until_def)
  then have "timeout_ok (demo_notifc k ws) 7 (Thread 1)"
    by (auto simp: timeout_ok_def demo_notifc_def demo_timer_sel(7) PLAT_CPU_NUM_def)
  then show ?thesis by (simp add: parked_def in_state_of_def stack_locked_def demo_run_ctx)
qed



text \<open>
  C29: Signalling. A signal that finds a pending one or no waiting thread adds one to the pending
  signals. Otherwise it takes the thread that has waited longest, provided no CPU uses its kernel
  stack: with direct switch and a suitable affinity that thread gets the CPU at once and the
  signalling thread becomes ready; else the thread becomes ready and the call returns 0. In all
  cases the scheduler and the counters stay consistent.
\<close>

theorem signal_notific_fifo:
  assumes i: "timer_inv pend s" and cpu: "cpu < PLAT_CPU_NUM" "\<not> pend cpu" and v: "has_vmspace (ks_sched s)"
    and cur: "current_threads (ks_sched s) cpu = Some u" and n: "notifications s nt = Some n"
  shows "(0 < not_delivered_notifc_count n \<or> waiting_threads n = [] \<longrightarrow> signal_notific cpu nt ds s =
      Inr (Returned 0, upd_notifc nt (n\<lparr>not_delivered_notifc_count := not_delivered_notifc_count n + 1\<rparr>) s)) \<and>
    (\<forall>t ts c. not_delivered_notifc_count n = 0 \<and> waiting_threads n = t # ts \<and> parked s nt t \<and> ctx_of (ks_sched s) t = Some c \<longrightarrow>
      (\<exists>r s'. signal_notific cpu nt ds s = Inr (r, s') \<and> timer_inv pend s' \<and>
        notifications s' = (notifications s)(nt \<mapsto> n\<lparr>waiting_threads := ts, waiting_threads_count := waiting_threads_count n - 1\<rparr>) \<and>
        (if ds \<and> (affinity c = NO_AFF \<or> affinity c = int cpu)
         then r = Switched t \<and> current_threads (ks_sched s') = (current_threads (ks_sched s))(cpu \<mapsto> t) \<and>
           ((\<exists>i. u = Idle i) \<or> in_state_of s' u = Some TS_READY)
         else r = Returned 0 \<and> current_threads (ks_sched s') = current_threads (ks_sched s) \<and> in_state_of s' t = Some TS_READY)))"
proof (intro conjI impI allI)
  assume a: "0 < not_delivered_notifc_count n \<or> waiting_threads n = []"
  have "unat (waiting_threads_count n) = length (waiting_threads n)" using i n by (auto simp: timer_inv_def waiting_counts_def)
  then have "waiting_threads n = [] \<longrightarrow> waiting_threads_count n = 0" by (auto simp: unsigned_eq_0_iff)
  then show "signal_notific cpu nt ds s = Inr (Returned 0, upd_notifc nt (n\<lparr>not_delivered_notifc_count := not_delivered_notifc_count n + 1\<rparr>) s)"
    using a n by (auto simp: signal_notific_def take_waiter_def)
next
  fix t ts c assume a: "not_delivered_notifc_count n = 0 \<and> waiting_threads n = t # ts \<and> parked s nt t \<and> ctx_of (ks_sched s) t = Some c"
  let ?d = "ds \<and> (affinity c = NO_AFF \<or> affinity c = int cpu)"
  show "\<exists>r s'. signal_notific cpu nt ds s = Inr (r, s') \<and> timer_inv pend s' \<and>
        notifications s' = (notifications s)(nt \<mapsto> n\<lparr>waiting_threads := ts, waiting_threads_count := waiting_threads_count n - 1\<rparr>) \<and>
        (if ?d then r = Switched t \<and> current_threads (ks_sched s') = (current_threads (ks_sched s))(cpu \<mapsto> t) \<and>
           ((\<exists>i. u = Idle i) \<or> in_state_of s' u = Some TS_READY)
         else r = Returned 0 \<and> current_threads (ks_sched s') = current_threads (ks_sched s) \<and> in_state_of s' t = Some TS_READY)"
  proof (cases ?d)
    case True
    then show ?thesis using signal_direct [OF i cpu v cur n, of t ts c] a by auto
  next
    case False
    then show ?thesis using signal_queue [OF i cpu(1) n _ _ _ _ False, of t ts] a by auto
  qed
qed

theorem signal_notific_fifo_witness:
  "\<exists>s'. signal_notific 0 7 True (demo_notifc 0 [Thread 1]) = Inr (Switched (Thread 1), s') \<and>
    in_state_of s' (Thread 0) = Some TS_READY \<and> map_option waiting_threads (notifications s' 7) = Some []"
proof -
  have h: "(0 :: nat) < PLAT_CPU_NUM" "\<not> (\<lambda>_ :: nat. False) 0" "current_threads (ks_sched (demo_notifc 0 [Thread 1])) 0 = Some (Thread 0)"
    "notifications (demo_notifc 0 [Thread 1]) 7 =
      Some \<lparr>not_delivered_notifc_count = 0, waiting_threads_count = 1, waiting_threads = [Thread 1]\<rparr>"
    "ctx_of (ks_sched (demo_notifc 0 [Thread 1])) (Thread 1) = Some (demo_ctx 1 TYPE_USER TS_WAITING KS_FREE)"
    by (simp_all add: PLAT_CPU_NUM_def demo_run_ctx)
  show ?thesis
    using signal_notific_fifo [OF demo_notifc_inv h(1,2) demo_notifc_vms h(3,4), of True] demo_notifc_parked h(5) by auto
qed

text \<open>Two user threads running on CPU 0 and CPU 1, and an empty notification.\<close>

fun race_threads :: "tid \<Rightarrow> thread option" where
  "race_threads (Idle i) = (if i < 4 then Some (zero_thread\<lparr>thread_ctx := Some (demo_ctx 9 TYPE_IDLE TS_INTER KS_FREE)\<rparr>) else None)"
| "race_threads (Thread i) =
    (if i < 2 then Some (zero_thread\<lparr>thread_ctx := Some ((demo_ctx i TYPE_USER TS_RUNNING KS_LOCKED)\<lparr>cpuid := of_nat i\<rparr>), th_vmspace := Some 0\<rparr>)
     else None)"

definition race_start :: kstate where
  "race_start = boot_kstate\<lparr>notifications := [7 \<mapsto> \<lparr>not_delivered_notifc_count = 0, waiting_threads_count = 0, waiting_threads = []\<rparr>],
    ks_sched := boot_sched\<lparr>threads := race_threads, current_threads := (\<lambda>_. None)(0 := Some (Thread 0), 1 := Some (Thread 1)),
      sched_conts := [0 \<mapsto> 1, 1 \<mapsto> 1, 9 \<mapsto> 1]\<rparr>\<rparr>"

lemma race_start_inv: "timer_inv (\<lambda>_. False) race_start"
proof -
  let ?q = "ks_sched race_start"
  have c: "ctx_of ?q t = (case t of Idle i \<Rightarrow> if i < 4 then Some (demo_ctx 9 TYPE_IDLE TS_INTER KS_FREE) else None
    | Thread i \<Rightarrow> if i < 2 then Some ((demo_ctx i TYPE_USER TS_RUNNING KS_LOCKED)\<lparr>cpuid := of_nat i\<rparr>) else None)" for t
    by (cases t) (auto simp: ctx_of_def race_start_def)
  have q: "current_threads ?q k = (if k = 1 then Some (Thread 1) else if k = 0 then Some (Thread 0) else None)"
    "sched_conts ?q = [0 \<mapsto> 1, 1 \<mapsto> 1, 9 \<mapsto> 1]" "rr_ready_queue ?q k = []" "cur_sched_ops ?q = RR" for k
    by (simp_all add: race_start_def boot_sched_def)
  have "rr.queue_inv ?q" by (auto simp: rr.queue_inv_def ready_on_def c q split: tid.splits if_splits)
  moreover have "ctxs_ok ?q"
    by (auto simp: ctxs_ok_def ctx_ok_def c q PLAT_CPU_NUM_def MAX_PRIO_def less_2_cases_iff split: tid.splits if_splits)
  moreover have "owner_inv (\<lambda>_. False) {} ?q"
    by (auto simp: owner_inv_def left_behind_def stack_locked_def runs_on_def c q PLAT_CPU_NUM_def split: if_splits)
  ultimately have "rri.smp_inv (\<lambda>_. False) {} ?q" by (simp add: rri.smp_inv_def)
  then show ?thesis using q(4) by (auto simp: timer_inv_def waiting_counts_def race_start_def)
qed

lemma race_run:
  "case wait_block 0 5 7 \<lparr>not_delivered_notifc_count = 0, waiting_threads_count = 0, waiting_threads = []\<rparr> None race_start of
    Inl _ \<Rightarrow> False
  | Inr s1 \<Rightarrow> (case signal_notific 1 7 True s1 of Inl _ \<Rightarrow> False | Inr (r, s2) \<Rightarrow> r = Switched (Thread 0) \<and>
      uses_stack ((\<lambda>_. False)(0 := True)) (ks_sched s2) 0 (Thread 0) \<and> uses_stack ((\<lambda>_. False)(0 := True)) (ks_sched s2) 1 (Thread 0))"
  by code_simp


end
