(* ===== verification/Locks.thy ===== *)
theory Locks
  imports Threads
begin

text \<open>
  The spin locks: ticket locks (\<^verbatim>\<open>kernel/arch/aarch64/sync/ticket.c\<close>) and
  reader-writer locks (\<^verbatim>\<open>kernel/arch/aarch64/sync/rwlock.c\<close>), one instruction that
  touches the lock at a time, in every interleaving of the CPUs. The other theories take a section
  under a lock as one step; here the locks are shown to justify this.

  A load-exclusive (\<^verbatim>\<open>ldaxr\<close>, \<^verbatim>\<open>ldxr\<close>) sets the monitor of the CPU and a
  store-exclusive (\<^verbatim>\<open>stxr\<close>, \<^verbatim>\<open>stlxr\<close>) succeeds only while it is set; a store to the
  word by any CPU clears all monitors. A store-exclusive may also fail for no reason (\<open>ok = False\<close>).
  Memory is sequentially consistent: the acquire and release forms and the barriers of the code
  provide this for the accesses to a lock.
\<close>

section \<open>Lock protocols\<close>

text \<open>Any CPU may execute its next instruction; the second argument resolves its choices.\<close>

inductive runs_of :: "(nat \<Rightarrow> 'o \<Rightarrow> 's \<Rightarrow> 's option) \<Rightarrow> 's \<Rightarrow> 's \<Rightarrow> bool" for instr where
  refl: "runs_of instr s s"
| step: "runs_of instr s s1 \<Longrightarrow> k < PLAT_CPU_NUM \<Longrightarrow> instr k ok s1 = Some s2 \<Longrightarrow> runs_of instr s s2"

fun exec :: "(nat \<Rightarrow> 'o \<Rightarrow> 's \<Rightarrow> 's option) \<Rightarrow> (nat \<times> 'o) list \<Rightarrow> 's \<Rightarrow> 's option" where
  "exec instr [] s = Some s"
| "exec instr ((k, ok) # is) s = (if k < PLAT_CPU_NUM then case instr k ok s of None \<Rightarrow> None | Some s1 \<Rightarrow> exec instr is s1 else None)"

lemma exec_runs: "runs_of instr s s1 \<Longrightarrow> exec instr is s1 = Some s2 \<Longrightarrow> runs_of instr s s2"
proof (induction "is" arbitrary: s1)
  case (Cons i "is")
  then show ?case using runs_of.step [of instr s s1 "fst i" "snd i"] by (cases i) (auto split: if_splits option.splits)
qed simp

text \<open>
  What a lock promises: an invariant that holds at the start, is kept by every step of every CPU,
  and excludes every conflict. Then no reachable state has a conflict.
\<close>

locale lock_protocol =
  fixes instr :: "nat \<Rightarrow> 'o \<Rightarrow> 's \<Rightarrow> 's option"
    and start :: "'s \<Rightarrow> bool" and inv :: "'s \<Rightarrow> bool" and conflict :: "'s \<Rightarrow> bool"
  assumes inv_start: "start s \<Longrightarrow> inv s"
    and inv_instr: "inv s \<Longrightarrow> k < PLAT_CPU_NUM \<Longrightarrow> instr k ok s = Some s' \<Longrightarrow> inv s'"
    and inv_conflict: "inv s \<Longrightarrow> \<not> conflict s"
begin

lemma inv_runs: "runs_of instr s s' \<Longrightarrow> inv s \<Longrightarrow> inv s'"
  by (induction rule: runs_of.induct) (use inv_instr in blast)+

lemma no_conflict: "start s \<Longrightarrow> runs_of instr s s' \<Longrightarrow> \<not> conflict s'"
  using inv_start inv_runs inv_conflict by blast

end

section \<open>Ticket locks\<close>

record lock_impl =
  lk_owner :: u32
  lk_next :: u32

text \<open>
  Where a CPU is: outside, at one of the instructions of \<^verbatim>\<open>lock\<close>, \<^verbatim>\<open>try_lock\<close> or
  \<^verbatim>\<open>unlock\<close> with the values it has in registers, or inside the critical section with its
  ticket. \<open>Refused\<close>: \<^verbatim>\<open>try_lock\<close> has returned \<open>-1\<close>.
\<close>

datatype ticket_pc = Outside | Refused | Lock_ldaxr | Lock_stxr u32 | Lock_ldar u32
  | Try_ldaxr | Try_ldar u32 | Try_stxr u32 | Inside u32 | Unlock_load u32 | Unlock_store u32 u32

record ticket_state =
  tk_lock :: lock_impl
  monitor :: "nat \<Rightarrow> bool"
  tk_pc :: "nat \<Rightarrow> ticket_pc"

definition lock_init :: lock_impl where
  "lock_init = \<lparr>lk_owner = 0, lk_next = 0\<rparr>"

definition goto_tk :: "nat \<Rightarrow> ticket_pc \<Rightarrow> ticket_state \<Rightarrow> ticket_state" where
  "goto_tk k p s = s\<lparr>tk_pc := (tk_pc s)(k := p)\<rparr>"

definition take_ticket :: "nat \<Rightarrow> u32 \<Rightarrow> ticket_state \<Rightarrow> ticket_state" where
  "take_ticket k newval s = s\<lparr>tk_lock := (tk_lock s)\<lparr>lk_next := newval\<rparr>, monitor := (\<lambda>_. False)\<rparr>"

definition lock_instr :: "nat \<Rightarrow> bool \<Rightarrow> ticket_state \<Rightarrow> ticket_state option" where
  "lock_instr k ok s = (case tk_pc s k of
     Lock_ldaxr \<Rightarrow> Some (goto_tk k (Lock_stxr (lk_next (tk_lock s))) (s\<lparr>monitor := (monitor s)(k := True)\<rparr>))
   | Lock_stxr lockval \<Rightarrow>
       if ok \<and> monitor s k then Some (goto_tk k (Lock_ldar lockval) (take_ticket k (lockval + 1) s))
       else Some (goto_tk k Lock_ldaxr (s\<lparr>monitor := (monitor s)(k := False)\<rparr>))
   | Lock_ldar lockval \<Rightarrow>
       if lockval = lk_owner (tk_lock s) then Some (goto_tk k (Inside lockval) s) else Some s
   | _ \<Rightarrow> None)"

definition try_lock_instr :: "nat \<Rightarrow> bool \<Rightarrow> ticket_state \<Rightarrow> ticket_state option" where
  "try_lock_instr k ok s = (case tk_pc s k of
     Try_ldaxr \<Rightarrow> Some (goto_tk k (Try_ldar (lk_next (tk_lock s))) (s\<lparr>monitor := (monitor s)(k := True)\<rparr>))
   | Try_ldar lockval \<Rightarrow>
       if lockval = lk_owner (tk_lock s) then Some (goto_tk k (Try_stxr lockval) s) else Some (goto_tk k Refused s)
   | Try_stxr lockval \<Rightarrow>
       if ok \<and> monitor s k then Some (goto_tk k (Inside lockval) (take_ticket k (lockval + 1) s))
       else Some (goto_tk k Refused (s\<lparr>monitor := (monitor s)(k := False)\<rparr>))
   | _ \<Rightarrow> None)"

definition unlock_instr :: "nat \<Rightarrow> ticket_state \<Rightarrow> ticket_state option" where
  "unlock_instr k s = (case tk_pc s k of
     Unlock_load v \<Rightarrow> Some (goto_tk k (Unlock_store v (lk_owner (tk_lock s))) s)
   | Unlock_store v ownerval \<Rightarrow>
       Some (goto_tk k Outside (s\<lparr>tk_lock := (tk_lock s)\<lparr>lk_owner := ownerval + 1\<rparr>\<rparr>))
   | _ \<Rightarrow> None)"

definition is_locked :: "lock_impl \<Rightarrow> bool" where
  "is_locked l = (lk_owner l < lk_next l)"

text \<open>
  A CPU outside calls \<^verbatim>\<open>lock\<close> (\<open>ok\<close>) or \<^verbatim>\<open>try_lock\<close>, a CPU inside calls
  \<^verbatim>\<open>unlock\<close>, and a CPU within one of these executes its next instruction.
\<close>

definition ticket_instr :: "nat \<Rightarrow> bool \<Rightarrow> ticket_state \<Rightarrow> ticket_state option" where
  "ticket_instr k ok s = (case tk_pc s k of
     Outside \<Rightarrow> Some (goto_tk k (if ok then Lock_ldaxr else Try_ldaxr) s)
   | Refused \<Rightarrow> Some (goto_tk k Outside s)
   | Inside v \<Rightarrow> Some (goto_tk k (Unlock_load v) s)
   | Lock_ldaxr \<Rightarrow> lock_instr k ok s | Lock_stxr _ \<Rightarrow> lock_instr k ok s | Lock_ldar _ \<Rightarrow> lock_instr k ok s
   | Try_ldaxr \<Rightarrow> try_lock_instr k ok s | Try_ldar _ \<Rightarrow> try_lock_instr k ok s | Try_stxr _ \<Rightarrow> try_lock_instr k ok s
   | Unlock_load _ \<Rightarrow> unlock_instr k s | Unlock_store _ _ \<Rightarrow> unlock_instr k s)"

text \<open>The ticket a CPU has, and whether it is in the critical section or on its way out.\<close>

fun ticket_of :: "ticket_pc \<Rightarrow> u32 option" where
  "ticket_of (Lock_ldar v) = Some v"
| "ticket_of (Inside v) = Some v"
| "ticket_of (Unlock_load v) = Some v"
| "ticket_of (Unlock_store v _) = Some v"
| "ticket_of _ = None"

fun holds :: "ticket_pc \<Rightarrow> bool" where
  "holds (Inside _) = True"
| "holds (Unlock_load _) = True"
| "holds (Unlock_store _ _) = True"
| "holds _ = False"

text \<open>
  The lock is a queue of CPUs: the \<open>i\<close>-th has the ticket \<open>owner + i\<close>, and only the first can be in
  the critical section.
\<close>

definition pc_ok :: "lock_impl \<Rightarrow> bool \<Rightarrow> nat list \<Rightarrow> nat \<Rightarrow> ticket_pc \<Rightarrow> bool" where
  "pc_ok l m Q k p = ((k \<in> set Q \<longleftrightarrow> ticket_of p \<noteq> None) \<and> (holds p \<longrightarrow> hd Q = k) \<and>
    (case p of Unlock_store _ ow \<Rightarrow> ow = lk_owner l
     | Lock_stxr v \<Rightarrow> m \<longrightarrow> v = lk_next l | Try_ldar v \<Rightarrow> m \<longrightarrow> v = lk_next l
     | Try_stxr v \<Rightarrow> m \<longrightarrow> v = lk_next l \<and> Q = [] | _ \<Rightarrow> True))"

definition ticket_queue :: "ticket_state \<Rightarrow> nat list \<Rightarrow> bool" where
  "ticket_queue s Q = (distinct Q \<and> set Q \<subseteq> {..<PLAT_CPU_NUM} \<and>
    lk_next (tk_lock s) = lk_owner (tk_lock s) + of_nat (length Q) \<and>
    (\<forall>i < length Q. ticket_of (tk_pc s (Q ! i)) = Some (lk_owner (tk_lock s) + of_nat i)) \<and>
    (\<forall>k. pc_ok (tk_lock s) (monitor s k) Q k (tk_pc s k)))"

definition queue_after :: "nat \<Rightarrow> ticket_pc \<Rightarrow> ticket_pc \<Rightarrow> nat list \<Rightarrow> nat list" where
  "queue_after k p p' Q =
    (if ticket_of p = None \<and> ticket_of p' \<noteq> None then Q @ [k]
     else if ticket_of p \<noteq> None \<and> ticket_of p' = None then tl Q else Q)"

lemma goto_tk_sel [simp]:
  "tk_lock (goto_tk k p s) = tk_lock s" "monitor (goto_tk k p s) = monitor s" "tk_pc (goto_tk k p s) = (tk_pc s)(k := p)"
  by (simp_all add: goto_tk_def)

lemma take_ticket_sel [simp]:
  "tk_lock (take_ticket k v s) = (tk_lock s)\<lparr>lk_next := v\<rparr>" "monitor (take_ticket k v s) = (\<lambda>_. False)" "tk_pc (take_ticket k v s) = tk_pc s"
  by (simp_all add: take_ticket_def)

text \<open>A step that neither takes nor gives back a ticket.\<close>

lemma queue_silent:
  assumes q: "ticket_queue s Q" and t: "ticket_of p = ticket_of (tk_pc s k)" and p: "pc_ok (tk_lock s) (m k) Q k p"
    and m: "\<And>j. j \<noteq> k \<Longrightarrow> m j = monitor s j"
  shows "ticket_queue (goto_tk k p (s\<lparr>monitor := m\<rparr>)) Q"
  using assms by (auto simp: ticket_queue_def)

lemma queue_goto:
  assumes "ticket_queue s Q" "ticket_of p = ticket_of (tk_pc s k)" "pc_ok (tk_lock s) (monitor s k) Q k p"
  shows "ticket_queue (goto_tk k p s) Q"
  using queue_silent [OF assms(1,2), of "monitor s"] assms(3) by simp

lemma queue_take:
  assumes q: "ticket_queue s Q" and k: "k < PLAT_CPU_NUM" "ticket_of (tk_pc s k) = None"
    and v: "v = lk_next (tk_lock s)" and p: "p = Lock_ldar v \<or> p = Inside v \<and> Q = []"
  shows "ticket_queue (goto_tk k p (take_ticket k (v + 1) s)) (Q @ [k])"
proof -
  have kQ: "k \<notin> set Q" using q k(2) by (auto simp: ticket_queue_def pc_ok_def)
  have tp: "ticket_of p = Some (lk_owner (tk_lock s) + of_nat (length Q))" using p v q by (auto simp: ticket_queue_def)
  let ?s = "goto_tk k p (take_ticket k (v + 1) s)"
  have t: "ticket_of (tk_pc ?s ((Q @ [k]) ! i)) = Some (lk_owner (tk_lock s) + of_nat i)" if "i < length (Q @ [k])" for i
  proof (cases "i < length Q")
    case True
    then have "Q ! i \<noteq> k" using kQ nth_mem by blast
    then show ?thesis using True q by (simp add: nth_append ticket_queue_def)
  next
    case False
    then show ?thesis using that tp by (simp add: nth_append less_Suc_eq)
  qed
  have "pc_ok (tk_lock ?s) (monitor ?s j) (Q @ [k]) j (tk_pc ?s j)" for j
  proof (cases "j = k")
    case True
    then show ?thesis using p by (auto simp: pc_ok_def)
  next
    case False
    then have "pc_ok (tk_lock s) (monitor s j) Q j (tk_pc s j)" using q by (simp add: ticket_queue_def)
    moreover have "Q \<noteq> []" if "holds (tk_pc s j)"
      using that calculation by (cases "tk_pc s j") (auto simp: pc_ok_def)
    ultimately show ?thesis using False by (auto simp: pc_ok_def split: ticket_pc.splits)
  qed
  then show ?thesis using q k kQ v t by (auto simp: ticket_queue_def)
qed

lemma queue_leave:
  assumes q: "ticket_queue s Q" and p: "tk_pc s k = Unlock_store v ow"
  shows "ticket_queue (goto_tk k Outside (s\<lparr>tk_lock := (tk_lock s)\<lparr>lk_owner := ow + 1\<rparr>\<rparr>)) (tl Q)"
proof -
  have k: "k \<in> set Q" "hd Q = k" "ow = lk_owner (tk_lock s)"
    using q p by (auto simp: ticket_queue_def pc_ok_def dest!: spec [of _ k])
  then obtain Q' where Q: "Q = k # Q'" by (cases Q) auto
  let ?s = "goto_tk k Outside (s\<lparr>tk_lock := (tk_lock s)\<lparr>lk_owner := ow + 1\<rparr>\<rparr>)"
  have d: "k \<notin> set Q'" "distinct Q'" using q Q by (auto simp: ticket_queue_def)
  have t: "ticket_of (tk_pc ?s (Q' ! i)) = Some (ow + 1 + of_nat i)" if "i < length Q'" for i
  proof -
    have "Q' ! i \<noteq> k" using d that nth_mem by blast
    moreover have "ticket_of (tk_pc s (Q ! Suc i)) = Some (lk_owner (tk_lock s) + of_nat (Suc i))"
      using q that Q by (simp only: ticket_queue_def length_Cons Suc_less_eq)
    ultimately show ?thesis using Q k(3) by (simp add: algebra_simps)
  qed
  have "pc_ok (tk_lock ?s) (monitor ?s j) Q' j (tk_pc ?s j)" for j
  proof (cases "j = k")
    case True
    then show ?thesis using d by (simp add: pc_ok_def)
  next
    case False
    then have "pc_ok (tk_lock s) (monitor s j) Q j (tk_pc s j)" using q by (simp add: ticket_queue_def)
    then show ?thesis using False Q by (auto simp: pc_ok_def split: ticket_pc.splits)
  qed
  then show ?thesis using q Q k d t by (auto simp: ticket_queue_def algebra_simps)
qed

text \<open>Tickets in the queue do not wrap around: the ticket being served is the first.\<close>

lemma queue_served:
  assumes q: "ticket_queue s Q" and p: "tk_pc s k = Lock_ldar v" "v = lk_owner (tk_lock s)"
  shows "hd Q = k"
proof -
  have "k \<in> set Q" using q p by (auto simp: ticket_queue_def pc_ok_def dest!: spec [of _ k])
  then obtain i where i: "i < length Q" "Q ! i = k" by (auto simp: in_set_conv_nth)
  have "length Q \<le> PLAT_CPU_NUM" using q card_mono [of "{..<PLAT_CPU_NUM}" "set Q"] by (simp add: ticket_queue_def distinct_card)
  then have b: "i < 2 ^ 32" using i(1) by (simp add: PLAT_CPU_NUM_def)
  have "ticket_of (tk_pc s (Q ! i)) = Some (lk_owner (tk_lock s) + of_nat i)" using q i(1) by (simp add: ticket_queue_def)
  then have "(of_nat i :: u32) = 0" using i(2) p by simp
  then have "unat (of_nat i :: u32) = 0" by simp
  then have "i = 0" using b by (simp add: unsigned_of_nat take_bit_nat_eq_self)
  then show ?thesis using i by (simp add: hd_conv_nth)
qed

lemma queue_instr:
  assumes q: "ticket_queue s Q" and k: "k < PLAT_CPU_NUM" and i: "ticket_instr k ok s = Some s'"
  shows "ticket_queue s' (queue_after k (tk_pc s k) (tk_pc s' k) Q)"
proof -
  have ok: "pc_ok (tk_lock s) (monitor s k) Q k (tk_pc s k)" using q by (simp add: ticket_queue_def)
  show ?thesis
  proof (cases "tk_pc s k")
    case Lock_ldaxr
    then show ?thesis using i ok queue_silent [OF q, of "Lock_stxr (lk_next (tk_lock s))" k "(monitor s)(k := True)"]
      by (auto simp: ticket_instr_def lock_instr_def queue_after_def pc_ok_def)
  next
    case (Lock_stxr v)
    then show ?thesis using i ok queue_silent [OF q, of Lock_ldaxr k "(monitor s)(k := False)"] queue_take [OF q k, of v "Lock_ldar v"]
      by (auto simp: ticket_instr_def lock_instr_def queue_after_def pc_ok_def split: if_splits)
  next
    case (Lock_ldar v)
    then show ?thesis using i ok q queue_goto [OF q, of "Inside v" k] queue_served [OF q Lock_ldar]
      by (auto simp: ticket_instr_def lock_instr_def queue_after_def pc_ok_def split: if_splits)
  next
    case Try_ldaxr
    then show ?thesis using i ok queue_silent [OF q, of "Try_ldar (lk_next (tk_lock s))" k "(monitor s)(k := True)"]
      by (auto simp: ticket_instr_def try_lock_instr_def queue_after_def pc_ok_def)
  next
    case (Try_ldar v)
    have e: "Q = []" if "lk_next (tk_lock s) = lk_owner (tk_lock s)"
    proof -
      have l: "length Q \<le> PLAT_CPU_NUM" using q card_mono [of "{..<PLAT_CPU_NUM}" "set Q"] by (simp add: ticket_queue_def distinct_card)
      have "(of_nat (length Q) :: u32) = 0" using that q by (simp add: ticket_queue_def)
      then have "unat (of_nat (length Q) :: u32) = 0" by simp
      then show ?thesis using l by (simp add: unsigned_of_nat take_bit_nat_eq_self PLAT_CPU_NUM_def)
    qed
    show ?thesis using i ok Try_ldar e queue_goto [OF q, of "Try_stxr v" k] queue_goto [OF q, of Refused k]
      by (auto simp: ticket_instr_def try_lock_instr_def queue_after_def pc_ok_def split: if_splits)
  next
    case (Try_stxr v)
    then show ?thesis using i ok queue_silent [OF q, of Refused k "(monitor s)(k := False)"] queue_take [OF q k, of v "Inside v"]
      by (auto simp: ticket_instr_def try_lock_instr_def queue_after_def pc_ok_def split: if_splits)
  next
    case (Unlock_store v ow)
    then show ?thesis using i queue_leave [OF q Unlock_store]
      by (auto simp: ticket_instr_def unlock_instr_def queue_after_def)
  qed (use i ok queue_goto [OF q, of _ k] in \<open>auto simp: ticket_instr_def unlock_instr_def queue_after_def pc_ok_def\<close>)
qed

definition ticket_inv :: "ticket_state \<Rightarrow> bool" where
  "ticket_inv s = (\<exists>Q. ticket_queue s Q)"

definition ticket_start :: "ticket_state \<Rightarrow> bool" where
  "ticket_start s = (tk_lock s = lock_init \<and> (\<forall>k. tk_pc s k = Outside))"

definition ticket_conflict :: "ticket_state \<Rightarrow> bool" where
  "ticket_conflict s = (\<exists>j k. j \<noteq> k \<and> holds (tk_pc s j) \<and> holds (tk_pc s k))"

lemma ticket_start_queue: "ticket_start s \<Longrightarrow> ticket_queue s []"
  by (simp add: ticket_start_def ticket_queue_def pc_ok_def lock_init_def)

interpretation tk: lock_protocol ticket_instr ticket_start ticket_inv ticket_conflict
proof unfold_locales
  show "ticket_inv s" if "ticket_start s" for s using that ticket_start_queue by (auto simp: ticket_inv_def)
  show "ticket_inv s'" if "ticket_inv s" "k < PLAT_CPU_NUM" "ticket_instr k ok s = Some s'" for s k ok s'
    using that queue_instr unfolding ticket_inv_def by blast
  show "\<not> ticket_conflict s" if "ticket_inv s" for s
    using that unfolding ticket_inv_def ticket_conflict_def ticket_queue_def pc_ok_def by metis
qed

section \<open>Reader-writer locks\<close>

datatype rw_pc = RW_outside | RW_refused | Read_ldaxr | Read_stxr u32 | Read_try_ldaxr | Read_try_stxr u32 | Reading
  | Read_unlock_ldxr | Read_unlock_stlxr u32 | Write_ldaxr | Write_stxr | Write_try_ldaxr | Write_try_stxr | Writing | Write_unlock_stlr

record rw_state =
  rw_lock :: u32
  rw_monitor :: "nat \<Rightarrow> bool"
  rw_at :: "nat \<Rightarrow> rw_pc"

definition WRITER :: u32 where "WRITER = 0x80000000"

definition rwlock_init :: "u32 option \<Rightarrow> s32 \<times> u32 option" where
  "rwlock_init l = (case l of None \<Rightarrow> (- EINVAL, None) | Some _ \<Rightarrow> (0, Some 0))"

definition goto_rw :: "nat \<Rightarrow> rw_pc \<Rightarrow> rw_state \<Rightarrow> rw_state" where
  "goto_rw k p s = s\<lparr>rw_at := (rw_at s)(k := p)\<rparr>"

definition set_monitor :: "nat \<Rightarrow> bool \<Rightarrow> rw_state \<Rightarrow> rw_state" where
  "set_monitor k b s = s\<lparr>rw_monitor := (rw_monitor s)(k := b)\<rparr>"

definition store_rw :: "u32 \<Rightarrow> rw_state \<Rightarrow> rw_state" where
  "store_rw v s = s\<lparr>rw_lock := v, rw_monitor := (\<lambda>_. False)\<rparr>"

text \<open>Bit 31 of the incremented value tells a reader that there is a writer.\<close>

definition read_lock_instr :: "nat \<Rightarrow> bool \<Rightarrow> rw_state \<Rightarrow> rw_state option" where
  "read_lock_instr k ok s = (case rw_at s k of
     Read_ldaxr \<Rightarrow>
       if bit (rw_lock s + 1) 31 then Some (set_monitor k True s)
       else Some (goto_rw k (Read_stxr (rw_lock s + 1)) (set_monitor k True s))
   | Read_stxr tmp \<Rightarrow>
       if ok \<and> rw_monitor s k then Some (goto_rw k Reading (store_rw tmp s))
       else Some (goto_rw k Read_ldaxr (set_monitor k False s))
   | _ \<Rightarrow> None)"

definition read_try_lock_instr :: "nat \<Rightarrow> bool \<Rightarrow> rw_state \<Rightarrow> rw_state option" where
  "read_try_lock_instr k ok s = (case rw_at s k of
     Read_try_ldaxr \<Rightarrow>
       if bit (rw_lock s + 1) 31 then Some (goto_rw k RW_refused (set_monitor k True s))
       else Some (goto_rw k (Read_try_stxr (rw_lock s + 1)) (set_monitor k True s))
   | Read_try_stxr tmp \<Rightarrow>
       if ok \<and> rw_monitor s k then Some (goto_rw k Reading (store_rw tmp s))
       else Some (goto_rw k RW_refused (set_monitor k False s))
   | _ \<Rightarrow> None)"

definition read_unlock_instr :: "nat \<Rightarrow> bool \<Rightarrow> rw_state \<Rightarrow> rw_state option" where
  "read_unlock_instr k ok s = (case rw_at s k of
     Read_unlock_ldxr \<Rightarrow> Some (goto_rw k (Read_unlock_stlxr (rw_lock s - 1)) (set_monitor k True s))
   | Read_unlock_stlxr tmp \<Rightarrow>
       if ok \<and> rw_monitor s k then Some (goto_rw k RW_outside (store_rw tmp s))
       else Some (goto_rw k Read_unlock_ldxr (set_monitor k False s))
   | _ \<Rightarrow> None)"

definition write_lock_instr :: "nat \<Rightarrow> bool \<Rightarrow> rw_state \<Rightarrow> rw_state option" where
  "write_lock_instr k ok s = (case rw_at s k of
     Write_ldaxr \<Rightarrow>
       if rw_lock s \<noteq> 0 then Some (set_monitor k True s) else Some (goto_rw k Write_stxr (set_monitor k True s))
   | Write_stxr \<Rightarrow>
       if ok \<and> rw_monitor s k then Some (goto_rw k Writing (store_rw WRITER s))
       else Some (goto_rw k Write_ldaxr (set_monitor k False s))
   | _ \<Rightarrow> None)"

definition write_try_lock_instr :: "nat \<Rightarrow> bool \<Rightarrow> rw_state \<Rightarrow> rw_state option" where
  "write_try_lock_instr k ok s = (case rw_at s k of
     Write_try_ldaxr \<Rightarrow>
       if rw_lock s \<noteq> 0 then Some (goto_rw k RW_refused (set_monitor k True s))
       else Some (goto_rw k Write_try_stxr (set_monitor k True s))
   | Write_try_stxr \<Rightarrow>
       if ok \<and> rw_monitor s k then Some (goto_rw k Writing (store_rw WRITER s))
       else Some (goto_rw k RW_refused (set_monitor k False s))
   | _ \<Rightarrow> None)"

definition write_unlock_instr :: "nat \<Rightarrow> rw_state \<Rightarrow> rw_state option" where
  "write_unlock_instr k s = (case rw_at s k of
     Write_unlock_stlr \<Rightarrow> Some (goto_rw k RW_outside (store_rw 0 s))
   | _ \<Rightarrow> None)"

text \<open>The four ways to ask for the lock; \<open>call\<close> is the one that a CPU outside chooses.\<close>

definition rw_instr :: "nat \<Rightarrow> rw_pc \<times> bool \<Rightarrow> rw_state \<Rightarrow> rw_state option" where
  "rw_instr k = (\<lambda>(call, ok) s. case rw_at s k of
     RW_outside \<Rightarrow> if call \<in> {Read_ldaxr, Read_try_ldaxr, Write_ldaxr, Write_try_ldaxr} then Some (goto_rw k call s) else None
   | RW_refused \<Rightarrow> Some (goto_rw k RW_outside s)
   | Reading \<Rightarrow> Some (goto_rw k Read_unlock_ldxr s)
   | Writing \<Rightarrow> Some (goto_rw k Write_unlock_stlr s)
   | Read_ldaxr \<Rightarrow> read_lock_instr k ok s | Read_stxr _ \<Rightarrow> read_lock_instr k ok s
   | Read_try_ldaxr \<Rightarrow> read_try_lock_instr k ok s | Read_try_stxr _ \<Rightarrow> read_try_lock_instr k ok s
   | Read_unlock_ldxr \<Rightarrow> read_unlock_instr k ok s | Read_unlock_stlxr _ \<Rightarrow> read_unlock_instr k ok s
   | Write_ldaxr \<Rightarrow> write_lock_instr k ok s | Write_stxr \<Rightarrow> write_lock_instr k ok s
   | Write_try_ldaxr \<Rightarrow> write_try_lock_instr k ok s | Write_try_stxr \<Rightarrow> write_try_lock_instr k ok s
   | Write_unlock_stlr \<Rightarrow> write_unlock_instr k s)"

fun reading :: "rw_pc \<Rightarrow> bool" where
  "reading Reading = True"
| "reading Read_unlock_ldxr = True"
| "reading (Read_unlock_stlxr _) = True"
| "reading _ = False"

fun writing :: "rw_pc \<Rightarrow> bool" where
  "writing Writing = True"
| "writing Write_unlock_stlr = True"
| "writing _ = False"

text \<open>
  The word counts the readers when there is no writer; a value about to be stored is up to date
  as long as the monitor is set.
\<close>

definition readers :: "rw_state \<Rightarrow> nat set" where
  "readers s = {k. reading (rw_at s k)}"

definition writers :: "rw_state \<Rightarrow> nat set" where
  "writers s = {k. writing (rw_at s k)}"

fun rw_pc_ok :: "u32 \<Rightarrow> rw_pc \<Rightarrow> bool" where
  "rw_pc_ok l (Read_stxr v) = (v = l + 1 \<and> \<not> bit v 31)"
| "rw_pc_ok l (Read_try_stxr v) = (v = l + 1 \<and> \<not> bit v 31)"
| "rw_pc_ok l (Read_unlock_stlxr v) = (v = l - 1)"
| "rw_pc_ok l Write_stxr = (l = 0)"
| "rw_pc_ok l Write_try_stxr = (l = 0)"
| "rw_pc_ok l _ = True"

definition rw_word :: "u32 \<Rightarrow> nat set \<Rightarrow> nat set \<Rightarrow> bool" where
  "rw_word l R W = (R \<subseteq> {..<PLAT_CPU_NUM} \<and> (W = {} \<and> l = of_nat (card R) \<or> R = {} \<and> l = WRITER \<and> (\<exists>k. W = {k})))"

definition rw_inv :: "rw_state \<Rightarrow> bool" where
  "rw_inv s = (rw_word (rw_lock s) (readers s) (writers s) \<and> (\<forall>k. rw_monitor s k \<longrightarrow> rw_pc_ok (rw_lock s) (rw_at s k)))"

definition rw_start :: "rw_state \<Rightarrow> bool" where
  "rw_start s = (rwlock_init (Some 0) = (0, Some (rw_lock s)) \<and> (\<forall>k. rw_at s k = RW_outside))"

definition rw_conflict :: "rw_state \<Rightarrow> bool" where
  "rw_conflict s = (\<exists>j k. j \<noteq> k \<and> writing (rw_at s j) \<and> (writing (rw_at s k) \<or> reading (rw_at s k)))"

lemma goto_rw_sel [simp]:
  "rw_lock (goto_rw k p s) = rw_lock s" "rw_monitor (goto_rw k p s) = rw_monitor s" "rw_at (goto_rw k p s) = (rw_at s)(k := p)"
  "readers (goto_rw k p s) = (if reading p then insert k (readers s) else readers s - {k})"
  "writers (goto_rw k p s) = (if writing p then insert k (writers s) else writers s - {k})"
  by (auto simp: goto_rw_def readers_def writers_def split: if_splits)

lemma store_rw_sel [simp]:
  "rw_lock (store_rw v s) = v" "rw_monitor (store_rw v s) = (\<lambda>_. False)" "rw_at (store_rw v s) = rw_at s"
  "readers (store_rw v s) = readers s" "writers (store_rw v s) = writers s"
  by (simp_all add: store_rw_def readers_def writers_def)

lemma set_monitor_sel [simp]:
  "rw_lock (set_monitor k b s) = rw_lock s" "rw_monitor (set_monitor k b s) = (rw_monitor s)(k := b)" "rw_at (set_monitor k b s) = rw_at s"
  "readers (set_monitor k b s) = readers s" "writers (set_monitor k b s) = writers s"
  by (simp_all add: set_monitor_def readers_def writers_def)

text \<open>A step that does not store.\<close>

lemma rw_silent:
  assumes "rw_inv s" "reading p = reading (rw_at s k)" "writing p = writing (rw_at s k)" "b \<longrightarrow> rw_pc_ok (rw_lock s) p"
  shows "rw_inv (goto_rw k p (set_monitor k b s))"
proof -
  have "readers (goto_rw k p (set_monitor k b s)) = readers s" "writers (goto_rw k p (set_monitor k b s)) = writers s"
    using assms(2,3) by (auto simp: readers_def writers_def)
  then show ?thesis using assms by (auto simp: rw_inv_def)
qed

lemma rw_stay: "rw_inv s \<Longrightarrow> rw_pc_ok (rw_lock s) (rw_at s k) \<Longrightarrow> rw_inv (set_monitor k b s)"
  by (auto simp: rw_inv_def)

lemma rw_goto:
  assumes "rw_inv s" "reading p = reading (rw_at s k)" "writing p = writing (rw_at s k)" "rw_pc_ok (rw_lock s) p"
  shows "rw_inv (goto_rw k p s)"
proof -
  have "readers (goto_rw k p s) = readers s" "writers (goto_rw k p s) = writers s"
    using assms(2,3) by (auto simp: readers_def writers_def)
  then show ?thesis using assms by (auto simp: rw_inv_def)
qed

lemma rw_word_enter:
  assumes w: "rw_word l R W" and k: "k < PLAT_CPU_NUM" "k \<notin> R" "k \<notin> W" and b: "\<not> bit (l + 1) 31"
  shows "rw_word (l + 1) (insert k R) (W - {k})"
proof -
  have f: "finite R" using w finite_subset [of R "{..<PLAT_CPU_NUM}"] by (simp add: rw_word_def)
  have "l \<noteq> WRITER" using b by (auto simp: WRITER_def)
  then show ?thesis using w k f by (auto simp: rw_word_def)
qed

lemma rw_word_leave:
  assumes w: "rw_word l R W" and k: "k \<in> R"
  shows "rw_word (l - 1) (R - {k}) (W - {k})"
proof -
  have f: "finite R" using w finite_subset [of R "{..<PLAT_CPU_NUM}"] by (simp add: rw_word_def)
  have "card R = Suc (card (R - {k}))" using card_Suc_Diff1 [OF f k] by simp
  then show ?thesis using w k by (auto simp: rw_word_def)
qed

lemma rw_word_write:
  assumes w: "rw_word 0 R W"
  shows "rw_word WRITER (R - {k}) (insert k W)"
proof -
  have f: "finite R" and c: "card R \<le> PLAT_CPU_NUM"
    using w finite_subset [of R "{..<PLAT_CPU_NUM}"] card_mono [of "{..<PLAT_CPU_NUM}" R] by (simp_all add: rw_word_def)
  have "(0 :: u32) \<noteq> WRITER" by (simp add: WRITER_def)
  then have "W = {}" "(of_nat (card R) :: u32) = 0" using w by (auto simp: rw_word_def)
  moreover from this(2) have "unat (of_nat (card R) :: u32) = 0" by simp
  then have "card R = 0" using c by (simp add: unsigned_of_nat take_bit_nat_eq_self PLAT_CPU_NUM_def)
  ultimately show ?thesis using f by (auto simp: rw_word_def)
qed

lemma rw_word_unwrite: "rw_word l R W \<Longrightarrow> k \<in> W \<Longrightarrow> rw_word 0 (R - {k}) (W - {k})"
  by (auto simp: rw_word_def)

lemma rw_instr_inv:
  assumes i: "rw_inv s" and k: "k < PLAT_CPU_NUM" and st: "rw_instr k (call, ok) s = Some s'"
  shows "rw_inv s'"
proof -
  have w: "rw_word (rw_lock s) (readers s) (writers s)" and m: "rw_monitor s k \<longrightarrow> rw_pc_ok (rw_lock s) (rw_at s k)"
    using i by (auto simp: rw_inv_def)
  have kr: "k \<in> readers s \<longleftrightarrow> reading (rw_at s k)" "k \<in> writers s \<longleftrightarrow> writing (rw_at s k)" by (simp_all add: readers_def writers_def)
  note steps = rw_instr_def read_lock_instr_def read_try_lock_instr_def read_unlock_instr_def write_lock_instr_def
    write_try_lock_instr_def write_unlock_instr_def
  have store: "rw_inv (goto_rw k p (store_rw v s))"
    if "rw_word v (if reading p then insert k (readers s) else readers s - {k}) (if writing p then insert k (writers s) else writers s - {k})" for p v
    using that by (simp add: rw_inv_def split: if_splits)
  show ?thesis
  proof (cases "rw_at s k")
    case (Read_stxr v)
    then show ?thesis using st m kr rw_word_enter [OF w k] store [of v Reading] rw_silent [OF i, of Read_ldaxr k False]
      by (auto simp: steps split: if_splits)
  next
    case (Read_try_stxr v)
    then show ?thesis using st m kr rw_word_enter [OF w k] store [of v Reading] rw_silent [OF i, of RW_refused k False]
      by (auto simp: steps split: if_splits)
  next
    case (Read_unlock_stlxr v)
    then show ?thesis using st m kr rw_word_leave [OF w, of k] store [of v RW_outside] rw_silent [OF i, of Read_unlock_ldxr k False]
      by (auto simp: steps split: if_splits)
  next
    case Write_stxr
    then show ?thesis using st m kr w rw_word_write [of "readers s" "writers s" k] store [of WRITER Writing] rw_silent [OF i, of Write_ldaxr k False]
      by (auto simp: steps split: if_splits)
  next
    case Write_try_stxr
    then show ?thesis using st m kr w rw_word_write [of "readers s" "writers s" k] store [of WRITER Writing] rw_silent [OF i, of RW_refused k False]
      by (auto simp: steps split: if_splits)
  next
    case Write_unlock_stlr
    then show ?thesis using st kr rw_word_unwrite [OF w, of k] store [of 0 RW_outside] by (auto simp: steps)
  next
    case RW_outside
    then show ?thesis using st rw_goto [OF i, of call k] by (auto simp: steps split: if_splits)
  next
    case RW_refused
    then show ?thesis using st rw_goto [OF i, of RW_outside k] by (auto simp: steps)
  next
    case Reading
    then show ?thesis using st rw_goto [OF i, of Read_unlock_ldxr k] by (auto simp: steps)
  next
    case Writing
    then show ?thesis using st rw_goto [OF i, of Write_unlock_stlr k] by (auto simp: steps)
  qed (use st rw_stay [OF i, of k True] rw_silent [OF i, of _ k True] in \<open>auto simp: steps split: if_splits\<close>)
qed

interpretation rw: lock_protocol rw_instr rw_start rw_inv rw_conflict
proof unfold_locales
  show "rw_inv s" if "rw_start s" for s
    using that by (auto simp: rw_start_def rwlock_init_def rw_inv_def rw_word_def readers_def writers_def)
  show "rw_inv s'" if "rw_inv s" "k < PLAT_CPU_NUM" "rw_instr k c s = Some s'" for s k c s'
    using that rw_instr_inv by (cases c) blast
  show "\<not> rw_conflict s" if "rw_inv s" for s
    using that by (auto simp: rw_inv_def rw_word_def rw_conflict_def readers_def writers_def set_eq_iff)
qed

section \<open>Properties\<close>

definition tk0 :: ticket_state where
  "tk0 = \<lparr>tk_lock = lock_init, monitor = (\<lambda>_. False), tk_pc = (\<lambda>_. Outside)\<rparr>"

definition rw0 :: rw_state where
  "rw0 = \<lparr>rw_lock = 0, rw_monitor = (\<lambda>_. False), rw_at = (\<lambda>_. RW_outside)\<rparr>"

text \<open>CPU 0 takes the lock and CPU 1 queues up behind it; CPU 2 reads and CPU 3 asks to write.\<close>

definition tk_run :: "(nat \<times> bool) list" where
  "tk_run = [(0, True), (1, True), (1, True), (0, True), (0, True), (1, True), (1, True), (1, True), (0, True)]"

definition rw_run :: "(nat \<times> rw_pc \<times> bool) list" where
  "rw_run = [(2, Read_ldaxr, True), (3, Write_ldaxr, True), (2, Read_ldaxr, True), (3, Write_ldaxr, True), (2, Read_ldaxr, True),
    (3, Write_ldaxr, True), (3, Write_ldaxr, True)]"

text \<open>
  C31: Mutual exclusion of ticket locks. From \<^verbatim>\<open>lock_init\<close> on, in every interleaving of the
  instructions of \<^verbatim>\<open>lock\<close>, \<^verbatim>\<open>try_lock\<close> and \<^verbatim>\<open>unlock\<close> on all CPUs, with tickets that
  wrap around and store-exclusives that fail at will, at most one CPU is in the critical section.
\<close>

theorem ticket_lock_exclusive:
  assumes "ticket_start s0" "runs_of ticket_instr s0 s" "holds (tk_pc s j)" "holds (tk_pc s k)"
  shows "j = k"
  using tk.no_conflict [OF assms(1,2)] assms(3,4) by (auto simp: ticket_conflict_def)

theorem ticket_lock_exclusive_witness:
  "\<exists>s. runs_of ticket_instr tk0 s \<and> holds (tk_pc s 0) \<and> \<not> holds (tk_pc s 1) \<and> ticket_of (tk_pc s 1) = Some 1"
proof -
  have "case exec ticket_instr tk_run tk0 of None \<Rightarrow> False | Some s \<Rightarrow> holds (tk_pc s 0) \<and> ticket_of (tk_pc s 1) = Some 1"
    by code_simp
  then obtain s where s: "exec ticket_instr tk_run tk0 = Some s" "holds (tk_pc s 0)" "ticket_of (tk_pc s 1) = Some 1"
    by (cases "exec ticket_instr tk_run tk0") auto
  have "runs_of ticket_instr tk0 s" using exec_runs [OF runs_of.refl s(1)] .
  moreover have "ticket_start tk0" by (simp add: ticket_start_def tk0_def)
  ultimately show ?thesis using ticket_lock_exclusive [of tk0 s 0 1] s(2,3) by auto
qed

text \<open>
  C32: Ticket locks are fair queues. Every reachable state stands for a queue of CPUs without
  repetition; a CPU that takes a ticket goes to its end, only the first CPU can leave it, by
  \<^verbatim>\<open>unlock\<close>, and no other instruction changes it. The first CPU is in the critical section or
  enters it with its next load of \<^verbatim>\<open>owner\<close>.
\<close>

theorem ticket_lock_fifo:
  assumes "ticket_start s0" "runs_of ticket_instr s0 s"
  shows "\<exists>Q. ticket_queue s Q \<and>
    (\<forall>k ok s'. k < PLAT_CPU_NUM \<and> ticket_instr k ok s = Some s' \<longrightarrow> ticket_queue s' (queue_after k (tk_pc s k) (tk_pc s' k) Q)) \<and>
    (Q = [] \<or> holds (tk_pc s (hd Q)) \<or> (\<forall>ok. \<exists>v. ticket_instr (hd Q) ok s = Some (goto_tk (hd Q) (Inside v) s)))"
proof -
  obtain Q where Q: "ticket_queue s Q" using tk.inv_runs [OF assms(2)] tk.inv_start [OF assms(1)] by (auto simp: ticket_inv_def)
  have "\<exists>v. ticket_instr (hd Q) ok s = Some (goto_tk (hd Q) (Inside v) s)" if "Q \<noteq> []" "\<not> holds (tk_pc s (hd Q))" for ok
  proof -
    have "ticket_of (tk_pc s (hd Q)) = Some (lk_owner (tk_lock s))"
      using Q that(1) by (auto simp: ticket_queue_def hd_conv_nth dest!: spec [of _ 0])
    then have "tk_pc s (hd Q) = Lock_ldar (lk_owner (tk_lock s))" using that(2) by (cases "tk_pc s (hd Q)") auto
    then show ?thesis by (auto simp: ticket_instr_def lock_instr_def)
  qed
  then show ?thesis using Q queue_instr by blast
qed

theorem ticket_lock_fifo_witness:
  "\<exists>s Q. runs_of ticket_instr tk0 s \<and> ticket_queue s Q \<and> ticket_of (tk_pc s 0) = Some 0 \<and> Q \<noteq> []"
proof -
  have "case exec ticket_instr tk_run tk0 of None \<Rightarrow> False | Some s \<Rightarrow> ticket_of (tk_pc s 0) = Some 0"
    by code_simp
  then obtain s where s: "exec ticket_instr tk_run tk0 = Some s" "ticket_of (tk_pc s 0) = Some 0"
    by (cases "exec ticket_instr tk_run tk0") auto
  have r: "runs_of ticket_instr tk0 s" using exec_runs [OF runs_of.refl s(1)] .
  have "ticket_start tk0" by (simp add: ticket_start_def tk0_def)
  then obtain Q where "ticket_queue s Q" using ticket_lock_fifo [OF _ r] by blast
  moreover then have "0 \<in> set Q" using s(2) by (auto simp: ticket_queue_def pc_ok_def dest!: spec [of _ 0])
  ultimately show ?thesis using r s(2) by (intro exI [of _ s] exI [of _ Q]) auto
qed

text \<open>
  C33: Reader-writer locks. From \<^verbatim>\<open>rwlock_init\<close> on, in every interleaving of the instructions of
  the six operations, a CPU that writes is alone: no other writes or reads. While nobody writes the
  word is the number of readers.
\<close>

theorem rwlock_exclusive:
  assumes "rw_start s0" "runs_of rw_instr s0 s"
  shows "(writing (rw_at s j) \<longrightarrow> (\<forall>k. k \<noteq> j \<longrightarrow> \<not> writing (rw_at s k) \<and> \<not> reading (rw_at s k)) \<and> rw_lock s = WRITER) \<and>
    ((\<forall>k. \<not> writing (rw_at s k)) \<longrightarrow> rw_lock s = of_nat (card (readers s)))"
proof -
  have i: "rw_inv s" using rw.inv_runs [OF assms(2)] rw.inv_start [OF assms(1)] .
  have "\<not> rw_conflict s" using rw.no_conflict [OF assms] .
  then show ?thesis using i by (auto simp: rw_conflict_def rw_inv_def rw_word_def writers_def)
qed

theorem rwlock_exclusive_witness:
  "\<exists>s. runs_of rw_instr rw0 s \<and> reading (rw_at s 2) \<and> \<not> writing (rw_at s 3)"
proof -
  have "case exec rw_instr rw_run rw0 of None \<Rightarrow> False | Some s \<Rightarrow> reading (rw_at s 2)" by code_simp
  then obtain s where s: "exec rw_instr rw_run rw0 = Some s" "reading (rw_at s 2)" by (cases "exec rw_instr rw_run rw0") auto
  have r: "runs_of rw_instr rw0 s" using exec_runs [OF runs_of.refl s(1)] .
  have "rw_start rw0" by (simp add: rw_start_def rw0_def rwlock_init_def)
  then have "\<not> writing (rw_at s 3)" using rwlock_exclusive [OF _ r, of 3] s(2) by auto
  then show ?thesis using r s(2) by blast
qed

text \<open>
  \<^verbatim>\<open>is_locked\<close> compares the counters as numbers: at the wrap-around of the tickets it calls a
  lock free that a CPU holds.
\<close>

lemma is_locked_wraps:
  "ticket_queue (tk0\<lparr>tk_lock := \<lparr>lk_owner = -1, lk_next = 0\<rparr>, tk_pc := (tk_pc tk0)(0 := Inside (-1))\<rparr>) [0]"
  "\<not> is_locked \<lparr>lk_owner = -1, lk_next = 0\<rparr>"
  by (simp_all add: ticket_queue_def pc_ok_def tk0_def PLAT_CPU_NUM_def is_locked_def)

end
