(* ===== verification/Pointer_Tree.thy ===== *)
theory Pointer_Tree
  imports Main
begin

text \<open>
  Trees of arrays of pointers, as the radix tree and the page tables build them in a heap:
  \<open>sl p k\<close> is entry \<open>k\<close> of node \<open>p\<close>, \<open>0\<close> the null pointer, and a list of indices leads from the
  root to an entry by a fold. The laws say what a changed entry and a new node do to all walks.
\<close>

locale pointer_tree =
  fixes levels width :: nat
  assumes some_level: "0 < levels"
begin

definition idx :: "nat list \<Rightarrow> bool" where
  "idx is = (set is \<subseteq> {..<width})"

text \<open>Inner nodes are in \<open>D\<close>, and different paths lead to different inner nodes.\<close>

definition shaped :: "('p :: zero \<Rightarrow> nat \<Rightarrow> 'p) \<Rightarrow> 'p set \<Rightarrow> 'p \<Rightarrow> bool" where
  "shaped sl D p = (p \<noteq> 0 \<and> (\<forall>k. sl 0 k = 0) \<and>
    (\<forall>is. idx is \<and> length is < levels \<and> foldl sl p is \<noteq> 0 \<longrightarrow> foldl sl p is \<in> D) \<and>
    (\<forall>is js. idx is \<and> idx js \<and> length is < levels \<and> length js < levels \<and>
      foldl sl p is \<noteq> 0 \<and> foldl sl p is = foldl sl p js \<longrightarrow> is = js))"

lemma idx_simps [simp]: "idx []" "idx (k # is) \<longleftrightarrow> k < width \<and> idx is" "idx (is @ js) \<longleftrightarrow> idx is \<and> idx js"
  by (auto simp: idx_def)

lemma shaped_root: "shaped sl D p \<Longrightarrow> p \<noteq> 0 \<and> p \<in> D"
  using some_level unfolding shaped_def by (metis foldl_Nil idx_simps(1) list.size(3))

lemma shaped_node: "shaped sl D p \<Longrightarrow> idx is \<Longrightarrow> length is < levels \<Longrightarrow> foldl sl p is \<noteq> 0 \<Longrightarrow> foldl sl p is \<in> D"
  unfolding shaped_def by blast

lemma shaped_inj:
  "\<lbrakk>shaped sl D p; idx is; idx js; length is < levels; length js < levels; foldl sl p is \<noteq> 0; foldl sl p is = foldl sl p js\<rbrakk> \<Longrightarrow> is = js"
  unfolding shaped_def by blast

lemma walk_null: "\<forall>k. sl 0 k = 0 \<Longrightarrow> foldl sl (0 :: 'p :: zero) is = 0"
  by (induction "is") simp_all

lemma shaped_null: "shaped sl D p \<Longrightarrow> foldl sl 0 is = 0"
  using walk_null unfolding shaped_def by blast

text \<open>One entry changed: only walks through that entry change.\<close>

lemma walk_update:
  assumes t: "shaped sl D p" and i: "idx is" "length is < levels" "foldl sl p is = n" "n \<noteq> 0"
    and s: "\<And>q j. sl' q j = (if q = n \<and> j = k then v else sl q j)"
    and js: "idx js" "length js \<le> levels"
  shows "foldl sl' p js =
    (if take (Suc (length is)) js = is @ [k] then foldl sl' v (drop (Suc (length is)) js) else foldl sl p js)"
  using js
proof (induction js rule: rev_induct)
  case Nil
  then show ?case by simp
next
  case (snoc j js)
  then have IH: "foldl sl' p js =
      (if take (Suc (length is)) js = is @ [k] then foldl sl' v (drop (Suc (length is)) js) else foldl sl p js)" by simp
  show ?case
  proof (cases "take (Suc (length is)) js = is @ [k]")
    case True
    then have "Suc (length is) \<le> length js" by (metis length_append_singleton length_take min.cobounded1)
    then show ?thesis using True IH by simp
  next
    case False
    have n: "foldl sl p js = n \<longleftrightarrow> js = is"
    proof
      assume "foldl sl p js = n"
      then have "foldl sl p is = foldl sl p js" "foldl sl p is \<noteq> 0" using i(3,4) by simp_all
      moreover have "idx js" "length js < levels" using snoc.prems by simp_all
      ultimately show "js = is" using shaped_inj [OF t i(1) _ i(2)] by blast
    qed (simp add: i(3))
    have e: "foldl sl' p (js @ [j]) = (if js = is \<and> j = k then v else sl (foldl sl p js) j)"
      using False IH s [of "foldl sl p js" j] n by simp
    have pre: "take (Suc (length is)) (js @ [j]) = is @ [k] \<longleftrightarrow> js = is \<and> j = k"
    proof (cases "Suc (length is) \<le> length js")
      case True
      then show ?thesis using False by auto
    next
      case F: False
      then show ?thesis by (auto simp: take_Cons' dest: arg_cong [of _ _ length])
    qed
    show ?thesis unfolding e pre by simp
  qed
qed

text \<open>A new, empty node hung into an empty entry.\<close>

lemma shaped_insert:
  assumes t: "shaped sl D p" and i: "idx is" "Suc (length is) < levels" "foldl sl p is = n" "n \<noteq> 0"
    and k: "k < width" "sl n k = 0" and q: "q \<notin> D" "q \<noteq> 0" "\<And>j. sl q j = 0"
    and s: "\<And>r j. sl' r j = (if r = n \<and> j = k then q else sl r j)"
  shows "shaped sl' (insert q D) p"
    and "\<And>js. idx js \<Longrightarrow> length js \<le> levels \<Longrightarrow> foldl sl' p js = (if js = is @ [k] then q else foldl sl p js)"
proof -
  have nD: "n \<in> D" using shaped_node [OF t i(1)] i by simp
  have z: "sl' 0 j = 0" for j using t i(4) s by (simp add: shaped_def)
  have qz: "sl' q j = 0" for j using nD q s by auto
  have q0: "foldl sl' q js = (if js = [] then q else 0)" for js
    using walk_null [of sl'] z qz by (cases js) auto
  have old: "foldl sl p (is @ [k]) = 0" using i(3) k(2) by simp
  show w: "foldl sl' p js = (if js = is @ [k] then q else foldl sl p js)" if js: "idx js" "length js \<le> levels" for js
  proof (cases "take (Suc (length is)) js = is @ [k]")
    case True
    have "js = (is @ [k]) @ drop (Suc (length is)) js" using append_take_drop_id [of "Suc (length is)" js] True by simp
    then have "foldl sl p js = 0" using old shaped_null [OF t] by (metis foldl_append)
    moreover have "js = is @ [k] \<longleftrightarrow> drop (Suc (length is)) js = []" using True by (metis append_Nil2 append_take_drop_id drop_all length_append_singleton order_refl)
    ultimately show ?thesis using walk_update [OF t i(1) _ i(3,4) s js] i(2) True q0 by simp
  next
    case False
    then show ?thesis using walk_update [OF t i(1) _ i(3,4) s js] i(2) by auto
  qed
  show "shaped sl' (insert q D) p"
    unfolding shaped_def
  proof (intro conjI allI impI)
    show "p \<noteq> 0" using t by (simp add: shaped_def)
    show "sl' 0 j = 0" for j by (rule z)
    fix js assume "idx js \<and> length js < levels \<and> foldl sl' p js \<noteq> 0"
    then show "foldl sl' p js \<in> insert q D" using w [of js] shaped_node [OF t, of js] by auto
  next
    fix xs ys assume a: "idx xs \<and> idx ys \<and> length xs < levels \<and> length ys < levels \<and> foldl sl' p xs \<noteq> 0 \<and> foldl sl' p xs = foldl sl' p ys"
    have "foldl sl p zs \<noteq> q" if "idx zs" "length zs < levels" for zs using shaped_node [OF t that] q(1,2) by metis
    then have "xs = is @ [k] \<longleftrightarrow> ys = is @ [k]" using a w [of xs] w [of ys] by (metis less_imp_le)
    moreover have "xs = ys" if "xs \<noteq> is @ [k]" "ys \<noteq> is @ [k]"
    proof -
      have "foldl sl p xs = foldl sl' p xs" "foldl sl p ys = foldl sl' p ys" using that a w [of xs] w [of ys] by simp_all
      then have "foldl sl p xs = foldl sl p ys" "foldl sl p xs \<noteq> 0" using a by metis+
      then show ?thesis using a shaped_inj [OF t] by blast
    qed
    ultimately show "xs = ys" by auto
  qed
qed

text \<open>An entry of the last level changed.\<close>

lemma shaped_leaf:
  assumes t: "shaped sl D p" and i: "idx is" "Suc (length is) = levels" "foldl sl p is = n" "n \<noteq> 0"
    and s: "\<And>r j. sl' r j = (if r = n \<and> j = k then v else sl r j)"
  shows "shaped sl' D p"
    and "\<And>js. idx js \<Longrightarrow> length js \<le> levels \<Longrightarrow> foldl sl' p js = (if js = is @ [k] then v else foldl sl p js)"
proof -
  have l: "length is < levels" using i(2) by simp
  show w: "foldl sl' p js = (if js = is @ [k] then v else foldl sl p js)" if "idx js" "length js \<le> levels" for js
  proof -
    have "take (Suc (length is)) js = js" using that(2) i(2) by simp
    then show ?thesis using walk_update [OF t i(1) l i(3,4) s that] i(2) by simp
  qed
  have "foldl sl' p js = foldl sl p js" if "idx js" "length js < levels" for js
    using w [of js] that i(2) by auto
  moreover have "sl' 0 j = 0" for j using t i(4) s by (simp add: shaped_def)
  ultimately show "shaped sl' D p" using t unfolding shaped_def by (metis (no_types, lifting))
qed

text \<open>Any entries of one node of the last level changed.\<close>

lemma shaped_leaf_node:
  assumes t: "shaped sl D p" and i: "idx is" "Suc (length is) = levels" "foldl sl p is = n" "n \<noteq> 0"
    and s: "\<And>r j. r \<noteq> n \<Longrightarrow> sl' r j = sl r j"
  shows "\<And>js. idx js \<Longrightarrow> length js < levels \<Longrightarrow> foldl sl' p js = foldl sl p js" and "shaped sl' D p"
proof -
  show w: "foldl sl' p js = foldl sl p js" if "idx js" "length js < levels" for js
    using that
  proof (induction js rule: rev_induct)
    case (snoc j js)
    then have e: "foldl sl' p js = foldl sl p js" by simp
    have "foldl sl p js \<noteq> n"
    proof
      assume "foldl sl p js = n"
      then have "foldl sl p is = foldl sl p js" "foldl sl p is \<noteq> 0" using i(3,4) by simp_all
      then have "is = js" using shaped_inj [OF t i(1)] i(2) snoc.prems by (metis Suc_lessD idx_simps(3) length_append_singleton lessI)
      then show False using i(2) snoc.prems by simp
    qed
    then show ?case using e s by simp
  qed simp
  have "sl' 0 j = 0" for j using t i(4) s by (simp add: shaped_def)
  then show "shaped sl' D p" using t w unfolding shaped_def by (metis (no_types, lifting))
qed

text \<open>A root without entries.\<close>

lemma shaped_new:
  assumes "p \<noteq> 0" "\<And>k. sl 0 k = 0" "\<And>k. sl p k = 0" "p \<in> D"
  shows "shaped sl D p" and "js \<noteq> [] \<Longrightarrow> foldl sl p js = 0"
proof -
  have w: "foldl sl p js = (if js = [] then p else 0)" for js using walk_null [of sl] assms by (cases js) auto
  then show "js \<noteq> [] \<Longrightarrow> foldl sl p js = 0" by simp
  show "shaped sl D p" using assms w by (auto simp: shaped_def split: if_splits)
qed

end

end
