(* ===== verification/Radix.thy ===== *)
theory Radix
  imports Prelude Pointer_Tree
begin

text \<open>
  The radix tree (\<^verbatim>\<open>kernel/lib/radix.c\<close>) that maps 64-bit keys to pointers: 16 levels of
  nodes with 16 children each, the last level holding the values. Nodes are arrays of pointers in a
  heap; an address is never given out twice, \<open>0\<close> is \<^verbatim>\<open>NULL\<close>, and \<open>ravail\<close> is the number of
  nodes that \<^verbatim>\<open>kzalloc\<close> can still serve.
\<close>

section \<open>Operations\<close>

definition RADIX_NODE_BITS :: nat where "RADIX_NODE_BITS = 4"
definition RADIX_NODE_SIZE :: nat where "RADIX_NODE_SIZE = 16"
definition RADIX_NODE_MASK :: u64 where "RADIX_NODE_MASK = 15"
definition RADIX_LEVELS :: nat where "RADIX_LEVELS = 16"

type_synonym radix_node = "nat list"

record radix_heap =
  rnodes :: "nat \<rightharpoonup> radix_node"
  rnext :: nat
  ravail :: nat

record radix =
  root :: nat
  radix_locked :: bool
  value_deleter :: bool

definition kzalloc_node :: "radix_heap \<Rightarrow> nat \<times> radix_heap" where
  "kzalloc_node h = (if ravail h = 0 then (0, h)
    else (rnext h, h\<lparr>rnodes := (rnodes h)(rnext h \<mapsto> replicate RADIX_NODE_SIZE 0), rnext := rnext h + 1, ravail := ravail h - 1\<rparr>))"

text \<open>\<^verbatim>\<open>new_radix\<close> returns zeroed memory; \<open>served\<close> tells whether \<^verbatim>\<open>kzalloc\<close> had it.\<close>

definition new_radix :: "bool \<Rightarrow> radix res" where
  "new_radix served = bug_on (\<not> served) (Inr \<lparr>root = 0, radix_locked = False, value_deleter = False\<rparr>)"

definition init_radix :: "radix \<Rightarrow> radix_heap \<Rightarrow> (radix \<times> radix_heap) res" where
  "init_radix r h = (case kzalloc_node h of (n, h1) \<Rightarrow>
    bug_on (n = 0) (Inr (r\<lparr>root := n, value_deleter := False, radix_locked := False\<rparr>, h1)))"

definition init_radix_w_deleter :: "radix \<Rightarrow> radix_heap \<Rightarrow> (radix \<times> radix_heap) res" where
  "init_radix_w_deleter r h = bind_res (init_radix r h) (\<lambda>(r1, h1). Inr (r1\<lparr>value_deleter := True\<rparr>, h1))"

definition new_radix_node :: "radix_heap \<Rightarrow> nat option \<times> radix_heap" where
  "new_radix_node h = (case kzalloc_node h of (n, h1) \<Rightarrow> if n = 0 then (None, h1) else (Some n, h1))"

text \<open>The indices of a key, from the root down: \<open>index[15]\<close> to \<open>index[0]\<close>.\<close>

definition radix_index :: "u64 \<Rightarrow> nat \<Rightarrow> nat" where
  "radix_index key i = unat (drop_bit (RADIX_NODE_BITS * i) key AND RADIX_NODE_MASK)"

definition radix_path :: "u64 \<Rightarrow> nat list" where
  "radix_path key = map (radix_index key) (rev [1..<RADIX_LEVELS])"

definition set_child :: "nat \<Rightarrow> nat \<Rightarrow> nat \<Rightarrow> radix_heap \<Rightarrow> radix_heap res" where
  "set_child node k v h = bind_res (deref (rnodes h) node) (\<lambda>cs. bind_res (upd_res cs k v) (\<lambda>cs1.
    Inr (h\<lparr>rnodes := (rnodes h)(node \<mapsto> cs1)\<rparr>)))"

definition get_child :: "nat \<Rightarrow> nat \<Rightarrow> radix_heap \<Rightarrow> nat res" where
  "get_child node k h = bind_res (deref (rnodes h) node) (\<lambda>cs. nth_res cs k)"

text \<open>The loop over the intermediate levels; \<open>None\<close> is the exit with \<open>-ENOMEM\<close>.\<close>

fun add_levels :: "nat list \<Rightarrow> nat \<Rightarrow> radix_heap \<Rightarrow> (nat option \<times> radix_heap) res" where
  "add_levels [] node h = Inr (Some node, h)"
| "add_levels (k # ks) node h =
    bind_res (get_child node k h) (\<lambda>c.
      if c = 0
      then (case new_radix_node h of (None, h1) \<Rightarrow> Inr (None, h1)
        | (Some new, h1) \<Rightarrow> bind_res (set_child node k new h1) (\<lambda>h2. add_levels ks new h2))
      else add_levels ks c h)"

definition radix_add :: "radix \<Rightarrow> u64 \<Rightarrow> nat \<Rightarrow> radix_heap \<Rightarrow> (s32 \<times> radix \<times> radix_heap) res" where
  "radix_add r key val h =
    (if radix_locked r then Inl Deadlock
     else case (if root r = 0 then (case new_radix_node h of (None, h1) \<Rightarrow> (None, r, h1) | (Some n, h1) \<Rightarrow> (Some n, r\<lparr>root := n\<rparr>, h1))
       else (Some (root r), r, h)) of
       (None, r1, h1) \<Rightarrow> Inr (- ENOMEM, r1, h1)
     | (Some node, r1, h1) \<Rightarrow> bind_res (add_levels (radix_path key) node h1) (\<lambda>(leaf, h2).
         case leaf of None \<Rightarrow> Inr (- ENOMEM, r1, h2)
         | Some n \<Rightarrow> bind_res (get_child n (radix_index key 0) h2) (\<lambda>old.
             bug_on (old \<noteq> 0 \<and> val \<noteq> 0)
               (bind_res (set_child n (radix_index key 0) val h2) (\<lambda>h3. Inr (0, r1, h3))))))"

fun get_levels :: "nat list \<Rightarrow> nat \<Rightarrow> radix_heap \<Rightarrow> nat option res" where
  "get_levels [] node h = Inr (Some node)"
| "get_levels (k # ks) node h =
    bind_res (get_child node k h) (\<lambda>c. if c = 0 then Inr None else get_levels ks c h)"

definition radix_get :: "radix \<Rightarrow> u64 \<Rightarrow> radix_heap \<Rightarrow> nat res" where
  "radix_get r key h =
    (if radix_locked r then Inl Deadlock
     else if root r = 0 then Inr 0
     else bind_res (get_levels (radix_path key) (root r) h) (\<lambda>leaf.
       case leaf of None \<Rightarrow> Inr 0 | Some n \<Rightarrow> get_child n (radix_index key 0) h))"

definition radix_del :: "radix \<Rightarrow> u64 \<Rightarrow> radix_heap \<Rightarrow> (s32 \<times> radix \<times> radix_heap) res" where
  "radix_del r key h = radix_add r key 0 h"

text \<open>
  \<^verbatim>\<open>radix_free_node\<close> calls the deleter on the values below a node, here collected in a list;
  \<open>below\<close> counts the levels under the node. It frees none of the nodes.
\<close>

fun concat_res :: "'a list res list \<Rightarrow> 'a list res" where
  "concat_res [] = Inr []"
| "concat_res (r # rs) = bind_res r (\<lambda>xs. bind_res (concat_res rs) (\<lambda>ys. Inr (xs @ ys)))"

fun radix_free_node :: "nat \<Rightarrow> bool \<Rightarrow> nat \<Rightarrow> radix_heap \<Rightarrow> nat list res" where
  "radix_free_node 0 deleter node h =
    (if deleter then concat_res (map (\<lambda>i. bind_res (get_child node i h) (\<lambda>v. Inr (if v \<noteq> 0 then [v] else []))) [0..<RADIX_NODE_SIZE])
     else Inr [])"
| "radix_free_node (Suc below) deleter node h =
    concat_res (map (\<lambda>i. bind_res (get_child node i h) (\<lambda>c. if c \<noteq> 0 then radix_free_node below deleter c h else Inr [])) [0..<RADIX_NODE_SIZE])"

definition radix_free :: "radix \<Rightarrow> radix_heap \<Rightarrow> (s32 \<times> radix \<times> nat list) res" where
  "radix_free r h =
    (if radix_locked r then Inl Deadlock
     else if root r = 0 then Inr (- EINVAL, r\<lparr>radix_locked := True\<rparr>, [])
     else bind_res (radix_free_node (RADIX_LEVELS - 1) (value_deleter r) (root r) h) (\<lambda>vs. Inr (0, r, vs)))"

section \<open>Walks\<close>

text \<open>
  \<open>slot h p k\<close> is entry \<open>k\<close> of node \<open>p\<close>, or \<open>0\<close>. The entry that a list of indices leads to is a
  fold over it; with all 16 indices of a key it is the value.
\<close>

definition slot :: "radix_heap \<Rightarrow> nat \<Rightarrow> nat \<Rightarrow> nat" where
  "slot h p k = (case rnodes h p of None \<Rightarrow> 0 | Some cs \<Rightarrow> if k < length cs then cs ! k else 0)"

interpretation rx: pointer_tree RADIX_LEVELS RADIX_NODE_SIZE
  by unfold_locales (simp add: RADIX_LEVELS_def)

definition heap_ok :: "radix_heap \<Rightarrow> bool" where
  "heap_ok h = (0 < rnext h \<and> (\<forall>p cs. rnodes h p = Some cs \<longrightarrow> 0 < p \<and> p < rnext h \<and> length cs = RADIX_NODE_SIZE))"

definition tree_ok :: "nat \<Rightarrow> radix_heap \<Rightarrow> bool" where
  "tree_ok p h = (heap_ok h \<and> rx.shaped (slot h) (dom (rnodes h)) p)"

lemma slot_zero [simp]: "heap_ok h \<Longrightarrow> slot h 0 k = 0"
  by (cases "rnodes h 0") (auto simp: slot_def heap_ok_def)

lemma walk_zero [simp]: "heap_ok h \<Longrightarrow> foldl (slot h) 0 is = 0"
  by (induction "is") simp_all

lemma tree_node:
  "\<lbrakk>tree_ok p h; rx.idx is; length is < RADIX_LEVELS; foldl (slot h) p is = n; n \<noteq> 0\<rbrakk> \<Longrightarrow> heap_ok h \<and> n \<in> dom (rnodes h)"
  using rx.shaped_node [of "slot h" "dom (rnodes h)" p "is"] unfolding tree_ok_def by blast

lemma get_child_slot:
  assumes "heap_ok h" "p \<in> dom (rnodes h)" "k < RADIX_NODE_SIZE"
  shows "get_child p k h = Inr (slot h p k)"
  using assms by (auto simp: get_child_def slot_def nth_res_def deref_def heap_ok_def)

lemma set_child_slot:
  assumes h: "heap_ok h" and n: "n \<in> dom (rnodes h)" and k: "k < RADIX_NODE_SIZE"
  shows "\<exists>h'. set_child n k v h = Inr h' \<and> heap_ok h' \<and> dom (rnodes h') = dom (rnodes h) \<and> rnext h' = rnext h \<and> ravail h' = ravail h \<and>
    (\<forall>q j. slot h' q j = (if q = n \<and> j = k then v else slot h q j))"
proof -
  obtain cs where cs: "rnodes h n = Some cs" using n by blast
  then have l: "length cs = RADIX_NODE_SIZE" using h by (simp add: heap_ok_def)
  define h' where "h' = h\<lparr>rnodes := (rnodes h)(n \<mapsto> cs[k := v])\<rparr>"
  have "set_child n k v h = Inr h'" using cs l k by (simp add: set_child_def upd_res_def h'_def)
  moreover have "heap_ok h'" using h cs l by (auto simp: heap_ok_def h'_def)
  moreover have "slot h' q j = (if q = n \<and> j = k then v else slot h q j)" for q j using cs l k by (simp add: slot_def h'_def)
  moreover have "dom (rnodes h') = dom (rnodes h)" "rnext h' = rnext h" "ravail h' = ravail h" using cs by (auto simp: h'_def)
  ultimately show ?thesis by blast
qed

lemma new_node_slot:
  assumes h: "heap_ok h" and q: "new_radix_node h = (Some q, h1)"
  shows "heap_ok h1" "q \<notin> dom (rnodes h)" "q \<noteq> 0" "dom (rnodes h1) = insert q (dom (rnodes h))" "slot h1 = slot h"
proof -
  have e: "q = rnext h" "q \<noteq> 0" "h1 = h\<lparr>rnodes := (rnodes h)(rnext h \<mapsto> replicate RADIX_NODE_SIZE 0), rnext := rnext h + 1, ravail := ravail h - 1\<rparr>"
    using q by (auto simp: new_radix_node_def kzalloc_node_def split: if_splits)
  show n: "q \<notin> dom (rnodes h)" using h e by (auto simp: heap_ok_def)
  show "heap_ok h1" using h unfolding e(3) heap_ok_def by (auto simp: less_SucI)
  show "q \<noteq> 0" by (rule e)
  show "dom (rnodes h1) = insert q (dom (rnodes h))" using e by auto
  show "slot h1 = slot h" using n e by (auto simp: slot_def fun_eq_iff split: option.splits)
qed

lemma insert_node:
  assumes t: "tree_ok p h" and i: "rx.idx is" "Suc (length is) < RADIX_LEVELS" "foldl (slot h) p is = n" "n \<noteq> 0"
    and k: "k < RADIX_NODE_SIZE" "slot h n k = 0" and q: "new_radix_node h = (Some q, h1)"
  shows "\<exists>h2. set_child n k q h1 = Inr h2 \<and> tree_ok p h2 \<and> foldl (slot h2) p (is @ [k]) = q \<and> q \<noteq> 0 \<and>
    (\<forall>js. rx.idx js \<and> length js = RADIX_LEVELS \<longrightarrow> foldl (slot h2) p js = foldl (slot h) p js)"
proof -
  have h: "heap_ok h" "n \<in> dom (rnodes h)" using tree_node [OF t i(1)] i by auto
  have sh: "rx.shaped (slot h) (dom (rnodes h)) p" using t by (simp add: tree_ok_def)
  note new = new_node_slot [OF h(1) q]
  obtain h2 where h2: "set_child n k q h1 = Inr h2" "heap_ok h2" "dom (rnodes h2) = insert q (dom (rnodes h))"
    "\<And>r j. slot h2 r j = (if r = n \<and> j = k then q else slot h r j)"
    using set_child_slot [OF new(1) _ k(1), of n q] h(2) new(4,5) by auto
  have qz: "slot h q j = 0" for j using new(2) by (auto simp: slot_def dom_def)
  note ins = rx.shaped_insert [OF sh i k new(2,3) qz h2(4)]
  have "tree_ok p h2" using ins(1) h2(2,3) by (simp add: tree_ok_def)
  moreover have "foldl (slot h2) p (is @ [k]) = q" using ins(2) [of "is @ [k]"] i k by simp
  moreover have "foldl (slot h2) p js = foldl (slot h) p js" if "rx.idx js \<and> length js = RADIX_LEVELS" for js
    using that ins(2) [of js] i(2) by auto
  ultimately show ?thesis using h2(1) new(3) by blast
qed

lemma add_levels_ok:
  assumes "tree_ok p h" "rx.idx (is @ ks)" "Suc (length (is @ ks)) = RADIX_LEVELS" "foldl (slot h) p is = n" "n \<noteq> 0"
  shows "\<exists>leaf h'. add_levels ks n h = Inr (leaf, h') \<and> tree_ok p h' \<and>
    (\<forall>js. rx.idx js \<and> length js = RADIX_LEVELS \<longrightarrow> foldl (slot h') p js = foldl (slot h) p js) \<and>
    (case leaf of None \<Rightarrow> ravail h' = 0 \<and> foldl (slot h) p (is @ ks) = 0 | Some l \<Rightarrow> l \<noteq> 0 \<and> foldl (slot h') p (is @ ks) = l)"
  using assms
proof (induction ks arbitrary: "is" n h)
  case Nil
  then show ?case by (intro exI [of _ "Some n"] exI [of _ h]) auto
next
  case (Cons k ks)
  have h: "heap_ok h" "n \<in> dom (rnodes h)" and k: "k < RADIX_NODE_SIZE"
    using Cons.prems tree_node [OF Cons.prems(1), of "is" n] by auto
  have g: "get_child n k h = Inr (slot h n k)" using get_child_slot [OF h k] .
  show ?case
  proof (cases "slot h n k = 0")
    case False
    have "\<exists>leaf h'. add_levels ks (slot h n k) h = Inr (leaf, h') \<and> tree_ok p h' \<and>
      (\<forall>js. rx.idx js \<and> length js = RADIX_LEVELS \<longrightarrow> foldl (slot h') p js = foldl (slot h) p js) \<and>
      (case leaf of None \<Rightarrow> ravail h' = 0 \<and> foldl (slot h) p ((is @ [k]) @ ks) = 0 | Some l \<Rightarrow> l \<noteq> 0 \<and> foldl (slot h') p ((is @ [k]) @ ks) = l)"
      by (rule Cons.IH) (use Cons.prems False in auto)
    then show ?thesis using g False unfolding append_assoc append_Cons append_Nil by simp
  next
    case True
    show ?thesis
    proof (cases "new_radix_node h")
      case (Pair q h1)
      show ?thesis
      proof (cases q)
        case None
        then have "ravail h1 = 0" "h1 = h" using Pair h(1) by (auto simp: new_radix_node_def kzalloc_node_def heap_ok_def split: if_splits)
        moreover have "foldl (slot h) p (is @ k # ks) = 0" using Cons.prems(4) True h(1) by simp
        ultimately show ?thesis using g True Pair None Cons.prems(1) by (intro exI [of _ None] exI [of _ h]) simp
      next
        case (Some q')
        have len: "Suc (length is) < RADIX_LEVELS" "rx.idx is" using Cons.prems(2,3) by simp_all
        obtain h2 where h2: "set_child n k q' h1 = Inr h2" "tree_ok p h2" "foldl (slot h2) p (is @ [k]) = q'" "q' \<noteq> 0"
          "\<forall>js. rx.idx js \<and> length js = RADIX_LEVELS \<longrightarrow> foldl (slot h2) p js = foldl (slot h) p js"
          using insert_node [OF Cons.prems(1) len(2,1) Cons.prems(4,5) k True] Pair Some by blast
        obtain leaf h3 where h3: "add_levels ks q' h2 = Inr (leaf, h3)" "tree_ok p h3"
          "\<forall>js. rx.idx js \<and> length js = RADIX_LEVELS \<longrightarrow> foldl (slot h3) p js = foldl (slot h2) p js"
          "case leaf of None \<Rightarrow> ravail h3 = 0 \<and> foldl (slot h2) p ((is @ [k]) @ ks) = 0 | Some l \<Rightarrow> l \<noteq> 0 \<and> foldl (slot h3) p ((is @ [k]) @ ks) = l"
          using Cons.IH [OF h2(2) _ _ h2(3,4)] Cons.prems(2,3) by auto
        moreover have "foldl (slot h) p (is @ k # ks) = 0" using Cons.prems(4) True h(1) by simp
        ultimately show ?thesis using g True Pair Some h2(1,5) by (intro exI [of _ leaf] exI [of _ h3]) (auto split: option.splits)
      qed
    qed
  qed
qed

lemma get_levels_ok:
  assumes "tree_ok p h" "rx.idx (is @ ks)" "length (is @ ks) < RADIX_LEVELS" "foldl (slot h) p is = n" "n \<noteq> 0"
  shows "get_levels ks n h = Inr (let l = foldl (slot h) p (is @ ks) in if l = 0 then None else Some l)"
  using assms
proof (induction ks arbitrary: "is" n)
  case (Cons k ks)
  have h: "heap_ok h" "n \<in> dom (rnodes h)" and k: "k < RADIX_NODE_SIZE"
    using Cons.prems tree_node [OF Cons.prems(1), of "is" n] by auto
  show ?case
  proof (cases "slot h n k = 0")
    case True
    then show ?thesis using get_child_slot [OF h k] Cons.prems(4) h(1) by simp
  next
    case False
    then show ?thesis using get_child_slot [OF h k] Cons.IH [of "is @ [k]" "slot h n k"] Cons.prems by simp
  qed
qed simp

lemma leaf_write:
  assumes t: "tree_ok p h" and i: "rx.idx is" "Suc (length is) = RADIX_LEVELS" "foldl (slot h) p is = n" "n \<noteq> 0" and k: "k < RADIX_NODE_SIZE"
  shows "\<exists>h'. set_child n k v h = Inr h' \<and> tree_ok p h' \<and> ravail h' = ravail h \<and>
    (\<forall>js. rx.idx js \<and> length js = RADIX_LEVELS \<longrightarrow> foldl (slot h') p js = (if js = is @ [k] then v else foldl (slot h) p js))"
proof -
  have h: "heap_ok h" "n \<in> dom (rnodes h)" using tree_node [OF t i(1)] i by auto
  have sh: "rx.shaped (slot h) (dom (rnodes h)) p" using t by (simp add: tree_ok_def)
  obtain h' where h': "set_child n k v h = Inr h'" "heap_ok h'" "dom (rnodes h') = dom (rnodes h)" "ravail h' = ravail h"
    "\<And>q j. slot h' q j = (if q = n \<and> j = k then v else slot h q j)" using set_child_slot [OF h k, of v] by blast
  note lf = rx.shaped_leaf [OF sh i h'(5)]
  have "tree_ok p h'" using lf(1) h'(2,3) by (simp add: tree_ok_def)
  then show ?thesis using h'(1,4) lf(2) by (intro exI [of _ h']) auto
qed

section \<open>Keys\<close>

definition radix_digits :: "u64 \<Rightarrow> nat list" where
  "radix_digits key = radix_path key @ [radix_index key 0]"

lemma radix_index_less: "radix_index key i < RADIX_NODE_SIZE"
proof -
  have "unat (x AND RADIX_NODE_MASK) < 16" for x :: u64
  proof -
    have "x AND RADIX_NODE_MASK = take_bit 4 x" by (simp add: RADIX_NODE_MASK_def take_bit_eq_mask mask_eq_exp_minus_1)
    then show ?thesis by (simp add: unsigned_take_bit_eq take_bit_nat_less_exp [of 4, simplified])
  qed
  then show ?thesis by (simp add: radix_index_def RADIX_NODE_SIZE_def)
qed

lemma radix_digits_ok: "rx.idx (radix_path key)" "Suc (length (radix_path key)) = RADIX_LEVELS" "rx.idx (radix_digits key)" "length (radix_digits key) = RADIX_LEVELS"
  using radix_index_less by (auto simp: radix_path_def rx.idx_def radix_digits_def RADIX_LEVELS_def)

lemma radix_index_inj:
  assumes "\<And>i. i < 16 \<Longrightarrow> radix_index a i = radix_index b i"
  shows "a = b"
proof (rule bit_word_eqI)
  fix n assume n: "n < LENGTH(64)"
  have m: "bit (drop_bit (4 * i) x AND RADIX_NODE_MASK) j \<longleftrightarrow> bit x (4 * i + j)" if "j < 4" "4 * i + j < 64" for x :: u64 and i j
  proof -
    have e: "RADIX_NODE_MASK = mask 4" by (simp add: RADIX_NODE_MASK_def mask_eq_exp_minus_1)
    show ?thesis using that unfolding e by (simp add: bit_and_iff bit_drop_bit_eq bit_mask_iff)
  qed
  have "radix_index a (n div 4) = radix_index b (n div 4)" using n assms by simp
  then have "drop_bit (4 * (n div 4)) a AND RADIX_NODE_MASK = drop_bit (4 * (n div 4)) b AND RADIX_NODE_MASK"
    by (simp only: radix_index_def RADIX_NODE_BITS_def word_unat_eq_iff)
  then show "bit a n \<longleftrightarrow> bit b n" using m [of "n mod 4" "n div 4" a] m [of "n mod 4" "n div 4" b] n by simp
qed

lemma radix_digits_inj: "radix_digits a = radix_digits b \<Longrightarrow> a = b"
proof (rule radix_index_inj)
  fix i :: nat assume e: "radix_digits a = radix_digits b" and i: "i < 16"
  have d: "radix_digits k = map (radix_index k) (rev [0..<16])" for k
  proof -
    have u: "[0..<16] = 0 # [1..<16]" by (simp add: upt_conv_Cons)
    show ?thesis unfolding u by (simp only: radix_digits_def radix_path_def RADIX_LEVELS_def rev.simps map_append list.map)
  qed
  then have "\<forall>j \<in> set (rev [0..<16]). radix_index a j = radix_index b j" using e by (simp only: map_eq_conv)
  then show "radix_index a i = radix_index b i" using i by auto
qed

section \<open>The map a tree stands for\<close>

definition radix_ok :: "radix \<Rightarrow> radix_heap \<Rightarrow> bool" where
  "radix_ok r h = (\<not> radix_locked r \<and> heap_ok h \<and> (root r = 0 \<or> tree_ok (root r) h))"

definition radix_map :: "radix \<Rightarrow> radix_heap \<Rightarrow> u64 \<Rightarrow> nat option" where
  "radix_map r h key = (let v = foldl (slot h) (root r) (radix_digits key) in if v = 0 then None else Some v)"

lemma radix_map_empty: "heap_ok h \<Longrightarrow> root r = 0 \<Longrightarrow> radix_map r h = Map.empty"
  by (simp add: radix_map_def fun_eq_iff)

lemma new_root:
  assumes h: "heap_ok h" and q: "new_radix_node h = (Some n, h1)"
  shows "tree_ok n h1 \<and> (\<forall>js. js \<noteq> [] \<longrightarrow> foldl (slot h1) n js = 0)"
proof -
  note new = new_node_slot [OF h q]
  have z: "slot h1 n j = 0" "slot h1 0 j = 0" for j
  proof -
    show "slot h1 n j = 0" using new(2,5) by (auto simp: slot_def dom_def)
    show "slot h1 0 j = 0" using new(1) by simp
  qed
  have "n \<in> dom (rnodes h1)" using new(4) by simp
  note r = rx.shaped_new [OF new(3) z(2,1) this]
  then show ?thesis using new(1) by (simp add: tree_ok_def)
qed

lemma tree_add:
  assumes t: "tree_ok n h"
  shows "\<exists>leaf h2. add_levels (radix_path key) n h = Inr (leaf, h2) \<and>
    (case leaf of None \<Rightarrow> tree_ok n h2 \<and> ravail h2 = 0 \<and> foldl (slot h) n (radix_digits key) = 0 \<and>
        (\<forall>k. foldl (slot h2) n (radix_digits k) = foldl (slot h) n (radix_digits k))
     | Some l \<Rightarrow> get_child l (radix_index key 0) h2 = Inr (foldl (slot h) n (radix_digits key)) \<and>
        (\<exists>h3. set_child l (radix_index key 0) v h2 = Inr h3 \<and> tree_ok n h3 \<and>
          (\<forall>k. foldl (slot h3) n (radix_digits k) = (if k = key then v else foldl (slot h) n (radix_digits k)))))"
proof -
  have n: "n \<noteq> 0" "heap_ok h" using t rx.shaped_root by (auto simp: tree_ok_def)
  obtain leaf h2 where h2: "add_levels (radix_path key) n h = Inr (leaf, h2)" "tree_ok n h2"
    "\<forall>js. rx.idx js \<and> length js = RADIX_LEVELS \<longrightarrow> foldl (slot h2) n js = foldl (slot h) n js"
    "case leaf of None \<Rightarrow> ravail h2 = 0 \<and> foldl (slot h) n ([] @ radix_path key) = 0 | Some l \<Rightarrow> l \<noteq> 0 \<and> foldl (slot h2) n ([] @ radix_path key) = l"
    using add_levels_ok [OF t, of "[]" "radix_path key" n] radix_digits_ok n by auto
  show ?thesis
  proof (cases leaf)
    case None
    have "foldl (slot h2) n (radix_digits k) = foldl (slot h) n (radix_digits k)" for k using h2(3) radix_digits_ok(3,4) by blast
    moreover have "foldl (slot h) n (radix_digits key) = 0" using h2(4) None n(2) by (simp add: radix_digits_def)
    ultimately show ?thesis using h2 None by (intro exI [of _ leaf] exI [of _ h2]) simp
  next
    case (Some l)
    then have l: "l \<noteq> 0" "foldl (slot h2) n (radix_path key) = l" using h2(4) by simp_all
    obtain h3 where h3: "set_child l (radix_index key 0) v h2 = Inr h3" "tree_ok n h3"
      "\<forall>js. rx.idx js \<and> length js = RADIX_LEVELS \<longrightarrow> foldl (slot h3) n js = (if js = radix_digits key then v else foldl (slot h2) n js)"
      using leaf_write [OF h2(2) radix_digits_ok(1,2) l(2,1) radix_index_less, of key 0 v] by (auto simp: radix_digits_def)
    have "heap_ok h2" "l \<in> dom (rnodes h2)" using tree_node [OF h2(2) radix_digits_ok(1), of key l] l radix_digits_ok(2) [of key] by auto
    then have "get_child l (radix_index key 0) h2 = Inr (slot h2 l (radix_index key 0))" using get_child_slot radix_index_less by blast
    moreover have "slot h2 l (radix_index key 0) = foldl (slot h2) n (radix_digits key)" using l(2) by (simp add: radix_digits_def)
    ultimately show ?thesis using h2(1,3) h3 Some radix_digits_ok(3,4) radix_digits_inj
      by (intro exI [of _ leaf] exI [of _ h2]) auto
  qed
qed

lemma radix_ops:
  assumes ok: "radix_ok r h"
  shows "radix_get r key h = Inr (case radix_map r h key of None \<Rightarrow> 0 | Some v \<Rightarrow> v) \<and>
    (radix_map r h key \<noteq> None \<and> val \<noteq> 0 \<longrightarrow> radix_add r key val h = Inl Bug_On) \<and>
    (radix_map r h key = None \<or> val = 0 \<longrightarrow> (\<exists>ret r' h'. radix_add r key val h = Inr (ret, r', h') \<and> radix_ok r' h' \<and>
      (ret = 0 \<and> radix_map r' h' = (radix_map r h)(key := if val = 0 then None else Some val) \<or>
       ret = - ENOMEM \<and> ravail h' = 0 \<and> radix_map r' h' = radix_map r h)))"
proof (cases "root r = 0")
  case True
  have h: "heap_ok h" "\<not> radix_locked r" using ok by (auto simp: radix_ok_def)
  have m: "radix_map r h = Map.empty" using radix_map_empty [OF h(1) True] .
  show ?thesis
  proof (cases "new_radix_node h")
    case (Pair q h1)
    show ?thesis
    proof (cases q)
      case None
      then have "h1 = h" "ravail h = 0" using Pair h(1) by (auto simp: new_radix_node_def kzalloc_node_def heap_ok_def split: if_splits)
      then show ?thesis using True h m Pair None ok by (auto simp: radix_get_def radix_add_def)
    next
      case (Some n)
      have t: "tree_ok n h1" "\<forall>js. js \<noteq> [] \<longrightarrow> foldl (slot h1) n js = 0" using new_root [OF h(1)] Pair Some by blast+
      have "radix_digits k \<noteq> []" for k by (simp add: radix_digits_def)
      then have z: "foldl (slot h1) n (radix_digits k) = 0" for k using t(2) by blast
      obtain leaf h2 where a: "add_levels (radix_path key) n h1 = Inr (leaf, h2)"
        "case leaf of None \<Rightarrow> tree_ok n h2 \<and> ravail h2 = 0 \<and> foldl (slot h1) n (radix_digits key) = 0 \<and>
            (\<forall>k. foldl (slot h2) n (radix_digits k) = foldl (slot h1) n (radix_digits k))
         | Some l \<Rightarrow> get_child l (radix_index key 0) h2 = Inr (foldl (slot h1) n (radix_digits key)) \<and>
            (\<exists>h3. set_child l (radix_index key 0) val h2 = Inr h3 \<and> tree_ok n h3 \<and>
              (\<forall>k. foldl (slot h3) n (radix_digits k) = (if k = key then val else foldl (slot h1) n (radix_digits k))))"
        using tree_add [OF t(1), of key val] by blast
      have n0: "n \<noteq> 0" using t(1) rx.shaped_root by (auto simp: tree_ok_def)
      show ?thesis using True h m Pair Some a z n0
        by (auto simp: radix_get_def radix_add_def radix_map_def radix_ok_def tree_ok_def fun_eq_iff split: option.splits)
    qed
  qed
next
  case False
  then have t: "tree_ok (root r) h" and h: "\<not> radix_locked r" using ok by (auto simp: radix_ok_def)
  have lv: "foldl (slot h) (root r) [] = root r" by simp
  have g: "get_levels (radix_path key) (root r) h =
      Inr (let l = foldl (slot h) (root r) (radix_path key) in if l = 0 then None else Some l)"
    using get_levels_ok [OF t, of "[]" "radix_path key"] radix_digits_ok(1,2) [of key] False by simp
  have "radix_get r key h = Inr (foldl (slot h) (root r) (radix_digits key))"
  proof (cases "foldl (slot h) (root r) (radix_path key) = 0")
    case True
    then show ?thesis using g h False t by (simp add: radix_get_def radix_digits_def tree_ok_def)
  next
    case F: False
    then have "heap_ok h" "foldl (slot h) (root r) (radix_path key) \<in> dom (rnodes h)"
      using tree_node [OF t radix_digits_ok(1), of key] radix_digits_ok(2) [of key] by auto
    then show ?thesis using g h False F get_child_slot radix_index_less by (simp add: radix_get_def radix_digits_def)
  qed
  moreover obtain leaf h2 where a: "add_levels (radix_path key) (root r) h = Inr (leaf, h2)"
    "case leaf of None \<Rightarrow> tree_ok (root r) h2 \<and> ravail h2 = 0 \<and> foldl (slot h) (root r) (radix_digits key) = 0 \<and>
        (\<forall>k. foldl (slot h2) (root r) (radix_digits k) = foldl (slot h) (root r) (radix_digits k))
     | Some l \<Rightarrow> get_child l (radix_index key 0) h2 = Inr (foldl (slot h) (root r) (radix_digits key)) \<and>
        (\<exists>h3. set_child l (radix_index key 0) val h2 = Inr h3 \<and> tree_ok (root r) h3 \<and>
          (\<forall>k. foldl (slot h3) (root r) (radix_digits k) = (if k = key then val else foldl (slot h) (root r) (radix_digits k))))"
    using tree_add [OF t, of key val] by blast
  ultimately show ?thesis using False h
    by (auto simp: radix_add_def radix_map_def radix_ok_def tree_ok_def fun_eq_iff Let_def split: option.splits)
qed

text \<open>Sixteen nodes are enough for every key.\<close>

lemma add_levels_served:
  "add_levels ks n h = Inr (leaf, h') \<Longrightarrow> 0 < rnext h \<Longrightarrow> length ks \<le> ravail h \<Longrightarrow> leaf \<noteq> None"
proof (induction ks arbitrary: n h)
  case (Cons k ks)
  show ?case
  proof (cases "get_child n k h")
    case (Inr c)
    show ?thesis
    proof (cases "c = 0")
      case True
      define h1 where "h1 = h\<lparr>rnodes := (rnodes h)(rnext h \<mapsto> replicate RADIX_NODE_SIZE 0), rnext := rnext h + 1, ravail := ravail h - 1\<rparr>"
      have "new_radix_node h = (Some (rnext h), h1)" using Cons.prems(2,3) by (simp add: new_radix_node_def kzalloc_node_def h1_def)
      then obtain h2 where h2: "set_child n k (rnext h) h1 = Inr h2" "add_levels ks (rnext h) h2 = Inr (leaf, h')"
        using Cons.prems(1) Inr True by (auto simp: res_simps)
      then have "rnext h2 = rnext h + 1" "ravail h2 = ravail h - 1" by (auto simp: set_child_def res_simps h1_def)
      then show ?thesis using Cons.IH [OF h2(2)] Cons.prems(3) by simp
    next
      case False
      then show ?thesis using Cons.IH [of c h] Cons.prems Inr by simp
    qed
  qed (use Cons.prems(1) in simp)
qed auto

lemma radix_add_served:
  assumes a: "radix_add r key val h = Inr (ret, r', h')" and h: "heap_ok h" "16 \<le> ravail h"
  shows "ret = 0"
proof -
  have "length (radix_path key) = 15" by (simp add: radix_path_def RADIX_LEVELS_def)
  then have l: "leaf \<noteq> None" if "add_levels (radix_path key) n g = Inr (leaf, g')" "0 < rnext g" "15 \<le> ravail g" for n g leaf g'
    using add_levels_served [OF that(1,2)] that(3) by simp
  have r: "0 < rnext h" using h(1) by (simp add: heap_ok_def)
  then show ?thesis using a h(2) l
    by (auto simp: radix_add_def new_radix_node_def kzalloc_node_def res_simps split: if_splits option.splits) fastforce+
qed

text \<open>
  C34: \<^verbatim>\<open>radix_get\<close>, \<^verbatim>\<open>radix_add\<close> and \<^verbatim>\<open>radix_del\<close> implement lookup and update of a
  map from 64-bit keys to pointers. A lookup returns the value of the key, or \<^verbatim>\<open>NULL\<close>. Adding a
  value for a key that has one stops in \<^verbatim>\<open>BUG_ON\<close>; otherwise the call returns 0 and changes
  exactly this key, or \<open>-ENOMEM\<close> without changing the map when no node can be had. Adding
  \<^verbatim>\<open>NULL\<close> removes the key. The tree stays a tree.
\<close>

theorem radix_refines_map:
  assumes ok: "radix_ok r h"
  shows "radix_get r key h = Inr (case radix_map r h key of None \<Rightarrow> 0 | Some v \<Rightarrow> v) \<and>
    (radix_map r h key \<noteq> None \<and> val \<noteq> 0 \<longrightarrow> radix_add r key val h = Inl Bug_On) \<and>
    (radix_map r h key = None \<or> val = 0 \<longrightarrow> (\<exists>ret r' h'. radix_add r key val h = Inr (ret, r', h') \<and> radix_ok r' h' \<and>
      (ret = 0 \<and> radix_map r' h' = (radix_map r h)(key := if val = 0 then None else Some val) \<or>
       ret = - ENOMEM \<and> ravail h' = 0 \<and> radix_map r' h' = radix_map r h)))"
  using radix_ops [OF ok] .

definition demo_heap :: radix_heap where
  "demo_heap = \<lparr>rnodes = [1 \<mapsto> replicate RADIX_NODE_SIZE 0], rnext = 2, ravail = 40\<rparr>"

definition demo_radix :: radix where
  "demo_radix = \<lparr>root = 1, radix_locked = False, value_deleter = True\<rparr>"

lemma demo_radix_init: "init_radix_w_deleter \<lparr>root = 0, radix_locked = False, value_deleter = False\<rparr>
    \<lparr>rnodes = Map.empty, rnext = 1, ravail = 41\<rparr> = Inr (demo_radix, demo_heap)"
  by (simp add: init_radix_w_deleter_def init_radix_def kzalloc_node_def demo_radix_def demo_heap_def)

lemma demo_radix_ok: "radix_ok demo_radix demo_heap" "radix_map demo_radix demo_heap = Map.empty"
proof -
  let ?h = "\<lparr>rnodes = Map.empty, rnext = 1, ravail = 41\<rparr>"
  have h: "heap_ok ?h" "new_radix_node ?h = (Some 1, demo_heap)"
    by (simp_all add: heap_ok_def new_radix_node_def kzalloc_node_def demo_heap_def)
  have r: "tree_ok 1 demo_heap" "\<forall>js. js \<noteq> [] \<longrightarrow> foldl (slot demo_heap) 1 js = 0" using new_root [OF h] by auto
  have "radix_digits k \<noteq> []" for k by (simp add: radix_digits_def)
  then have "foldl (slot demo_heap) 1 (radix_digits k) = 0" for k using r(2) by blast
  then show "radix_ok demo_radix demo_heap" "radix_map demo_radix demo_heap = Map.empty"
    using r(1) by (simp_all add: radix_ok_def demo_radix_def radix_map_def fun_eq_iff tree_ok_def)
qed

theorem radix_refines_map_witness:
  "\<exists>r h. radix_add demo_radix 0x1234 7 demo_heap = Inr (0, r, h) \<and> radix_get r 0x1234 h = Inr 7 \<and> radix_get r 0x1235 h = Inr 0 \<and>
    radix_add r 0x1234 8 h = Inl Bug_On"
proof -
  have "case radix_add demo_radix 0x1234 7 demo_heap of Inl _ \<Rightarrow> False | Inr (ret, r, h) \<Rightarrow> ret = 0" by code_simp
  then obtain r h where a: "radix_add demo_radix 0x1234 7 demo_heap = Inr (0, r, h)"
    by (cases "radix_add demo_radix 0x1234 7 demo_heap") auto
  then have m: "radix_ok r h" "radix_map r h = [0x1234 \<mapsto> 7]"
    using radix_refines_map [OF demo_radix_ok(1), of "0x1234" 7] demo_radix_ok(2) by (auto simp: ENOMEM_def)
  then show ?thesis using a radix_refines_map [OF m(1), of "0x1234" 8] radix_refines_map [OF m(1), of "0x1235" 8] by auto
qed

section \<open>Freeing\<close>

text \<open>The deleter sees the value of every key once, in the order of the keys.\<close>

fun paths :: "nat \<Rightarrow> nat list list" where
  "paths 0 = [[]]"
| "paths (Suc m) = concat (map (\<lambda>k. map ((#) k) (paths m)) [0..<RADIX_NODE_SIZE])"

lemma concat_res_ok: "(\<And>x. x \<in> set xs \<Longrightarrow> f x = Inr (g x)) \<Longrightarrow> concat_res (map f xs) = Inr (concat (map g xs))"
  by (induction xs) simp_all

lemma paths_zero: "heap_ok h \<Longrightarrow> filter ((\<noteq>) 0) (map (foldl (slot h) 0) ps) = []"
  by (induction ps) simp_all

lemma paths_Suc: "filter ((\<noteq>) 0) (map (foldl (slot h) n) (paths (Suc m))) =
    concat (map (\<lambda>k. filter ((\<noteq>) 0) (map (foldl (slot h) (slot h n k)) (paths m))) [0..<RADIX_NODE_SIZE])"
proof -
  have "filter ((\<noteq>) 0) (map (foldl (slot h) n) (concat (map (\<lambda>k. map ((#) k) (paths m)) ks))) =
    concat (map (\<lambda>k. filter ((\<noteq>) 0) (map (foldl (slot h) (slot h n k)) (paths m))) ks)" for ks
    by (induction ks) (simp_all add: o_def)
  then show ?thesis by (simp only: paths.simps)
qed

lemma radix_free_node_ok:
  assumes "tree_ok p h" "rx.idx is" "length is + Suc below = RADIX_LEVELS" "foldl (slot h) p is = n" "n \<noteq> 0"
  shows "radix_free_node below True n h = Inr (filter ((\<noteq>) 0) (map (foldl (slot h) n) (paths (Suc below))))"
  using assms
proof (induction below arbitrary: "is" n)
  case 0
  have h: "heap_ok h" "n \<in> dom (rnodes h)" using tree_node [OF 0(1,2), of n] 0 by auto
  have "radix_free_node 0 True n h = concat_res (map (\<lambda>i. bind_res (get_child n i h) (\<lambda>v. Inr (if v \<noteq> 0 then [v] else []))) [0..<RADIX_NODE_SIZE])"
    by (simp only: radix_free_node.simps if_True)
  also have "\<dots> = Inr (concat (map (\<lambda>k. filter ((\<noteq>) 0) (map (foldl (slot h) (slot h n k)) (paths 0))) [0..<RADIX_NODE_SIZE]))"
    by (rule concat_res_ok) (use get_child_slot [OF h] in auto)
  finally show ?case unfolding paths_Suc .
next
  case (Suc below)
  have h: "heap_ok h" "n \<in> dom (rnodes h)" using tree_node [OF Suc.prems(1,2), of n] Suc.prems by auto
  have "radix_free_node (Suc below) True n h =
      concat_res (map (\<lambda>i. bind_res (get_child n i h) (\<lambda>c. if c \<noteq> 0 then radix_free_node below True c h else Inr [])) [0..<RADIX_NODE_SIZE])"
    by (simp only: radix_free_node.simps)
  also have "\<dots> = Inr (concat (map (\<lambda>k. filter ((\<noteq>) 0) (map (foldl (slot h) (slot h n k)) (paths (Suc below)))) [0..<RADIX_NODE_SIZE]))"
  proof (rule concat_res_ok)
    fix k assume "k \<in> set [0..<RADIX_NODE_SIZE]"
    then have k: "k < RADIX_NODE_SIZE" by simp
    show "bind_res (get_child n k h) (\<lambda>c. if c \<noteq> 0 then radix_free_node below True c h else Inr []) =
        Inr (filter ((\<noteq>) 0) (map (foldl (slot h) (slot h n k)) (paths (Suc below))))"
    proof (cases "slot h n k = 0")
      case True
      then show ?thesis using get_child_slot [OF h k] paths_zero [OF h(1), of "paths (Suc below)"] by (simp del: paths.simps)
    next
      case False
      then show ?thesis using get_child_slot [OF h k] Suc.IH [of "is @ [k]" "slot h n k"] Suc.prems k by (simp del: paths.simps)
    qed
  qed
  finally show ?case unfolding paths_Suc [of h n "Suc below"] .
qed

lemma radix_free_values:
  assumes "radix_ok r h" "root r \<noteq> 0" "value_deleter r"
  shows "radix_free r h = Inr (0, r, filter ((\<noteq>) 0) (map (foldl (slot h) (root r)) (paths RADIX_LEVELS)))"
proof -
  have t: "tree_ok (root r) h" using assms by (simp add: radix_ok_def)
  have "radix_free_node (RADIX_LEVELS - 1) True (root r) h = Inr (filter ((\<noteq>) 0) (map (foldl (slot h) (root r)) (paths (Suc (RADIX_LEVELS - 1)))))"
    by (rule radix_free_node_ok [OF t, of "[]"]) (use assms(2) in \<open>simp_all add: RADIX_LEVELS_def\<close>)
  then show ?thesis using assms by (simp add: radix_free_def radix_ok_def RADIX_LEVELS_def del: paths.simps)
qed

text \<open>Freeing a tree without a root returns with the lock held; the next operation never returns.\<close>

lemma radix_free_keeps_lock:
  assumes "\<not> radix_locked r" "root r = 0"
  shows "\<exists>r'. radix_free r h = Inr (- EINVAL, r', []) \<and> radix_get r' key h = Inl Deadlock \<and> radix_add r' key v h = Inl Deadlock"
  using assms by (simp add: radix_free_def radix_get_def radix_add_def)

end
