(* ===== verification/Page_Table.thy ===== *)
theory Page_Table
  imports Kmalloc Pointer_Tree
begin

text \<open>
  The page tables of user processes (\<^verbatim>\<open>kernel/arch/aarch64/mm/page_table.c\<close>): four levels of
  tables with 512 entries each. Entries are the 64-bit words of the architecture, with the bit
  fields of \<^verbatim>\<open>page_table.h\<close>. The heap holds the pages used as tables, by their kernel virtual
  address; \<open>free_pgs\<close> are the pages that \<^verbatim>\<open>get_pages(0)\<close> is going to return, in this order.
  Flushing the TLB does not change this state.
\<close>

section \<open>Entries\<close>

definition VMR_READ :: u64 where "VMR_READ = 1"
definition VMR_WRITE :: u64 where "VMR_WRITE = 2"
definition VMR_EXEC :: u64 where "VMR_EXEC = 4"
definition VMR_DEVICE :: u64 where "VMR_DEVICE = 8"

definition PAGE_SHIFT :: nat where "PAGE_SHIFT = 12"
definition PAGE_ORDER :: nat where "PAGE_ORDER = 9"
definition PTP_ENTRIES :: nat where "PTP_ENTRIES = 512"
definition PTP_INDEX_MASK :: u64 where "PTP_INDEX_MASK = 511"

definition L0_PER_ENTRY_PAGES :: nat where "L0_PER_ENTRY_PAGES = 2 ^ 27"
definition L1_PER_ENTRY_PAGES :: nat where "L1_PER_ENTRY_PAGES = 2 ^ 18"
definition L2_PER_ENTRY_PAGES :: nat where "L2_PER_ENTRY_PAGES = 2 ^ 9"

definition IS_PTE_INVALID :: "u64 \<Rightarrow> bool" where "IS_PTE_INVALID pte = (pte AND 1 = 0)"
definition IS_PTE_TABLE :: "u64 \<Rightarrow> bool" where "IS_PTE_TABLE pte = (pte AND 2 \<noteq> 0)"

definition ptp_index :: "nat \<Rightarrow> u64 \<Rightarrow> nat" where
  "ptp_index level va = unat (drop_bit ((3 - level) * PAGE_ORDER + PAGE_SHIFT) va AND PTP_INDEX_MASK)"

text \<open>Assignment to a bit field.\<close>

definition set_field :: "nat \<Rightarrow> nat \<Rightarrow> u64 \<Rightarrow> u64 \<Rightarrow> u64" where
  "set_field pos width v pte = (pte AND NOT (push_bit pos (mask width))) OR push_bit pos (take_bit width v)"

definition set_pte_flags :: "u64 \<Rightarrow> u64 \<Rightarrow> u64" where
  "set_pte_flags flags entry =
    (let e1 = set_field 6 2 (if flags AND VMR_WRITE \<noteq> 0 then 1 else 3) entry;
         e2 = set_field 54 1 (if flags AND VMR_EXEC \<noteq> 0 then 0 else 1) e1;
         e3 = set_field 53 1 1 e2;
         e4 = set_field 10 1 1 e3;
         e5 = set_field 8 2 3 e4
     in set_field 2 3 (if flags AND VMR_DEVICE \<noteq> 0 then 0 else 4) e5)"

definition GET_PADDR_IN_PTE :: "u64 \<Rightarrow> u64" where
  "GET_PADDR_IN_PTE e = push_bit PAGE_SHIFT (take_bit 36 (drop_bit 12 e))"

definition GET_NEXT_PTP :: "u64 \<Rightarrow> u64" where
  "GET_NEXT_PTP e = phys_to_virt (GET_PADDR_IN_PTE e)"

definition table_pte :: "u64 \<Rightarrow> u64" where
  "table_pte new_ptp_paddr = set_field 12 36 (drop_bit PAGE_SHIFT new_ptp_paddr) (set_field 1 1 1 (set_field 0 1 1 0))"

definition page_pte :: "u64 \<Rightarrow> u64 \<Rightarrow> u64" where
  "page_pte pa flags = set_pte_flags flags (set_field 12 36 (drop_bit PAGE_SHIFT pa) (set_field 1 1 1 (set_field 0 1 1 0)))"

section \<open>Operations\<close>

record pt_heap =
  ptps :: "u64 \<rightharpoonup> (nat \<Rightarrow> u64)"
  free_pgs :: "u64 list"

definition get_page :: "pt_heap \<Rightarrow> u64 \<times> pt_heap" where
  "get_page h = (case free_pgs h of [] \<Rightarrow> (0, h) | p # ps \<Rightarrow> (p, h\<lparr>free_pgs := ps\<rparr>))"

definition write_pte :: "u64 \<Rightarrow> nat \<Rightarrow> u64 \<Rightarrow> pt_heap \<Rightarrow> pt_heap res" where
  "write_pte p i v h = bind_res (deref (ptps h) p) (\<lambda>pg. Inr (h\<lparr>ptps := (ptps h)(p \<mapsto> pg(i := v))\<rparr>))"

text \<open>
  The result, the next table with the place of the entry that points to it, and the heap.
\<close>

definition get_next_ptp :: "u64 \<Rightarrow> nat \<Rightarrow> u64 \<Rightarrow> bool \<Rightarrow> pt_heap \<Rightarrow> (s32 \<times> (u64 \<times> u64 \<times> nat) option \<times> pt_heap) res" where
  "get_next_ptp cur_ptp level va alloc h =
    (if cur_ptp = 0 then Inr (- ENOMAPPING, None, h)
     else bug_on (level > 3) (bind_res (deref (ptps h) cur_ptp) (\<lambda>pg.
       let index = ptp_index level va in
       if IS_PTE_INVALID (pg index) \<and> \<not> alloc then Inr (- ENOMAPPING, None, h)
       else bind_res
         (if IS_PTE_INVALID (pg index)
          then (case get_page h of (new_ptp, h1) \<Rightarrow> bug_on (new_ptp = 0)
            (let v = table_pte (virt_to_phys new_ptp) in
             bind_res (write_pte cur_ptp index v (h1\<lparr>ptps := (ptps h1)(new_ptp \<mapsto> (\<lambda>_. 0))\<rparr>)) (\<lambda>h2. Inr (v, h2))))
          else Inr (pg index, h))
         (\<lambda>(entry, h2). Inr (if IS_PTE_TABLE entry then 0 else 1, Some (GET_NEXT_PTP entry, cur_ptp, index), h2)))))"

text \<open>
  \<^verbatim>\<open>query_in_pgtbl\<close>: the physical address and the place of the entry; a block of level 1 or 2
  ends the walk.
\<close>

definition next_or :: "u64 \<Rightarrow> nat \<Rightarrow> u64 \<Rightarrow> pt_heap \<Rightarrow> (s32 \<Rightarrow> u64 \<times> u64 \<times> nat \<Rightarrow> (s32 \<times> (u64 \<times> u64 \<times> nat) option) res)
    \<Rightarrow> (s32 \<times> (u64 \<times> u64 \<times> nat) option) res" where
  "next_or ptp level va h k = bind_res (get_next_ptp ptp level va False h) (\<lambda>(ret, out, _).
    if ret < 0 then Inr (ret, None) else case out of None \<Rightarrow> Inl Bad_Access | Some x \<Rightarrow> k ret x)"

definition query_in_pgtbl :: "u64 \<Rightarrow> u64 \<Rightarrow> pt_heap \<Rightarrow> (s32 \<times> (u64 \<times> u64 \<times> nat) option) res" where
  "query_in_pgtbl pgtbl va h =
    next_or pgtbl 0 va h (\<lambda>_ (l1_ptp, _).
    next_or l1_ptp 1 va h (\<lambda>ret (l2_ptp, e).
      if ret = 1 then Inr (0, Some (virt_to_phys l2_ptp + (va AND mask 30), e)) else
    next_or l2_ptp 2 va h (\<lambda>ret (l3_ptp, e).
      if ret = 1 then Inr (0, Some (virt_to_phys l3_ptp + (va AND mask 21), e)) else
    next_or l3_ptp 3 va h (\<lambda>_ (phys_page, e).
      Inr (0, Some (virt_to_phys phys_page + (va AND mask 12), e))))))"

definition total_page_cnt :: "u64 \<Rightarrow> nat" where
  "total_page_cnt len = unat (len div PAGE_SIZE + (if len mod PAGE_SIZE > 0 then 1 else 0))"

text \<open>The loop over the entries of one table of level 3.\<close>

function map_ptes :: "nat \<Rightarrow> u64 \<Rightarrow> u64 \<Rightarrow> u64 \<Rightarrow> u64 \<Rightarrow> nat \<Rightarrow> pt_heap \<Rightarrow> (u64 \<times> u64 \<times> nat \<times> pt_heap) res" where
  "map_ptes i l3_ptp flags va pa cnt h =
    (if i < PTP_ENTRIES
     then bind_res (write_pte l3_ptp i (page_pte pa flags) h) (\<lambda>h1.
       if cnt - 1 = 0 then Inr (va + PAGE_SIZE, pa + PAGE_SIZE, cnt - 1, h1)
       else map_ptes (i + 1) l3_ptp flags (va + PAGE_SIZE) (pa + PAGE_SIZE) (cnt - 1) h1)
     else Inr (va, pa, cnt, h))"
  by pat_completeness auto
termination by (relation "measure (\<lambda>(i, _). PTP_ENTRIES - i)") auto

definition next_alloc :: "u64 \<Rightarrow> nat \<Rightarrow> u64 \<Rightarrow> pt_heap \<Rightarrow> (u64 \<times> pt_heap) res" where
  "next_alloc ptp level va h = bind_res (get_next_ptp ptp level va True h) (\<lambda>(ret, out, h1).
    bug_on (ret \<noteq> 0) (case out of None \<Rightarrow> Inl Bad_Access | Some (ptp, _) \<Rightarrow> Inr (ptp, h1)))"

text \<open>The outer loop; every round maps at least one page, so \<open>cnt\<close> rounds are enough fuel.\<close>

fun map_loop :: "nat \<Rightarrow> u64 \<Rightarrow> u64 \<Rightarrow> u64 \<Rightarrow> u64 \<Rightarrow> nat \<Rightarrow> pt_heap \<Rightarrow> pt_heap res" where
  "map_loop fuel l0_ptp flags va pa cnt h =
    (if cnt = 0 then Inr h else case fuel of 0 \<Rightarrow> Inl No_Return | Suc fuel' \<Rightarrow>
      bind_res (next_alloc l0_ptp 0 va h) (\<lambda>(l1_ptp, h1).
      bind_res (next_alloc l1_ptp 1 va h1) (\<lambda>(l2_ptp, h2).
      bind_res (next_alloc l2_ptp 2 va h2) (\<lambda>(l3_ptp, h3).
      bind_res (map_ptes (ptp_index 3 va) l3_ptp flags va pa cnt h3) (\<lambda>(va1, pa1, cnt1, h4).
        map_loop fuel' l0_ptp flags va1 pa1 cnt1 h4)))))"

definition map_range_in_pgtbl :: "u64 \<Rightarrow> u64 \<Rightarrow> u64 \<Rightarrow> u64 \<Rightarrow> u64 \<Rightarrow> pt_heap \<Rightarrow> (s32 \<times> pt_heap) res" where
  "map_range_in_pgtbl pgtbl va pa len flags h =
    bug_on (pgtbl = 0) (bind_res (map_loop (total_page_cnt len) pgtbl flags va pa (total_page_cnt len) h) (\<lambda>h1. Inr (0, h1)))"

text \<open>
  Unmapping and changing permissions walk alike over the tables that exist; \<open>upd\<close> is what happens
  to an entry of level 3. A missing table makes the walk advance by what one entry of that level
  covers. The counter is signed.
\<close>

function change_ptes :: "(u64 \<Rightarrow> u64) \<Rightarrow> nat \<Rightarrow> u64 \<Rightarrow> u64 \<Rightarrow> int \<Rightarrow> pt_heap \<Rightarrow> (u64 \<times> int \<times> pt_heap) res" where
  "change_ptes upd i l3_ptp va cnt h =
    (if i < PTP_ENTRIES
     then bind_res (deref (ptps h) l3_ptp) (\<lambda>pg. bind_res (write_pte l3_ptp i (upd (pg i)) h) (\<lambda>h1.
       if cnt - 1 = 0 then Inr (va + PAGE_SIZE, cnt - 1, h1)
       else change_ptes upd (i + 1) l3_ptp (va + PAGE_SIZE) (cnt - 1) h1))
     else Inr (va, cnt, h))"
  by pat_completeness auto
termination by (relation "measure (\<lambda>(_, i, _). PTP_ENTRIES - i)") auto

fun change_loop :: "nat \<Rightarrow> (u64 \<Rightarrow> u64) \<Rightarrow> u64 \<Rightarrow> u64 \<Rightarrow> int \<Rightarrow> pt_heap \<Rightarrow> pt_heap res" where
  "change_loop fuel upd l0_ptp va cnt h =
    (if cnt \<le> 0 then Inr h else case fuel of 0 \<Rightarrow> Inl No_Return | Suc fuel' \<Rightarrow>
      let skip = (\<lambda>pages. change_loop fuel' upd l0_ptp (va + of_nat pages * PAGE_SIZE) (cnt - int pages) h) in
      bind_res (get_next_ptp l0_ptp 0 va False h) (\<lambda>(ret, out, _).
        if ret = - ENOMAPPING then skip L0_PER_ENTRY_PAGES else case out of None \<Rightarrow> Inl Bad_Access | Some (l1_ptp, _) \<Rightarrow>
      bind_res (get_next_ptp l1_ptp 1 va False h) (\<lambda>(ret, out, _).
        if ret = - ENOMAPPING then skip L1_PER_ENTRY_PAGES else case out of None \<Rightarrow> Inl Bad_Access | Some (l2_ptp, _) \<Rightarrow>
      bind_res (get_next_ptp l2_ptp 2 va False h) (\<lambda>(ret, out, _).
        if ret = - ENOMAPPING then skip L2_PER_ENTRY_PAGES else case out of None \<Rightarrow> Inl Bad_Access | Some (l3_ptp, _) \<Rightarrow>
      bind_res (change_ptes upd (ptp_index 3 va) l3_ptp va cnt h) (\<lambda>(va1, cnt1, h1).
        change_loop fuel' upd l0_ptp va1 cnt1 h1)))))"

definition unmap_range_in_pgtbl :: "u64 \<Rightarrow> u64 \<Rightarrow> u64 \<Rightarrow> pt_heap \<Rightarrow> (s32 \<times> pt_heap) res" where
  "unmap_range_in_pgtbl pgtbl va len h =
    (if pgtbl = 0 then Inr (0, h)
     else bind_res (change_loop (total_page_cnt len) (\<lambda>_. 0) pgtbl va (int (total_page_cnt len)) h) (\<lambda>h1. Inr (0, h1)))"

definition mprotect_in_pgtbl :: "u64 \<Rightarrow> u64 \<Rightarrow> u64 \<Rightarrow> u64 \<Rightarrow> pt_heap \<Rightarrow> (s32 \<times> pt_heap) res" where
  "mprotect_in_pgtbl pgtbl va len flags h =
    (if pgtbl = 0 then Inr (0, h)
     else bind_res (change_loop (total_page_cnt len) (\<lambda>e. if IS_PTE_INVALID e then e else set_pte_flags flags e)
       pgtbl va (int (total_page_cnt len)) h) (\<lambda>h1. Inr (0, h1)))"

section \<open>Bit fields\<close>

lemma pte_invalid_bit: "IS_PTE_INVALID e \<longleftrightarrow> \<not> bit e 0"
  by (simp add: IS_PTE_INVALID_def and_one_eq odd_iff_mod_2_eq_one bit_0)

lemma pte_table_bit: "IS_PTE_TABLE e \<longleftrightarrow> bit e 1"
  using and_exp_eq_0_iff_not_bit [of e 1] by (simp add: IS_PTE_TABLE_def)

lemma bit_set_field: "n < 64 \<Longrightarrow> bit (set_field pos w v e) n \<longleftrightarrow> (if pos \<le> n \<and> n < pos + w then bit v (n - pos) else bit e n)"
  by (auto simp: set_field_def bit_or_iff bit_and_iff bit_not_iff bit_push_bit_iff bit_take_bit_iff bit_mask_iff)

lemma bit_set_pte_flags: "n < 64 \<Longrightarrow> n < 2 \<or> 12 \<le> n \<and> n < 48 \<Longrightarrow> bit (set_pte_flags flags e) n = bit e n"
proof -
  assume n: "n < 64" "n < 2 \<or> 12 \<le> n \<and> n < 48"
  have "bit (set_field pos w v x) n = bit x n" if "n < pos \<or> pos + w \<le> n" for pos w v x using n(1) that by (auto simp: bit_set_field)
  then show ?thesis using n(2) unfolding set_pte_flags_def Let_def by auto
qed

text \<open>The page frame a physical address lies in.\<close>

definition pa_page :: "u64 \<Rightarrow> u64" where
  "pa_page a = push_bit 12 (take_bit 36 (drop_bit 12 a))"

lemma bit_pa_page: "bit (pa_page a) n \<longleftrightarrow> 12 \<le> n \<and> n < 48 \<and> bit a n"
  by (auto simp: pa_page_def bit_push_bit_iff bit_take_bit_iff bit_drop_bit_eq)

lemma GET_PADDR_pa_page: "GET_PADDR_IN_PTE e = pa_page e"
  by (simp add: GET_PADDR_IN_PTE_def pa_page_def PAGE_SHIFT_def)

lemma bit_table_pte: "n < 48 \<Longrightarrow> bit (table_pte a) n \<longleftrightarrow> n < 2 \<or> 12 \<le> n \<and> bit a n"
  by (auto simp: table_pte_def bit_set_field bit_1_iff PAGE_SHIFT_def bit_drop_bit_eq)

lemma table_pte_facts: "\<not> IS_PTE_INVALID (table_pte a)" "IS_PTE_TABLE (table_pte a)" "pa_page (table_pte a) = pa_page a"
proof -
  show "\<not> IS_PTE_INVALID (table_pte a)" "IS_PTE_TABLE (table_pte a)"
    by (simp_all add: pte_invalid_bit pte_table_bit bit_table_pte)
  show "pa_page (table_pte a) = pa_page a" by (rule bit_word_eqI) (auto simp: bit_pa_page bit_table_pte)
qed

lemma page_pte_facts: "\<not> IS_PTE_INVALID (page_pte a flags)" "IS_PTE_TABLE (page_pte a flags)" "pa_page (page_pte a flags) = pa_page a"
proof -
  have b: "bit (page_pte a flags) n \<longleftrightarrow> n < 2 \<or> 12 \<le> n \<and> bit a n" if "n < 48" "n < 2 \<or> 12 \<le> n" for n
    using that by (auto simp: page_pte_def bit_set_pte_flags bit_set_field bit_1_iff PAGE_SHIFT_def bit_drop_bit_eq)
  show "\<not> IS_PTE_INVALID (page_pte a flags)" "IS_PTE_TABLE (page_pte a flags)"
    by (simp_all add: pte_invalid_bit pte_table_bit b)
  show "pa_page (page_pte a flags) = pa_page a" by (rule bit_word_eqI) (auto simp: bit_pa_page b)
qed

text \<open>Kernel addresses of pages that can be used as tables.\<close>

definition page_ok :: "u64 \<Rightarrow> bool" where
  "page_ok p = (p \<noteq> 0 \<and> pa_page (virt_to_phys p) = virt_to_phys p)"

lemma phys_virt [simp]: "phys_to_virt (virt_to_phys p) = p" "virt_to_phys (phys_to_virt p) = p"
  by (simp_all add: phys_to_virt_def virt_to_phys_def)

lemma next_of_table_pte: "page_ok p \<Longrightarrow> GET_NEXT_PTP (table_pte (virt_to_phys p)) = p"
  by (simp add: GET_NEXT_PTP_def GET_PADDR_pa_page table_pte_facts page_ok_def)

section \<open>Indices\<close>

text \<open>The number of the page of an address, among the 2^36 that the tables distinguish.\<close>

definition vpn :: "u64 \<Rightarrow> nat" where
  "vpn va = unat va div 2 ^ 12 mod 2 ^ 36"

definition pt_path :: "u64 \<Rightarrow> nat list" where
  "pt_path va = [ptp_index 0 va, ptp_index 1 va, ptp_index 2 va]"

lemma ptp_index_div: "ptp_index l va = unat va div 2 ^ ((3 - l) * 9 + 12) mod 512"
proof -
  have "PTP_INDEX_MASK = mask 9" by (simp add: PTP_INDEX_MASK_def mask_eq_exp_minus_1)
  then have "ptp_index l va = unat (take_bit 9 (drop_bit ((3 - l) * 9 + 12) va))"
    by (simp add: ptp_index_def PAGE_ORDER_def PAGE_SHIFT_def take_bit_eq_mask)
  also have "\<dots> = take_bit 9 (drop_bit ((3 - l) * 9 + 12) (unat va))"
    using unsigned_less [of va, where ?'a = nat] by (simp add: unsigned_take_bit_eq unsigned_drop_bit_eq take_bit_nat_eq_self)
  finally show ?thesis by (simp add: take_bit_eq_mod drop_bit_eq_div)
qed

lemma ptp_index_less [simp]: "ptp_index l va < PTP_ENTRIES"
  by (simp add: ptp_index_div PTP_ENTRIES_def)

lemma ptp_index_vpn:
  "ptp_index 3 va = vpn va mod 512" "ptp_index 2 va = vpn va div 2 ^ 9 mod 512"
  "ptp_index 1 va = vpn va div 2 ^ 18 mod 512" "ptp_index 0 va = vpn va div 2 ^ 27 mod 512"
proof -
  have v: "vpn va = take_bit 36 (drop_bit 12 (unat va))" by (simp add: vpn_def take_bit_eq_mod drop_bit_eq_div)
  have i: "ptp_index l va = take_bit 9 (drop_bit ((3 - l) * 9 + 12) (unat va))" for l
    by (simp add: ptp_index_div take_bit_eq_mod drop_bit_eq_div)
  have "drop_bit k (vpn va) mod 512 = take_bit 9 (drop_bit (k + 12) (unat va))" if "k \<le> 27" for k
  proof -
    have "drop_bit k (vpn va) mod 512 = take_bit 9 (take_bit (36 - k) (drop_bit (k + 12) (unat va)))"
      unfolding v by (simp add: drop_bit_take_bit take_bit_eq_mod [of 9, symmetric, simplified])
    moreover have "min 9 (36 - k) = 9" using that by simp
    ultimately show ?thesis by (simp only: take_bit_take_bit)
  qed
  from this [of 0] this [of 9] this [of 18] this [of 27]
  show "ptp_index 3 va = vpn va mod 512" "ptp_index 2 va = vpn va div 2 ^ 9 mod 512"
    "ptp_index 1 va = vpn va div 2 ^ 18 mod 512" "ptp_index 0 va = vpn va div 2 ^ 27 mod 512"
    by (simp_all add: i drop_bit_eq_div)
qed

end
