(* ===== verification/Page_Map.thy ===== *)
theory Page_Map
  imports Page_Table
begin

text \<open>
  What the page tables mean: a map from page numbers to entries. Creating tables does not change it,
  mapping and unmapping change exactly the pages of the range, and a lookup returns what was mapped.
\<close>

section \<open>The map\<close>

interpretation pt: pointer_tree 4 PTP_ENTRIES
  by unfold_locales simp

definition entry :: "pt_heap \<Rightarrow> u64 \<Rightarrow> nat \<Rightarrow> u64" where
  "entry h p i = (case ptps h p of None \<Rightarrow> 0 | Some pg \<Rightarrow> pg i)"

definition ptslot :: "pt_heap \<Rightarrow> u64 \<Rightarrow> nat \<Rightarrow> u64" where
  "ptslot h p k = (if IS_PTE_INVALID (entry h p k) then 0 else GET_NEXT_PTP (entry h p k))"

definition pte_of :: "pt_heap \<Rightarrow> u64 \<Rightarrow> u64 \<Rightarrow> u64" where
  "pte_of h root va = entry h (foldl (ptslot h) root (pt_path va)) (ptp_index 3 va)"

text \<open>Valid entries above level 3 point to tables: there are no huge pages.\<close>

definition tables_ok :: "pt_heap \<Rightarrow> u64 \<Rightarrow> bool" where
  "tables_ok h root = (\<forall>is k. pt.idx is \<and> length is < 3 \<and> k < PTP_ENTRIES \<and> foldl (ptslot h) root is \<noteq> 0 \<and>
    \<not> IS_PTE_INVALID (entry h (foldl (ptslot h) root is) k) \<longrightarrow>
    IS_PTE_TABLE (entry h (foldl (ptslot h) root is) k) \<and> GET_NEXT_PTP (entry h (foldl (ptslot h) root is) k) \<noteq> 0)"

definition pt_inv :: "u64 \<Rightarrow> pt_heap \<Rightarrow> bool" where
  "pt_inv root h = (pt.shaped (ptslot h) (dom (ptps h)) root \<and> tables_ok h root \<and> ptps h 0 = None \<and>
    distinct (free_pgs h) \<and> (\<forall>p \<in> set (free_pgs h). page_ok p \<and> ptps h p = None))"

lemma pt_node:
  "\<lbrakk>pt_inv root h; pt.idx is; length is < 4; foldl (ptslot h) root is = n; n \<noteq> 0\<rbrakk> \<Longrightarrow> \<exists>pg. ptps h n = Some pg"
  using pt.shaped_node [of "ptslot h" "dom (ptps h)" root "is"] unfolding pt_inv_def by blast

lemma pt_path_idx: "pt.idx (pt_path va)" "length (pt_path va) = 3"
  by (simp_all add: pt_path_def)

lemma entry_null: "pt_inv root h \<Longrightarrow> entry h 0 i = 0"
  by (simp add: pt_inv_def entry_def)

lemma next_ptp_ok:
  assumes i: "pt_inv root h" and n: "pt.idx is" "length is < 3" "foldl (ptslot h) root is = n" "n \<noteq> 0" and l: "l \<le> 3" "length is = l"
  shows "get_next_ptp n l va False h = Inr (if ptslot h n (ptp_index l va) = 0 then (- ENOMAPPING, None, h)
    else (0, Some (ptslot h n (ptp_index l va), n, ptp_index l va), h))"
proof -
  have "length is < 4" using n(2) by simp
  then obtain pg where pg: "ptps h n = Some pg" using pt_node [OF i n(1) _ n(3,4)] by blast
  then have e: "entry h n k = pg k" for k by (simp add: entry_def)
  have "IS_PTE_TABLE (pg (ptp_index l va)) \<and> GET_NEXT_PTP (pg (ptp_index l va)) \<noteq> 0" if "\<not> IS_PTE_INVALID (pg (ptp_index l va))"
  proof -
    have "tables_ok h root" using i by (simp add: pt_inv_def)
    then show ?thesis using n(1,2,4) e that unfolding tables_ok_def n(3) [symmetric] by (metis n(3) ptp_index_less)
  qed
  then show ?thesis using pg e n(4) l(1) by (auto simp: get_next_ptp_def ptslot_def Let_def)
qed

lemma vpn_path: "pt_path va = pt_path va' \<longleftrightarrow> vpn va div 512 = vpn va' div 512"
proof -
  have d: "x div 512 = (x div 2 ^ 27 mod 512) * 2 ^ 18 + (x div 2 ^ 18 mod 512) * 2 ^ 9 + x div 2 ^ 9 mod 512" if "x < 2 ^ 36" for x :: nat
  proof -
    have "x div 2 ^ 27 mod 512 = x div 2 ^ 27" using that by simp
    moreover have "x div 2 ^ 18 div 512 = x div 2 ^ 27" "x div 2 ^ 9 div 512 = x div 2 ^ 18" by (simp_all add: div_mult2_eq [symmetric])
    ultimately show ?thesis using div_mult_mod_eq [of "x div 2 ^ 18" 512] div_mult_mod_eq [of "x div 2 ^ 9" 512] by simp
  qed
  have b: "vpn v < 2 ^ 36" for v by (simp add: vpn_def)
  have r: "x div 2 ^ 9 mod 512 = x div 512 mod 512" "x div 2 ^ 18 mod 512 = x div 512 div 512 mod 512" "x div 2 ^ 27 mod 512 = x div 512 div 2 ^ 18 mod 512" for x :: nat
    by (simp_all add: div_mult2_eq [symmetric])
  show ?thesis
  proof
    assume "pt_path va = pt_path va'"
    then show "vpn va div 512 = vpn va' div 512" unfolding pt_path_def ptp_index_vpn d [OF b] by simp
  next
    assume "vpn va div 512 = vpn va' div 512"
    then show "pt_path va = pt_path va'" unfolding pt_path_def ptp_index_vpn r by simp
  qed
qed

section \<open>Creating tables\<close>

lemma new_table:
  assumes i: "pt_inv root h" and n: "pt.idx is" "length is < 3" "foldl (ptslot h) root is = n" "n \<noteq> 0"
    and k: "k < PTP_ENTRIES" "ptslot h n k = 0" and q: "free_pgs h = q # qs"
    and h': "\<And>p j. entry h' p j = (if p = n \<and> j = k then table_pte (virt_to_phys q) else if p = q then 0 else entry h p j)"
      "dom (ptps h') = insert q (dom (ptps h))" "free_pgs h' = qs"
  shows "pt_inv root h'" "foldl (ptslot h') root (is @ [k]) = q" "q \<noteq> 0" "\<And>va. pte_of h' root va = pte_of h root va"
proof -
  have sh: "pt.shaped (ptslot h) (dom (ptps h)) root" and tb: "tables_ok h root" and q0: "page_ok q" "q \<notin> dom (ptps h)"
    using i q by (auto simp: pt_inv_def)
  show qn: "q \<noteq> 0" using q0(1) by (simp add: page_ok_def)
  have nd: "n \<in> dom (ptps h)" using pt_node [OF i n(1) _ n(3,4)] n(2) by auto
  then have nq: "n \<noteq> q" using q0(2) by blast
  have eq: "entry h q j = 0" for j using q0(2) by (cases "ptps h q") (auto simp: entry_def)
  then have e: "entry h' p j = (if p = n \<and> j = k then table_pte (virt_to_phys q) else entry h p j)" for p j using h'(1) by simp
  have sl: "ptslot h' p j = (if p = n \<and> j = k then q else ptslot h p j)" for p j
    using e table_pte_facts next_of_table_pte [OF q0(1)] by (simp add: ptslot_def)
  have qs: "ptslot h q j = 0" for j using eq by (simp add: ptslot_def IS_PTE_INVALID_def)
  note ins = pt.shaped_insert [OF sh n(1) _ n(3,4) k q0(2) qn qs sl]
  have w: "foldl (ptslot h') root js = (if js = is @ [k] then q else foldl (ptslot h) root js)" if "pt.idx js" "length js \<le> 4" for js
    using ins(2) [OF _ that] n(2) by simp
  show "foldl (ptslot h') root (is @ [k]) = q" using w [of "is @ [k]"] n k by simp
  have "tables_ok h' root"
    unfolding tables_ok_def
  proof (intro allI impI)
    fix js j assume a: "pt.idx js \<and> length js < 3 \<and> j < PTP_ENTRIES \<and> foldl (ptslot h') root js \<noteq> 0 \<and>
      \<not> IS_PTE_INVALID (entry h' (foldl (ptslot h') root js) j)"
    let ?p = "foldl (ptslot h') root js"
    show "IS_PTE_TABLE (entry h' ?p j) \<and> GET_NEXT_PTP (entry h' ?p j) \<noteq> 0"
    proof (cases "?p = n \<and> j = k")
      case True
      then show ?thesis using e table_pte_facts next_of_table_pte [OF q0(1)] qn by simp
    next
      case False
      then have "?p \<noteq> q" using a e eq by (auto simp: IS_PTE_INVALID_def)
      then have "?p = foldl (ptslot h) root js" using w [of js] a by auto
      then show ?thesis using a tb e False unfolding tables_ok_def by metis
    qed
  qed
  moreover have "pt.shaped (ptslot h') (dom (ptps h')) root" using ins(1) n(2) h'(2) by simp
  moreover have "ptps h' 0 = None" using i h'(2) qn by (auto simp: pt_inv_def)
  ultimately show "pt_inv root h'" using i q h'(2,3) by (auto simp: pt_inv_def)
  show "pte_of h' root va = pte_of h root va" for va
  proof (cases "pt_path va = is @ [k]")
    case True
    then have "foldl (ptslot h) root (pt_path va) = 0" using n(3) k(2) by simp
    then have "pte_of h root va = 0" using entry_null [OF i] by (simp add: pte_of_def)
    moreover have "pte_of h' root va = 0" using True w [of "pt_path va"] pt_path_idx [of va] e eq nq by (simp add: pte_of_def)
    ultimately show ?thesis by simp
  next
    case False
    then have p: "foldl (ptslot h') root (pt_path va) = foldl (ptslot h) root (pt_path va)" using w [of "pt_path va"] pt_path_idx [of va] by simp
    have "foldl (ptslot h) root (pt_path va) \<noteq> n"
    proof
      assume a: "foldl (ptslot h) root (pt_path va) = n"
      then have "foldl (ptslot h) root is = foldl (ptslot h) root (pt_path va)" "foldl (ptslot h) root is \<noteq> 0" using n by simp_all
      then have "is = pt_path va" using pt.shaped_inj [OF sh n(1) pt_path_idx(1)] n(2) pt_path_idx(2) [of va] by auto
      then show False using n(2) pt_path_idx(2) [of va] by simp
    qed
    then show ?thesis using p e by (simp add: pte_of_def)
  qed
qed

text \<open>One level down, with a new table if needed: no page changes its entry.\<close>

lemma next_alloc_ok:
  assumes i: "pt_inv root h" and n: "pt.idx is" "length is = l" "l < 3" "foldl (ptslot h) root is = n" "n \<noteq> 0" and f: "free_pgs h \<noteq> []"
  shows "\<exists>q h'. next_alloc n l va h = Inr (q, h') \<and> pt_inv root h' \<and> q \<noteq> 0 \<and> foldl (ptslot h') root (is @ [ptp_index l va]) = q \<and>
    (\<forall>v. pte_of h' root v = pte_of h root v) \<and> length (free_pgs h) \<le> Suc (length (free_pgs h'))"
proof -
  let ?k = "ptp_index l va"
  obtain pg where pg: "ptps h n = Some pg" using pt_node [OF i n(1) _ n(4,5)] n(2,3) by auto
  have e: "entry h n j = pg j" for j using pg by (simp add: entry_def)
  show ?thesis
  proof (cases "ptslot h n ?k = 0")
    case False
    then have v: "\<not> IS_PTE_INVALID (pg ?k)" using e by (auto simp: ptslot_def)
    have "tables_ok h root" using i by (simp add: pt_inv_def)
    then have "IS_PTE_TABLE (entry h (foldl (ptslot h) root is) ?k)"
      using n v e unfolding tables_ok_def by (metis ptp_index_less)
    then have "IS_PTE_TABLE (pg ?k)" using n(4) e by simp
    then have "next_alloc n l va h = Inr (ptslot h n ?k, h)"
      using pg v n(3,5) e by (simp add: next_alloc_def get_next_ptp_def Let_def ptslot_def)
    then show ?thesis using i False n(4) by (intro exI [of _ "ptslot h n ?k"] exI [of _ h]) simp
  next
    case True
    obtain q qs where q: "free_pgs h = q # qs" using f by (cases "free_pgs h") auto
    have "tables_ok h root" using i by (simp add: pt_inv_def)
    then have "IS_PTE_INVALID (entry h (foldl (ptslot h) root is) ?k) \<or> GET_NEXT_PTP (entry h (foldl (ptslot h) root is) ?k) \<noteq> 0"
      using n unfolding tables_ok_def by (metis ptp_index_less)
    then have v: "IS_PTE_INVALID (pg ?k)" using n(4) e True by (auto simp: ptslot_def split: if_splits)
    have q0: "page_ok q" "q \<noteq> n" "q \<noteq> 0" using i q pg by (auto simp: pt_inv_def page_ok_def)
    define h' where "h' = h\<lparr>free_pgs := qs, ptps := (ptps h)(q \<mapsto> (\<lambda>_. 0), n \<mapsto> pg(?k := table_pte (virt_to_phys q)))\<rparr>"
    have "next_alloc n l va h = Inr (q, h')"
      using pg v n(3,5) q q0 table_pte_facts next_of_table_pte [OF q0(1)]
      by (simp add: next_alloc_def get_next_ptp_def Let_def get_page_def write_pte_def h'_def)
    moreover have "entry h' p j = (if p = n \<and> j = ?k then table_pte (virt_to_phys q) else if p = q then 0 else entry h p j)" for p j
      using pg q0(2) by (simp add: entry_def h'_def)
    moreover have "dom (ptps h') = insert q (dom (ptps h))" "free_pgs h' = qs" using pg by (auto simp: h'_def)
    ultimately show ?thesis
      using new_table [OF i n(1) _ n(4,5) ptp_index_less True q, of h'] n(2,3) q
      by (intro exI [of _ q] exI [of _ h']) simp
  qed
qed

lemma tables_for:
  assumes i: "pt_inv root h" and f: "3 \<le> length (free_pgs h)" and r: "root \<noteq> 0"
  shows "\<exists>l1 h1 l2 h2 l3 h3. next_alloc root 0 va h = Inr (l1, h1) \<and> next_alloc l1 1 va h1 = Inr (l2, h2) \<and> next_alloc l2 2 va h2 = Inr (l3, h3) \<and>
    pt_inv root h3 \<and> l3 \<noteq> 0 \<and> foldl (ptslot h3) root (pt_path va) = l3 \<and> (\<forall>v. pte_of h3 root v = pte_of h root v) \<and>
    length (free_pgs h) \<le> 3 + length (free_pgs h3)"
proof -
  have f0: "free_pgs h \<noteq> []" using f by (cases "free_pgs h") auto
  obtain l1 h1 where 1: "next_alloc root 0 va h = Inr (l1, h1)" "pt_inv root h1" "l1 \<noteq> 0" "foldl (ptslot h1) root [ptp_index 0 va] = l1"
    "\<forall>v. pte_of h1 root v = pte_of h root v" "length (free_pgs h) \<le> Suc (length (free_pgs h1))"
    using next_alloc_ok [OF i, of "[]" 0 root va] f0 r by auto
  have f1: "free_pgs h1 \<noteq> []" using f 1(6) by (cases "free_pgs h1") auto
  obtain l2 h2 where 2: "next_alloc l1 1 va h1 = Inr (l2, h2)" "pt_inv root h2" "l2 \<noteq> 0" "foldl (ptslot h2) root [ptp_index 0 va, ptp_index 1 va] = l2"
    "\<forall>v. pte_of h2 root v = pte_of h1 root v" "length (free_pgs h1) \<le> Suc (length (free_pgs h2))"
    using next_alloc_ok [OF 1(2), of "[ptp_index 0 va]" 1 l1 va] f1 1(3,4) by auto
  have f2: "free_pgs h2 \<noteq> []" using f 1(6) 2(6) by (cases "free_pgs h2") auto
  obtain l3 h3 where 3: "next_alloc l2 2 va h2 = Inr (l3, h3)" "pt_inv root h3" "l3 \<noteq> 0"
    "foldl (ptslot h3) root [ptp_index 0 va, ptp_index 1 va, ptp_index 2 va] = l3"
    "\<forall>v. pte_of h3 root v = pte_of h2 root v" "length (free_pgs h2) \<le> Suc (length (free_pgs h3))"
    using next_alloc_ok [OF 2(2), of "[ptp_index 0 va, ptp_index 1 va]" 2 l2 va] f2 2(3,4) by auto
  show ?thesis using 1 2 3 unfolding pt_path_def
    by (intro exI [of _ l1] exI [of _ h1] exI [of _ l2] exI [of _ h2] exI [of _ l3] exI [of _ h3]) simp
qed

section \<open>Changing entries of level 3\<close>

lemma leaf_table:
  assumes i: "pt_inv root h" and l3: "foldl (ptslot h) root (pt_path va) = l3" "l3 \<noteq> 0" and pg: "ptps h l3 = Some pg"
    and h': "h' = h\<lparr>ptps := (ptps h)(l3 \<mapsto> pg')\<rparr>"
  shows "pt_inv root h'" "foldl (ptslot h') root (pt_path v) = foldl (ptslot h) root (pt_path v)"
    "pte_of h' root v = (if vpn v div 512 = vpn va div 512 then pg' (ptp_index 3 v) else pte_of h root v)"
proof -
  have sh: "pt.shaped (ptslot h) (dom (ptps h)) root" and tb: "tables_ok h root" using i by (auto simp: pt_inv_def)
  have e: "entry h' p j = (if p = l3 then pg' j else entry h p j)" for p j by (simp add: entry_def h')
  have s: "ptslot h' r j = ptslot h r j" if "r \<noteq> l3" for r j using that e by (simp add: ptslot_def)
  note lf = pt.shaped_leaf_node [OF sh pt_path_idx(1) _ l3 s]
  have w: "foldl (ptslot h') root js = foldl (ptslot h) root js" if "pt.idx js" "length js < 4" for js
    using lf(1) [OF _ _ that] pt_path_idx(2) [of va] by simp
  have ne: "foldl (ptslot h) root js \<noteq> l3" if "pt.idx js" "length js < 3" for js
  proof
    assume "foldl (ptslot h) root js = l3"
    then have "foldl (ptslot h) root js = foldl (ptslot h) root (pt_path va)" "foldl (ptslot h) root js \<noteq> 0" using l3 by simp_all
    then have "js = pt_path va" using pt.shaped_inj [OF sh that(1) pt_path_idx(1)] that(2) pt_path_idx(2) [of va] by auto
    then show False using that(2) pt_path_idx(2) [of va] by simp
  qed
  have "tables_ok h' root"
    unfolding tables_ok_def
  proof (intro allI impI)
    fix js j assume a: "pt.idx js \<and> length js < 3 \<and> j < PTP_ENTRIES \<and> foldl (ptslot h') root js \<noteq> 0 \<and>
      \<not> IS_PTE_INVALID (entry h' (foldl (ptslot h') root js) j)"
    then have p: "foldl (ptslot h') root js = foldl (ptslot h) root js" using w [of js] by simp
    moreover have "foldl (ptslot h) root js \<noteq> l3" using ne a by blast
    ultimately show "IS_PTE_TABLE (entry h' (foldl (ptslot h') root js) j) \<and> GET_NEXT_PTP (entry h' (foldl (ptslot h') root js) j) \<noteq> 0"
      using a tb e unfolding tables_ok_def by metis
  qed
  moreover have "dom (ptps h') = dom (ptps h)" using pg by (auto simp: h')
  ultimately show "pt_inv root h'" using i lf(2) pg l3(2) pt_path_idx(2) [of va] by (auto simp: pt_inv_def h')
  show p: "foldl (ptslot h') root (pt_path v) = foldl (ptslot h) root (pt_path v)" using w pt_path_idx by simp
  show "pte_of h' root v = (if vpn v div 512 = vpn va div 512 then pg' (ptp_index 3 v) else pte_of h root v)"
  proof (cases "pt_path v = pt_path va")
    case True
    then show ?thesis using p e l3(1) vpn_path [of v va] by (simp add: pte_of_def)
  next
    case False
    have "foldl (ptslot h) root (pt_path v) \<noteq> l3"
    proof
      assume "foldl (ptslot h) root (pt_path v) = l3"
      then have "foldl (ptslot h) root (pt_path v) = foldl (ptslot h) root (pt_path va)" "foldl (ptslot h) root (pt_path v) \<noteq> 0" using l3 by simp_all
      then show False using pt.shaped_inj [OF sh pt_path_idx(1) pt_path_idx(1)] pt_path_idx(2) False by auto
    qed
    then show ?thesis using False vpn_path [of v va] p e by (simp add: pte_of_def)
  qed
qed

section \<open>The loops\<close>

declare map_ptes.simps [simp del] map_loop.simps [simp del] change_ptes.simps [simp del] change_loop.simps [simp del]

text \<open>
  \<open>in_range va n v\<close>: the page of \<open>v\<close> is one of the \<open>n\<close> pages from \<open>va\<close> on; \<open>frame_of pa va v\<close> is its
  frame when \<open>va\<close> is mapped to \<open>pa\<close>.
\<close>

definition in_range :: "u64 \<Rightarrow> nat \<Rightarrow> u64 \<Rightarrow> bool" where
  "in_range va n v = (vpn va \<le> vpn v \<and> vpn v < vpn va + n)"

definition frame_of :: "u64 \<Rightarrow> u64 \<Rightarrow> u64 \<Rightarrow> u64" where
  "frame_of pa va v = pa + (of_nat (vpn v) - of_nat (vpn va)) * PAGE_SIZE"

lemma in_range_0 [simp]: "\<not> in_range va 0 v"
  by (simp add: in_range_def)

lemma frame_step: "vpn va' = vpn va + m \<Longrightarrow> frame_of (pa + of_nat m * PAGE_SIZE) va' v = frame_of pa va v"
  by (simp add: frame_of_def algebra_simps)

lemma range_step: "vpn va' = vpn va + m \<Longrightarrow> m \<le> cnt \<Longrightarrow> in_range va cnt v \<longleftrightarrow> in_range va m v \<or> in_range va' (cnt - m) v"
  by (auto simp: in_range_def)

lemma map_ptes_eq:
  assumes "i \<le> PTP_ENTRIES" "0 < cnt" "ptps h l3 = Some pg" "m = min cnt (PTP_ENTRIES - i)"
  shows "map_ptes i l3 flags va pa cnt h = Inr (va + of_nat m * PAGE_SIZE, pa + of_nat m * PAGE_SIZE, cnt - m,
    h\<lparr>ptps := (ptps h)(l3 \<mapsto> (\<lambda>k. if i \<le> k \<and> k < i + m then page_pte (pa + (of_nat k - of_nat i) * PAGE_SIZE) flags else pg k))\<rparr>)"
  using assms
proof (induction "PTP_ENTRIES - i" arbitrary: i va pa cnt h pg m)
  case 0
  then have "m = 0" "\<not> i < PTP_ENTRIES" by simp_all
  moreover have "(ptps h)(l3 \<mapsto> (\<lambda>k. if i \<le> k \<and> k < i + 0 then page_pte (pa + (of_nat k - of_nat i) * PAGE_SIZE) flags else pg k)) = ptps h"
    using 0(4) by (auto simp: fun_eq_iff)
  ultimately show ?case by (simp only: map_ptes.simps [of i] if_False) simp
next
  case (Suc d)
  then have i: "i < PTP_ENTRIES" by simp
  define h1 where "h1 = h\<lparr>ptps := (ptps h)(l3 \<mapsto> pg(i := page_pte pa flags))\<rparr>"
  have w: "write_pte l3 i (page_pte pa flags) h = Inr h1" using Suc.prems(3) by (simp add: write_pte_def h1_def)
  show ?case
  proof (cases "cnt - 1 = 0")
    case True
    then have c: "cnt = 1" "m = 1" using Suc.prems(2,4) i by simp_all
    have f: "pg(i := page_pte pa flags) = (\<lambda>k. if i \<le> k \<and> k < i + 1 then page_pte (pa + (of_nat k - of_nat i) * PAGE_SIZE) flags else pg k)"
      by (auto simp: fun_eq_iff)
    show ?thesis using w i True c by (simp add: map_ptes.simps [of i] h1_def f [simplified])
  next
    case False
    define m' where "m' = min (cnt - 1) (PTP_ENTRIES - Suc i)"
    have m: "m = Suc m'" using Suc.prems(2,4) False i by (simp add: m'_def)
    have IH: "map_ptes (Suc i) l3 flags (va + PAGE_SIZE) (pa + PAGE_SIZE) (cnt - 1) h1 =
        Inr (va + PAGE_SIZE + of_nat m' * PAGE_SIZE, pa + PAGE_SIZE + of_nat m' * PAGE_SIZE, cnt - 1 - m',
          h1\<lparr>ptps := (ptps h1)(l3 \<mapsto> (\<lambda>k. if Suc i \<le> k \<and> k < Suc i + m' then page_pte (pa + PAGE_SIZE + (of_nat k - of_nat (Suc i)) * PAGE_SIZE) flags
            else (pg(i := page_pte pa flags)) k))\<rparr>)"
      by (rule Suc.hyps(1)) (use Suc.hyps(2) Suc.prems False i m'_def in \<open>auto simp: h1_def\<close>)
    have f: "(\<lambda>k. if Suc i \<le> k \<and> k < Suc i + m' then page_pte (pa + PAGE_SIZE + (of_nat k - of_nat (Suc i)) * PAGE_SIZE) flags else (pg(i := page_pte pa flags)) k) =
        (\<lambda>k. if i \<le> k \<and> k < i + m then page_pte (pa + (of_nat k - of_nat i) * PAGE_SIZE) flags else pg k)"
      by (auto simp: fun_eq_iff m algebra_simps)
    have "map_ptes i l3 flags va pa cnt h = map_ptes (Suc i) l3 flags (va + PAGE_SIZE) (pa + PAGE_SIZE) (cnt - 1) h1"
      using i w False by (subst map_ptes.simps) simp
    also note IH
    finally show ?thesis unfolding f by (simp add: m h1_def algebra_simps)
  qed
qed

lemma vpn_add:
  assumes "unat va + m * 4096 < 2 ^ 48"
  shows "unat (va + of_nat m * PAGE_SIZE) = unat va + m * 4096" "vpn (va + of_nat m * PAGE_SIZE) = vpn va + m"
proof -
  have "unat (of_nat m * PAGE_SIZE) = m * 4096"
  proof -
    have "(of_nat m :: u64) * PAGE_SIZE = of_nat (m * 4096)" by (simp add: PAGE_SIZE_def)
    then show ?thesis using assms by (simp add: unsigned_of_nat take_bit_nat_eq_self del: of_nat_mult)
  qed
  then show u: "unat (va + of_nat m * PAGE_SIZE) = unat va + m * 4096" using assms by (simp add: unat_add_lt)
  have "(unat va + m * 4096) div 4096 = unat va div 4096 + m" by simp
  moreover have "unat va div 4096 + m < 2 ^ 36" using assms by simp
  ultimately show "vpn (va + of_nat m * PAGE_SIZE) = vpn va + m" unfolding vpn_def u by simp
qed

lemma vpn_block:
  assumes "m \<le> 512 - vpn va mod 512"
  shows "vpn v div 512 = vpn va div 512 \<and> vpn va mod 512 \<le> vpn v mod 512 \<and> vpn v mod 512 < vpn va mod 512 + m \<longleftrightarrow>
    in_range va m v"
proof -
  have d: "x = 512 * (x div 512) + x mod 512" "x mod 512 < 512" for x :: nat by simp_all
  show ?thesis
  proof (cases "vpn v div 512 = vpn va div 512")
    case True
    then show ?thesis unfolding in_range_def using d(1) [of "vpn v"] d(1) [of "vpn va"] by linarith
  next
    case False
    then have "vpn v div 512 < vpn va div 512 \<or> vpn v div 512 \<ge> vpn va div 512 + 1" by linarith
    then show ?thesis unfolding in_range_def using False d [of "vpn v"] d [of "vpn va"] assms by linarith
  qed
qed

text \<open>One table of level 3, in terms of addresses.\<close>

lemma leaf_range:
  assumes i: "pt_inv root h" and l3: "foldl (ptslot h) root (pt_path va) = l3" "l3 \<noteq> 0" and pg: "ptps h l3 = Some pg"
    and m: "m \<le> 512 - vpn va mod 512"
    and pg': "\<And>k. k < PTP_ENTRIES \<Longrightarrow> pg' k = (if vpn va mod 512 \<le> k \<and> k < vpn va mod 512 + m then f k (pg k) else pg k)"
  shows "pte_of (h\<lparr>ptps := (ptps h)(l3 \<mapsto> pg')\<rparr>) root v = (if in_range va m v then f (vpn v mod 512) (pte_of h root v) else pte_of h root v)"
proof (cases "vpn v div 512 = vpn va div 512")
  case True
  then have "pte_of h root v = pg (ptp_index 3 v)" using vpn_path [of v va] l3(1) pg by (simp add: pte_of_def entry_def)
  then show ?thesis using leaf_table(3) [OF i l3 pg refl, of pg' v] vpn_block [OF m, of v] True pg' [OF ptp_index_less [of 3 v]] ptp_index_vpn(1) [of v] by auto
next
  case False
  then have "\<not> in_range va m v" using vpn_block [OF m, of v] by blast
  then show ?thesis using leaf_table(3) [OF i l3 pg refl, of pg' v] False by simp
qed

lemma advance:
  assumes "m \<le> cnt" "unat va + cnt * 4096 \<le> 2 ^ 48"
  shows "unat (va + of_nat m * PAGE_SIZE) + (cnt - m) * 4096 \<le> 2 ^ 48" "cnt - m \<noteq> 0 \<Longrightarrow> vpn (va + of_nat m * PAGE_SIZE) = vpn va + m"
proof -
  have "unat va + m * 4096 < 2 ^ 64" using assms by simp
  moreover have "(of_nat m :: u64) * PAGE_SIZE = of_nat (m * 4096)" by (simp add: PAGE_SIZE_def)
  ultimately have "unat (va + of_nat m * PAGE_SIZE) = unat va + m * 4096"
    by (simp add: unat_add_lt unat_of_nat_lt del: of_nat_mult)
  then show "unat (va + of_nat m * PAGE_SIZE) + (cnt - m) * 4096 \<le> 2 ^ 48" using assms by (simp add: diff_mult_distrib)
  assume "cnt - m \<noteq> 0"
  then have "unat va + m * 4096 < 2 ^ 48" using assms by simp
  then show "vpn (va + of_nat m * PAGE_SIZE) = vpn va + m" by (rule vpn_add)
qed

lemma map_loop_ok:
  assumes "pt_inv root h" "root \<noteq> 0" "cnt \<le> fuel" "3 * cnt \<le> length (free_pgs h)" "unat va + cnt * 4096 \<le> 2 ^ 48"
  shows "\<exists>h'. map_loop fuel root flags va pa cnt h = Inr h' \<and> pt_inv root h' \<and>
    (\<forall>v. pte_of h' root v = (if in_range va cnt v then page_pte (frame_of pa va v) flags else pte_of h root v))"
  using assms
proof (induction fuel arbitrary: h va pa cnt)
  case 0
  then show ?case by (simp add: map_loop.simps)
next
  case (Suc fuel)
  show ?case
  proof (cases "cnt = 0")
    case True
    then show ?thesis using Suc.prems(1) by (simp add: map_loop.simps)
  next
    case False
    have "3 \<le> length (free_pgs h)" using Suc.prems(4) False by simp
    then obtain l1 h1 l2 h2 l3 h3 where t: "next_alloc root 0 va h = Inr (l1, h1)" "next_alloc l1 1 va h1 = Inr (l2, h2)" "next_alloc l2 2 va h2 = Inr (l3, h3)"
      and h3: "pt_inv root h3" "l3 \<noteq> 0" "foldl (ptslot h3) root (pt_path va) = l3" "\<forall>v. pte_of h3 root v = pte_of h root v"
        "length (free_pgs h) \<le> 3 + length (free_pgs h3)"
      using tables_for [OF Suc.prems(1) _ Suc.prems(2), of va] by blast
    obtain pg where pg: "ptps h3 l3 = Some pg" using pt_node [OF h3(1) pt_path_idx(1) _ h3(3,2)] pt_path_idx(2) [of va] by auto
    define i where "i = ptp_index 3 va"
    define m where "m = min cnt (PTP_ENTRIES - i)"
    define pg' where "pg' = (\<lambda>k. if i \<le> k \<and> k < i + m then page_pte (pa + (of_nat k - of_nat i) * PAGE_SIZE) flags else pg k)"
    define h4 where "h4 = h3\<lparr>ptps := (ptps h3)(l3 \<mapsto> pg')\<rparr>"
    have i: "i = vpn va mod 512" "i < PTP_ENTRIES" using ptp_index_vpn(1) [of va] ptp_index_less [of 3 va] by (simp_all add: i_def)
    have m: "0 < m" "m \<le> cnt" "m \<le> 512 - vpn va mod 512" using False i by (auto simp: m_def PTP_ENTRIES_def)
    have mp: "map_ptes (ptp_index 3 va) l3 flags va pa cnt h3 = Inr (va + of_nat m * PAGE_SIZE, pa + of_nat m * PAGE_SIZE, cnt - m, h4)"
      using map_ptes_eq [OF less_imp_le [OF i(2)] _ pg m_def, of flags va pa] False by (simp add: i_def [symmetric] h4_def pg'_def)
    have i4: "pt_inv root h4" using leaf_table(1) [OF h3(1,3,2) pg] h4_def by simp
    have "pte_of h4 root v = (if in_range va m v then page_pte (pa + (of_nat (vpn v mod 512) - of_nat i) * PAGE_SIZE) flags else pte_of h3 root v)" for v
      unfolding h4_def by (rule leaf_range [OF h3(1,3,2) pg m(3)]) (simp add: pg'_def i)
    moreover have "page_pte (pa + (of_nat (vpn v mod 512) - of_nat i) * PAGE_SIZE) flags = page_pte (frame_of pa va v) flags" if "in_range va m v" for v
    proof -
      have "vpn v div 512 = vpn va div 512" using vpn_block [OF m(3), of v] that by blast
      then have "vpn v + vpn va mod 512 = vpn va + vpn v mod 512"
        using div_mult_mod_eq [of "vpn v" 512] div_mult_mod_eq [of "vpn va" 512] by linarith
      then have "(of_nat (vpn v) :: u64) + of_nat i = of_nat (vpn va) + of_nat (vpn v mod 512)"
        unfolding i(1) by (simp only: of_nat_add [symmetric])
      then have "(of_nat (vpn v mod 512) :: u64) - of_nat i = of_nat (vpn v) - of_nat (vpn va)" by (simp add: algebra_simps)
      then show ?thesis by (simp add: frame_of_def)
    qed
    ultimately have p4: "pte_of h4 root v = (if in_range va m v then page_pte (frame_of pa va v) flags else pte_of h root v)" for v
      using h3(4) by simp
    have "3 * (cnt - m) \<le> length (free_pgs h4)" "cnt - m \<le> fuel" using Suc.prems(3,4) h3(5) m(1) by (simp_all add: h4_def)
    then obtain h' where h': "map_loop fuel root flags (va + of_nat m * PAGE_SIZE) (pa + of_nat m * PAGE_SIZE) (cnt - m) h4 = Inr h'" "pt_inv root h'"
      "\<forall>v. pte_of h' root v = (if in_range (va + of_nat m * PAGE_SIZE) (cnt - m) v
        then page_pte (frame_of (pa + of_nat m * PAGE_SIZE) (va + of_nat m * PAGE_SIZE) v) flags else pte_of h4 root v)"
      using Suc.IH [OF i4 Suc.prems(2) _ _ advance(1) [OF m(2) Suc.prems(5)]] by blast
    have "map_loop (Suc fuel) root flags va pa cnt h = Inr h'" using t mp h'(1) False by (subst map_loop.simps) simp
    moreover have "pte_of h' root v = (if in_range va cnt v then page_pte (frame_of pa va v) flags else pte_of h root v)" for v
    proof (cases "cnt - m = 0")
      case True
      then show ?thesis using h'(3) p4 m(2) by simp
    next
      case F: False
      note a = advance(2) [OF m(2) Suc.prems(5) F]
      show ?thesis using h'(3) p4 [of v] frame_step [OF a] range_step [OF a m(2), of v] by simp
    qed
    ultimately show ?thesis using h'(2) by blast
  qed
qed

lemma change_ptes_eq:
  assumes "i \<le> PTP_ENTRIES" "0 < cnt" "ptps h l3 = Some pg" "m = min cnt (PTP_ENTRIES - i)"
  shows "change_ptes upd i l3 va (int cnt) h = Inr (va + of_nat m * PAGE_SIZE, int (cnt - m),
    h\<lparr>ptps := (ptps h)(l3 \<mapsto> (\<lambda>k. if i \<le> k \<and> k < i + m then upd (pg k) else pg k))\<rparr>)"
  using assms
proof (induction "PTP_ENTRIES - i" arbitrary: i va cnt h pg m)
  case 0
  then have "m = 0" "\<not> i < PTP_ENTRIES" by simp_all
  moreover have "(ptps h)(l3 \<mapsto> (\<lambda>k. if i \<le> k \<and> k < i + 0 then upd (pg k) else pg k)) = ptps h"
    using 0(4) by (auto simp: fun_eq_iff)
  ultimately show ?case by (simp only: change_ptes.simps [of _ i] if_False) simp
next
  case (Suc d)
  then have i: "i < PTP_ENTRIES" by simp
  define h1 where "h1 = h\<lparr>ptps := (ptps h)(l3 \<mapsto> pg(i := upd (pg i)))\<rparr>"
  have w: "write_pte l3 i (upd (pg i)) h = Inr h1" using Suc.prems(3) by (simp add: write_pte_def h1_def)
  show ?case
  proof (cases "cnt = 1")
    case True
    then have c: "m = 1" using Suc.prems(4) i by simp
    have f: "pg(i := upd (pg i)) = (\<lambda>k. if i \<le> k \<and> k < i + 1 then upd (pg k) else pg k)"
      by (auto simp: fun_eq_iff)
    show ?thesis using w i True c Suc.prems(3) by (simp add: change_ptes.simps [of _ i] h1_def f [simplified])
  next
    case False
    define m' where "m' = min (cnt - 1) (PTP_ENTRIES - Suc i)"
    have m: "m = Suc m'" using Suc.prems(2,4) False i by (auto simp: m'_def)
    have IH: "change_ptes upd (Suc i) l3 (va + PAGE_SIZE) (int (cnt - 1)) h1 =
        Inr (va + PAGE_SIZE + of_nat m' * PAGE_SIZE, int (cnt - 1 - m'),
          h1\<lparr>ptps := (ptps h1)(l3 \<mapsto> (\<lambda>k. if Suc i \<le> k \<and> k < Suc i + m' then upd ((pg(i := upd (pg i))) k)
            else (pg(i := upd (pg i))) k))\<rparr>)"
      by (rule Suc.hyps(1)) (use Suc.hyps(2) Suc.prems False i m'_def in \<open>auto simp: h1_def\<close>)
    have f: "(\<lambda>k. if Suc i \<le> k \<and> k < Suc i + m' then upd ((pg(i := upd (pg i))) k) else (pg(i := upd (pg i))) k) =
        (\<lambda>k. if i \<le> k \<and> k < i + m then upd (pg k) else pg k)"
      by (auto simp: fun_eq_iff m)
    have c: "int (cnt - 1) = int cnt - 1" "int cnt - 1 \<noteq> 0" using Suc.prems(2) False by auto
    have "change_ptes upd i l3 va (int cnt) h = change_ptes upd (Suc i) l3 (va + PAGE_SIZE) (int (cnt - 1)) h1"
      unfolding c(1) using i w c(2) Suc.prems(3) by (subst change_ptes.simps) (simp only: if_True if_False deref_def option.case bind_res.simps Suc_eq_plus1)
    also note IH
    finally show ?thesis unfolding f by (simp add: m h1_def algebra_simps)
  qed
qed

text \<open>The three lookups of the walk, when the tables are there.\<close>

lemma walk_down:
  assumes i: "pt_inv root h" and w: "foldl (ptslot h) root (pt_path va) = l3" "l3 \<noteq> 0"
  shows "\<exists>l1 l2. get_next_ptp root 0 va False h = Inr (0, Some (l1, root, ptp_index 0 va), h) \<and>
    get_next_ptp l1 1 va False h = Inr (0, Some (l2, l1, ptp_index 1 va), h) \<and>
    get_next_ptp l2 2 va False h = Inr (0, Some (l3, l2, ptp_index 2 va), h)"
proof -
  have sh: "pt.shaped (ptslot h) (dom (ptps h)) root" using i by (simp add: pt_inv_def)
  have z: "ptslot h 0 k = 0" for k using sh by (simp add: pt.shaped_def)
  define l1 where "l1 = ptslot h root (ptp_index 0 va)"
  define l2 where "l2 = ptslot h l1 (ptp_index 1 va)"
  have l3: "l3 = ptslot h l2 (ptp_index 2 va)" using w(1) by (simp add: pt_path_def l1_def l2_def)
  have n: "l2 \<noteq> 0" "l1 \<noteq> 0" "root \<noteq> 0" using w(2) l3 z pt.shaped_root [OF sh] by (auto simp: l2_def)
  have "get_next_ptp root 0 va False h = Inr (0, Some (l1, root, ptp_index 0 va), h)"
    using next_ptp_ok [OF i, of "[]" root 0 va] n by (simp add: l1_def)
  moreover have "get_next_ptp l1 1 va False h = Inr (0, Some (l2, l1, ptp_index 1 va), h)"
    using next_ptp_ok [OF i, of "[ptp_index 0 va]" l1 1 va] n by (simp add: l1_def l2_def)
  moreover have "get_next_ptp l2 2 va False h = Inr (0, Some (l3, l2, ptp_index 2 va), h)"
    using next_ptp_ok [OF i, of "[ptp_index 0 va, ptp_index 1 va]" l2 2 va] n w(2) l3 by (simp add: l1_def l2_def)
  ultimately show ?thesis by blast
qed

definition has_tables :: "pt_heap \<Rightarrow> u64 \<Rightarrow> u64 \<Rightarrow> nat \<Rightarrow> bool" where
  "has_tables h root va n = (\<forall>v. in_range va n v \<longrightarrow> foldl (ptslot h) root (pt_path v) \<noteq> 0)"

lemma change_loop_ok:
  assumes "pt_inv root h" "root \<noteq> 0" "cnt \<le> fuel" "unat va + cnt * 4096 \<le> 2 ^ 48" "has_tables h root va cnt"
  shows "\<exists>h'. change_loop fuel upd root va (int cnt) h = Inr h' \<and> pt_inv root h' \<and> free_pgs h' = free_pgs h \<and>
    (\<forall>v. pte_of h' root v = (if in_range va cnt v then upd (pte_of h root v) else pte_of h root v))"
  using assms
proof (induction fuel arbitrary: h va cnt)
  case 0
  then show ?case by (simp add: change_loop.simps)
next
  case (Suc fuel)
  show ?case
  proof (cases "cnt = 0")
    case True
    then show ?thesis using Suc.prems(1) by (simp add: change_loop.simps)
  next
    case False
    have "in_range va cnt va" using False by (simp add: in_range_def)
    then obtain l3 where l3: "foldl (ptslot h) root (pt_path va) = l3" "l3 \<noteq> 0" using Suc.prems(5) unfolding has_tables_def by blast
    obtain l1 l2 where d: "get_next_ptp root 0 va False h = Inr (0, Some (l1, root, ptp_index 0 va), h)"
      "get_next_ptp l1 1 va False h = Inr (0, Some (l2, l1, ptp_index 1 va), h)"
      "get_next_ptp l2 2 va False h = Inr (0, Some (l3, l2, ptp_index 2 va), h)" using walk_down [OF Suc.prems(1) l3] by blast
    obtain pg where pg: "ptps h l3 = Some pg" using pt_node [OF Suc.prems(1) pt_path_idx(1) _ l3] pt_path_idx(2) [of va] by auto
    define i where "i = ptp_index 3 va"
    define m where "m = min cnt (PTP_ENTRIES - i)"
    define pg' where "pg' = (\<lambda>k. if i \<le> k \<and> k < i + m then upd (pg k) else pg k)"
    define h1 where "h1 = h\<lparr>ptps := (ptps h)(l3 \<mapsto> pg')\<rparr>"
    have i: "i = vpn va mod 512" "i < PTP_ENTRIES" using ptp_index_vpn(1) [of va] ptp_index_less [of 3 va] by (simp_all add: i_def)
    have m: "0 < m" "m \<le> cnt" "m \<le> 512 - vpn va mod 512" using False i by (auto simp: m_def PTP_ENTRIES_def)
    have ch: "change_ptes upd (ptp_index 3 va) l3 va (int cnt) h = Inr (va + of_nat m * PAGE_SIZE, int (cnt - m), h1)"
      using change_ptes_eq [OF less_imp_le [OF i(2)] _ pg m_def, of upd va] False by (simp add: i_def [symmetric] h1_def pg'_def)
    note lf = leaf_table [OF Suc.prems(1) l3 pg, of h1 pg', OF h1_def]
    have p1: "pte_of h1 root v = (if in_range va m v then upd (pte_of h root v) else pte_of h root v)" for v
      unfolding h1_def by (rule leaf_range [OF Suc.prems(1) l3 pg m(3)]) (simp add: pg'_def i)
    have "has_tables h1 root (va + of_nat m * PAGE_SIZE) (cnt - m)"
    proof (cases "cnt - m = 0")
      case F: False
      show ?thesis using Suc.prems(5) lf(2) range_step [OF advance(2) [OF m(2) Suc.prems(4) F] m(2)] by (simp add: has_tables_def)
    qed (simp add: has_tables_def)
    moreover have "cnt - m \<le> fuel" using Suc.prems(3) m(1) by simp
    ultimately obtain h' where h': "change_loop fuel upd root (va + of_nat m * PAGE_SIZE) (int (cnt - m)) h1 = Inr h'" "pt_inv root h'" "free_pgs h' = free_pgs h1"
      "\<forall>v. pte_of h' root v = (if in_range (va + of_nat m * PAGE_SIZE) (cnt - m) v then upd (pte_of h1 root v) else pte_of h1 root v)"
      using Suc.IH [OF lf(1) Suc.prems(2) _ advance(1) [OF m(2) Suc.prems(4)]] by blast
    have "change_loop (Suc fuel) upd root va (int cnt) h = Inr h'"
      using d ch h'(1) False by (subst change_loop.simps) (simp add: ENOMAPPING_def Let_def)
    moreover have "pte_of h' root v = (if in_range va cnt v then upd (pte_of h root v) else pte_of h root v)" for v
    proof (cases "cnt - m = 0")
      case True
      then show ?thesis using h'(4) p1 m(2) by simp
    next
      case F: False
      note a = advance(2) [OF m(2) Suc.prems(4) F]
      have "\<not> (in_range va m v \<and> in_range (va + of_nat m * PAGE_SIZE) (cnt - m) v)" using a by (auto simp: in_range_def)
      then show ?thesis using h'(4) p1 [of v] range_step [OF a m(2), of v] by auto
    qed
    ultimately show ?thesis using h'(2,3) by (auto simp: h1_def)
  qed
qed

section \<open>Lookup\<close>

lemma query_ok:
  assumes i: "pt_inv root h"
  shows "\<exists>e. query_in_pgtbl root v h = Inr (if IS_PTE_INVALID (pte_of h root v) then (- ENOMAPPING, None)
    else (0, Some (pa_page (pte_of h root v) + (v AND mask 12), e)))"
proof -
  have sh: "pt.shaped (ptslot h) (dom (ptps h)) root" using i by (simp add: pt_inv_def)
  have z: "ptslot h 0 k = 0" for k using sh by (simp add: pt.shaped_def)
  have r: "root \<noteq> 0" using pt.shaped_root [OF sh] by blast
  define l1 where "l1 = ptslot h root (ptp_index 0 v)"
  define l2 where "l2 = ptslot h l1 (ptp_index 1 v)"
  define l3 where "l3 = ptslot h l2 (ptp_index 2 v)"
  have w: "foldl (ptslot h) root (pt_path v) = l3" by (simp add: pt_path_def l1_def l2_def l3_def)
  have s0: "get_next_ptp root 0 v False h = Inr (if l1 = 0 then (- ENOMAPPING, None, h) else (0, Some (l1, root, ptp_index 0 v), h))"
    using next_ptp_ok [OF i, of "[]" root 0 v] r by (simp add: l1_def)
  have s1: "get_next_ptp l1 1 v False h = Inr (if l2 = 0 then (- ENOMAPPING, None, h) else (0, Some (l2, l1, ptp_index 1 v), h))" if "l1 \<noteq> 0"
    using next_ptp_ok [OF i, of "[ptp_index 0 v]" l1 1 v] that by (simp add: l1_def l2_def)
  have s2: "get_next_ptp l2 2 v False h = Inr (if l3 = 0 then (- ENOMAPPING, None, h) else (0, Some (l3, l2, ptp_index 2 v), h))" if "l2 \<noteq> 0"
    using next_ptp_ok [OF i, of "[ptp_index 0 v, ptp_index 1 v]" l2 2 v] that by (simp add: l1_def l2_def l3_def)
  have none: "IS_PTE_INVALID (pte_of h root v)" if "l3 = 0"
    using that w entry_null [OF i] by (simp add: pte_of_def IS_PTE_INVALID_def)
  have neg: "- ENOMAPPING < 0" by (simp add: ENOMAPPING_def)
  show ?thesis
  proof (cases "l3 = 0")
    case True
    have "l1 = 0 \<or> l2 = 0 \<or> l3 = 0" using True by blast
    then show ?thesis using none [OF True] s0 s1 s2 neg z
      by (cases "l1 = 0"; cases "l2 = 0") (auto simp: query_in_pgtbl_def next_or_def l2_def l3_def)
  next
    case False
    then have n: "l1 \<noteq> 0" "l2 \<noteq> 0" using z by (auto simp: l2_def l3_def)
    obtain pg where pg: "ptps h l3 = Some pg" using pt_node [OF i pt_path_idx(1) _ w False] pt_path_idx(2) [of v] by auto
    have e: "pte_of h root v = pg (ptp_index 3 v)" using w pg by (simp add: pte_of_def entry_def)
    show ?thesis using s0 s1 [OF n(1)] s2 [OF n(2)] n False pg e neg
      by (auto simp: query_in_pgtbl_def next_or_def get_next_ptp_def [of l3] Let_def GET_NEXT_PTP_def GET_PADDR_pa_page)
  qed
qed

section \<open>Properties\<close>


text \<open>A root table and pages for further tables.\<close>

definition demo_pages :: "nat \<Rightarrow> u64 list" where
  "demo_pages n = map (\<lambda>i. KBASE + of_nat (i + 2) * PAGE_SIZE) [0..<n]"

definition demo_pt :: "nat \<Rightarrow> pt_heap" where
  "demo_pt n = \<lparr>ptps = [KBASE + PAGE_SIZE \<mapsto> (\<lambda>_. 0)], free_pgs = demo_pages n\<rparr>"

lemma demo_pt_inv: "pt_inv (KBASE + PAGE_SIZE) (demo_pt 6)"
proof -
  have z: "ptslot (demo_pt 6) p k = 0" for p k by (simp add: ptslot_def entry_def demo_pt_def IS_PTE_INVALID_def)
  have "pt.shaped (ptslot (demo_pt 6)) (dom (ptps (demo_pt 6))) (KBASE + PAGE_SIZE)"
    by (rule pt.shaped_new) (simp_all add: z, simp_all add: demo_pt_def KBASE_def PAGE_SIZE_def)
  moreover have "tables_ok (demo_pt 6) (KBASE + PAGE_SIZE)"
    by (simp add: tables_ok_def entry_def demo_pt_def IS_PTE_INVALID_def)
  moreover have "demo_pages 6 = [0xFFFFFF0000002000, 0xFFFFFF0000003000, 0xFFFFFF0000004000, 0xFFFFFF0000005000, 0xFFFFFF0000006000, 0xFFFFFF0000007000]"
    by (simp add: demo_pages_def KBASE_def PAGE_SIZE_def upt_rec)
  then have "distinct (demo_pages 6)" "\<forall>p \<in> set (demo_pages 6). page_ok p \<and> p \<noteq> KBASE + PAGE_SIZE"
    by (simp_all add: page_ok_def pa_page_def virt_to_phys_def KBASE_def PAGE_SIZE_def take_bit_eq_mask mask_eq_exp_minus_1
        push_bit_eq_mult drop_bit_eq_div)
  ultimately show ?thesis by (simp add: pt_inv_def demo_pt_def KBASE_def PAGE_SIZE_def)
qed



lemma mapped_has_tables:
  assumes i: "pt_inv root h" and p: "\<forall>v. in_range va n v \<longrightarrow> \<not> IS_PTE_INVALID (pte_of h root v)"
  shows "has_tables h root va n"
  unfolding has_tables_def
proof (intro allI impI)
  fix v assume "in_range va n v"
  then have "pte_of h root v \<noteq> 0" using p by (auto simp: IS_PTE_INVALID_def)
  then show "foldl (ptslot h) root (pt_path v) \<noteq> 0" using entry_null [OF i] by (auto simp: pte_of_def)
qed

lemma demo_mapped:
  obtains h where "map_range_in_pgtbl (KBASE + PAGE_SIZE) 0x1ff000 0x8000000 0x2000 VMR_READ (demo_pt 6) = Inr (0, h)"
    "pt_inv (KBASE + PAGE_SIZE) h" "has_tables h (KBASE + PAGE_SIZE) 0x1ff000 2"
proof -
  have f: "3 * 2 \<le> length (free_pgs (demo_pt 6))" "unat (0x1ff000 :: u64) + 2 * 4096 \<le> 2 ^ 48" by (simp_all add: demo_pt_def demo_pages_def)
  obtain h where h: "map_loop 2 (KBASE + PAGE_SIZE) VMR_READ 0x1ff000 0x8000000 2 (demo_pt 6) = Inr h" "pt_inv (KBASE + PAGE_SIZE) h"
    "\<forall>v. pte_of h (KBASE + PAGE_SIZE) v = (if in_range 0x1ff000 2 v then page_pte (frame_of 0x8000000 0x1ff000 v) VMR_READ
      else pte_of (demo_pt 6) (KBASE + PAGE_SIZE) v)"
    using map_loop_ok [OF demo_pt_inv _ order_refl f, of VMR_READ "0x8000000"] by (auto simp: KBASE_def PAGE_SIZE_def)
  have "total_page_cnt 0x2000 = 2" by (simp add: total_page_cnt_def PAGE_SIZE_def)
  then have "map_range_in_pgtbl (KBASE + PAGE_SIZE) 0x1ff000 0x8000000 0x2000 VMR_READ (demo_pt 6) = Inr (0, h)"
    using h(1) by (simp add: map_range_in_pgtbl_def) (simp add: KBASE_def PAGE_SIZE_def)
  moreover have "has_tables h (KBASE + PAGE_SIZE) 0x1ff000 2"
    using h(3) page_pte_facts(1) by (intro mapped_has_tables [OF h(2)]) simp
  ultimately show ?thesis using that h(2) by blast
qed


lemma returns_zeroE:
  assumes "case x of Inl _ \<Rightarrow> False | Inr (r, y) \<Rightarrow> r = (0 :: int) \<and> P y"
  obtains y where "x = Inr (0, y)" "P y"
  using assms by (auto split: sum.splits)


end
