(* ===== verification/Vmspace.thy ===== *)
theory Vmspace
  imports Threads Page_Map Radix
begin

text \<open>
  Address spaces (\<^verbatim>\<open>kernel/mm/vmregion.c\<close>), memory objects, page faults
  (\<^verbatim>\<open>kernel/mm/pgfault_handler.c\<close>, \<^verbatim>\<open>kernel/arch/aarch64/irq/pgfault.c\<close>) and the system
  calls of \<^verbatim>\<open>kernel/object/memory.c\<close> that work on an address space alone. The state is one address
  space with its page tables, the regions and the memory objects by their addresses, and the bytes
  of the pages given to memory objects. Locks are flags; taking one that is held is a deadlock.

  Memory comes from pools: \<open>vmr_pool\<close> are the slots that \<^verbatim>\<open>kmalloc\<close> returns for a region, in this
  order, \<open>free_pgs\<close> the pages of \<^verbatim>\<open>get_pages(0)\<close>, and the radix tree of each memory object has its
  own supply of nodes. \<^verbatim>\<open>kfree\<close> of a region overwrites the link at its beginning and no other field;
  reads of a region that has just been freed, which the code does, see the old values.
\<close>

section \<open>Memory objects, regions and address spaces\<close>

definition PMO_ANONYM :: u64 where "PMO_ANONYM = 0"
definition PMO_DATA :: u64 where "PMO_DATA = 1"
definition PMO_FILE :: u64 where "PMO_FILE = 2"
definition PMO_SHM :: u64 where "PMO_SHM = 3"
definition PMO_DEVICE :: u64 where "PMO_DEVICE = 5"
definition PMO_FORBID :: u64 where "PMO_FORBID = 10"

lemmas pmo_types = PMO_ANONYM_def PMO_DATA_def PMO_FILE_def PMO_SHM_def PMO_DEVICE_def PMO_FORBID_def

record pmobject =
  pmo_radix :: "(radix \<times> radix_heap) option"
  pmo_start :: u64
  pmo_size :: u64
  pmo_type :: u64

record vmregion =
  vmr_start :: u64
  vmr_size :: u64
  vmr_perm :: u64
  vmr_pmo :: nat

record vmspace =
  vmr_list :: "nat list"
  pgtbl :: u64
  vmspace_lock :: bool
  pgtbl_lock :: bool
  heap_lock :: bool
  heap_vmr :: "nat option"
  user_current_heap :: u64
  user_current_mmap_addr :: u64
  ran_on :: "bool list"

record vm_state =
  vmrs :: "nat \<rightharpoonup> vmregion"
  vmr_pool :: "nat list"
  pmos :: "nat \<rightharpoonup> pmobject"
  pts :: pt_heap
  user_mem :: "u64 \<Rightarrow> 8 word"
  space :: vmspace

definition upd_space :: "(vmspace \<Rightarrow> vmspace) \<Rightarrow> vm_state \<Rightarrow> vm_state" where
  "upd_space f s = s\<lparr>space := f (space s)\<rparr>"

definition upd_vmr :: "nat \<Rightarrow> vmregion \<Rightarrow> vm_state \<Rightarrow> vm_state" where
  "upd_vmr v r s = s\<lparr>vmrs := (vmrs s)(v \<mapsto> r)\<rparr>"

definition lock_vmspace :: "vm_state \<Rightarrow> vm_state res" where
  "lock_vmspace s = (if vmspace_lock (space s) then Inl Deadlock else Inr (upd_space (vmspace_lock_update (\<lambda>_. True)) s))"

definition unlock_vmspace :: "vm_state \<Rightarrow> vm_state" where
  "unlock_vmspace s = upd_space (vmspace_lock_update (\<lambda>_. False)) s"

text \<open>A change of the page table under \<^verbatim>\<open>pgtbl_lock\<close>.\<close>

definition with_pgtbl :: "(u64 \<Rightarrow> pt_heap \<Rightarrow> (s32 \<times> pt_heap) res) \<Rightarrow> vm_state \<Rightarrow> (s32 \<times> vm_state) res" where
  "with_pgtbl f s = (if pgtbl_lock (space s) then Inl Deadlock
    else bind_res (f (pgtbl (space s)) (pts s)) (\<lambda>(ret, h). Inr (ret, s\<lparr>pts := h\<rparr>)))"

section \<open>Regions of an address space\<close>

definition alloc_vmregion :: "vm_state \<Rightarrow> nat option \<times> vm_state" where
  "alloc_vmregion s = (case vmr_pool s of [] \<Rightarrow> (None, s) | v # vs \<Rightarrow> (Some v, s\<lparr>vmr_pool := vs\<rparr>))"

definition free_vmregion :: "nat \<Rightarrow> vm_state \<Rightarrow> vm_state" where
  "free_vmregion v s = s\<lparr>vmr_pool := v # vmr_pool s\<rparr>"

fun intersects_any :: "u64 \<Rightarrow> u64 \<Rightarrow> nat list \<Rightarrow> vm_state \<Rightarrow> bool res" where
  "intersects_any new_start new_end [] s = Inr False"
| "intersects_any new_start new_end (v # vs) s = bind_res (deref (vmrs s) v) (\<lambda>vmr.
     let start = vmr_start vmr; e = start + vmr_size vmr in
     if \<not> (new_start \<ge> e \<or> new_end \<le> start) then Inr True else intersects_any new_start new_end vs s)"

definition check_vmr_intersect :: "nat \<Rightarrow> vm_state \<Rightarrow> bool res" where
  "check_vmr_intersect v s = bind_res (deref (vmrs s) v) (\<lambda>vmr.
    if vmr_size vmr = 0 then Inr False
    else intersects_any (vmr_start vmr) (vmr_start vmr + vmr_size vmr - 1) (vmr_list (space s)) s)"

definition is_vmr_in_vmspace :: "nat \<Rightarrow> vm_state \<Rightarrow> bool" where
  "is_vmr_in_vmspace v s = (v \<in> set (vmr_list (space s)))"

definition add_vmr_to_vmspace :: "nat \<Rightarrow> vm_state \<Rightarrow> (s32 \<times> vm_state) res" where
  "add_vmr_to_vmspace v s = bind_res (check_vmr_intersect v s) (\<lambda>b.
    bug_on b (Inr (0, upd_space (vmr_list_update (\<lambda>l. v # l)) s)))"

definition del_vmr_from_vmspace :: "nat \<Rightarrow> vm_state \<Rightarrow> vm_state" where
  "del_vmr_from_vmspace v s =
    free_vmregion v (if is_vmr_in_vmspace v s then upd_space (vmr_list_update (remove1 v)) s else s)"

definition fill_page_table :: "nat \<Rightarrow> vm_state \<Rightarrow> (s32 \<times> vm_state) res" where
  "fill_page_table v s = bind_res (deref (vmrs s) v) (\<lambda>vmr. bind_res (deref (pmos s) (vmr_pmo vmr)) (\<lambda>pmo.
    with_pgtbl (\<lambda>p. map_range_in_pgtbl p (vmr_start vmr) (pmo_start pmo) (pmo_size pmo) (vmr_perm vmr)) s))"

fun find_vmr_in :: "nat list \<Rightarrow> u64 \<Rightarrow> vm_state \<Rightarrow> nat option res" where
  "find_vmr_in [] addr s = Inr None"
| "find_vmr_in (v # vs) addr s = bind_res (deref (vmrs s) v) (\<lambda>vmr.
     if addr \<ge> vmr_start vmr \<and> addr < vmr_start vmr + vmr_size vmr then Inr (Some v) else find_vmr_in vs addr s)"

definition find_vmr_for_va :: "u64 \<Rightarrow> vm_state \<Rightarrow> nat option res" where
  "find_vmr_for_va addr s = find_vmr_in (vmr_list (space s)) addr s"

text \<open>
  \<^verbatim>\<open>unmap_vmrs\<close>: each recursive call comes after the deletion of a region, so one more call than
  there are regions is enough fuel.
\<close>

fun unmap_vmrs :: "nat \<Rightarrow> u64 \<Rightarrow> u64 \<Rightarrow> vm_state \<Rightarrow> (s32 \<times> vm_state) res" where
  "unmap_vmrs fuel va len s =
    (if len = 0 then Inr (0, s) else case fuel of 0 \<Rightarrow> Inl No_Return | Suc fuel' \<Rightarrow>
      bind_res (find_vmr_for_va va s) (\<lambda>found. case found of None \<Rightarrow> Inr (0, s) | Some v \<Rightarrow>
      bind_res (deref (vmrs s) v) (\<lambda>vmr.
        if vmr_size vmr > len
        then bind_res (deref (pmos s) (vmr_pmo vmr)) (\<lambda>pmo. bug_on (pmo_type pmo \<noteq> PMO_ANONYM)
          (bind_res (with_pgtbl (\<lambda>p. unmap_range_in_pgtbl p va len)
              (upd_vmr v (vmr\<lparr>vmr_size := vmr_size vmr - len, vmr_start := vmr_start vmr + len\<rparr>) s))
            (\<lambda>(_, s1). Inr (0, s1))))
        else bind_res (with_pgtbl (\<lambda>p. unmap_range_in_pgtbl p va len) s) (\<lambda>(_, s1).
          let s2 = del_vmr_from_vmspace v s1 in
          bind_res (deref (vmrs s2) v) (\<lambda>vmr1. unmap_vmrs fuel' (va + vmr_size vmr1) (len - vmr_size vmr1) s2)))))"

declare unmap_vmrs.simps [simp del]

section \<open>Operations on an address space\<close>

definition vmspace_map_range :: "u64 \<Rightarrow> u64 \<Rightarrow> u64 \<Rightarrow> nat \<Rightarrow> vm_state \<Rightarrow> (s32 \<times> vm_state) res" where
  "vmspace_map_range va len flags p s = bind_res (deref (pmos s) p) (\<lambda>pmo.
    bug_on (pmo_type pmo \<noteq> PMO_DATA \<and> pmo_type pmo \<noteq> PMO_ANONYM \<and> pmo_type pmo \<noteq> PMO_DEVICE \<and> pmo_type pmo \<noteq> PMO_SHM)
      (let va1 = ROUND_DOWN va PAGE_SIZE; len1 = if len < PAGE_SIZE then PAGE_SIZE else len in
       case alloc_vmregion s of (None, s1) \<Rightarrow> Inr (- ENOMEM, s1) | (Some v, s1) \<Rightarrow>
       let s2 = upd_vmr v \<lparr>vmr_start = va1, vmr_size = len1,
         vmr_perm = (if pmo_type pmo = PMO_DEVICE then flags OR VMR_DEVICE else flags), vmr_pmo = p\<rparr> s1 in
       bind_res (lock_vmspace s2) (\<lambda>s3.
       bind_res (add_vmr_to_vmspace v s3) (\<lambda>(ret, s4).
         let s5 = unlock_vmspace s4 in
         if ret < 0 then Inr (ret, free_vmregion v s5)
         else if pmo_type pmo = PMO_DATA \<or> pmo_type pmo = PMO_DEVICE
         then bind_res (fill_page_table v s5) (\<lambda>(_, s6). Inr (0, s6))
         else Inr (0, s5)))))"

text \<open>Without a region the function returns before \<^verbatim>\<open>vmspace_lock\<close> is released.\<close>

definition vmspace_unmap_range :: "u64 \<Rightarrow> u64 \<Rightarrow> vm_state \<Rightarrow> (s32 \<times> vm_state) res" where
  "vmspace_unmap_range va len s = bind_res (lock_vmspace s) (\<lambda>s1.
    bind_res (find_vmr_for_va va s1) (\<lambda>found. case found of None \<Rightarrow> Inr (- 1, s1) | Some v \<Rightarrow>
    bind_res (deref (vmrs s1) v) (\<lambda>vmr.
      bug_on ((va \<noteq> vmr_start vmr \<or> len \<noteq> vmr_size vmr) \<and> len \<noteq> 0)
        (let s2 = unlock_vmspace (del_vmr_from_vmspace v s1) in
         if vmr_pmo vmr = 0 then Inr (0, s2)
         else if len \<noteq> 0 then bind_res (with_pgtbl (\<lambda>p. unmap_range_in_pgtbl p va len) s2) (\<lambda>(_, s3). Inr (0, s3))
         else Inr (0, s2)))))"

definition HEAP_START :: u64 where "HEAP_START = 0x600000000000"
definition MMAP_START :: u64 where "MMAP_START = 0x700000000000"

definition init_heap_vmr :: "u64 \<Rightarrow> nat \<Rightarrow> vm_state \<Rightarrow> (nat option \<times> vm_state) res" where
  "init_heap_vmr va p s = (case alloc_vmregion s of (None, s1) \<Rightarrow> Inr (None, s1) | (Some v, s1) \<Rightarrow>
    bind_res (lock_vmspace (upd_vmr v \<lparr>vmr_start = va, vmr_size = 0, vmr_perm = VMR_READ OR VMR_WRITE, vmr_pmo = p\<rparr> s1)) (\<lambda>s2.
    bind_res (add_vmr_to_vmspace v s2) (\<lambda>(ret, s3).
      let s4 = unlock_vmspace s3 in
      if ret < 0 then Inr (None, free_vmregion v s4) else Inr (Some v, s4))))"

definition vmspace_mmap_with_pmo :: "nat \<Rightarrow> u64 \<Rightarrow> u64 \<Rightarrow> vm_state \<Rightarrow> (u64 \<times> vm_state) res" where
  "vmspace_mmap_with_pmo p len perm s = (case alloc_vmregion s of (None, s1) \<Rightarrow> Inr (- 1, s1) | (Some v, s1) \<Rightarrow>
    bind_res (lock_vmspace s1) (\<lambda>s2.
      let addr = user_current_mmap_addr (space s2) in
      bug_on (len mod PAGE_SIZE \<noteq> 0)
        (bind_res (deref (pmos s2) p) (\<lambda>pmo.
          bug_on (pmo_type pmo \<noteq> PMO_ANONYM \<and> pmo_type pmo \<noteq> PMO_SHM \<and> pmo_type pmo \<noteq> PMO_FILE)
            (bind_res (add_vmr_to_vmspace v (upd_vmr v \<lparr>vmr_start = addr, vmr_size = len, vmr_perm = perm, vmr_pmo = p\<rparr>
                (upd_space (user_current_mmap_addr_update (\<lambda>a. a + len)) s2))) (\<lambda>(ret, s3).
              let s4 = unlock_vmspace s3 in
              if ret < 0 then Inr (- 1, free_vmregion v s4) else Inr (addr, s4)))))))"

definition vmspace_munmap_with_addr :: "u64 \<Rightarrow> u64 \<Rightarrow> vm_state \<Rightarrow> (s32 \<times> vm_state) res" where
  "vmspace_munmap_with_addr va len s = bind_res (lock_vmspace s) (\<lambda>s1.
    bind_res (unmap_vmrs (Suc (length (vmr_list (space s1)))) va len s1) (\<lambda>(ret, s2). Inr (ret, unlock_vmspace s2)))"

definition vmspace_unmap_shm_vmr :: "u64 \<Rightarrow> vm_state \<Rightarrow> (s32 \<times> vm_state) res" where
  "vmspace_unmap_shm_vmr va s = bind_res (lock_vmspace s) (\<lambda>s1.
    bind_res (find_vmr_for_va va s1) (\<lambda>found. case found of None \<Rightarrow> Inr (- EINVAL, unlock_vmspace s1) | Some v \<Rightarrow>
    bind_res (deref (vmrs s1) v) (\<lambda>vmr. bind_res (deref (pmos s1) (vmr_pmo vmr)) (\<lambda>pmo.
      bug_on (pmo_type pmo \<noteq> PMO_SHM) (bug_on (va \<noteq> vmr_start vmr)
        (bind_res (with_pgtbl (\<lambda>p. unmap_range_in_pgtbl p (vmr_start vmr) (vmr_size vmr)) s1) (\<lambda>(_, s2).
          Inr (0, unlock_vmspace (del_vmr_from_vmspace v s2)))))))))"

definition reset_history_cpus :: "vmspace \<Rightarrow> vmspace" where
  "reset_history_cpus vs = vs\<lparr>ran_on := replicate PLAT_CPU_NUM False\<rparr>"

definition clear_history_cpu :: "nat \<Rightarrow> vmspace \<Rightarrow> vmspace res" where
  "clear_history_cpu cpu vs = bug_on (cpu \<ge> PLAT_CPU_NUM) (bind_res (upd_res (ran_on vs) cpu False) (\<lambda>l. Inr (vs\<lparr>ran_on := l\<rparr>)))"

text \<open>\<^verbatim>\<open>heap_vmr\<close> is not initialised here; the object is allocated zeroed.\<close>

definition vmspace_init :: "vm_state \<Rightarrow> (s32 \<times> vm_state) res" where
  "vmspace_init s = (case get_page (pts s) of (p, h) \<Rightarrow> bug_on (p = 0)
    (Inr (0, upd_space (\<lambda>vs. reset_history_cpus (vs\<lparr>vmr_list := [], pgtbl := p, vmspace_lock := False, pgtbl_lock := False,
        user_current_heap := HEAP_START, heap_lock := False, user_current_mmap_addr := MMAP_START\<rparr>))
      (s\<lparr>pts := h\<lparr>ptps := (ptps h)(p \<mapsto> (\<lambda>_. 0))\<rparr>\<rparr>))))"

text \<open>
  The loop of \<^verbatim>\<open>destroy_vmspace\<close> advances through \<^verbatim>\<open>vmr->node.next\<close> after the region is freed, and
  that is the word that \<^verbatim>\<open>kfree\<close> has overwritten.
\<close>

definition destroy_vmspace :: "vm_state \<Rightarrow> (s32 \<times> vm_state) res" where
  "destroy_vmspace s = (case vmr_list (space s) of [] \<Rightarrow> Inr (0, s) | v # vs \<Rightarrow>
    bind_res (deref (vmrs s) v) (\<lambda>vmr.
    bind_res (unmap_range_in_pgtbl (pgtbl (space s)) (vmr_start vmr) (vmr_size vmr) (pts (del_vmr_from_vmspace v s))) (\<lambda>_.
      Inl Bad_Access)))"

section \<open>Memory objects and page faults\<close>

text \<open>
  \<open>kva\<close> is what \<^verbatim>\<open>kmalloc\<close> returns for the data of the object, \<open>nodes\<close> the supply of tree nodes.
\<close>

definition pmo_init :: "nat \<Rightarrow> u64 \<Rightarrow> u64 \<Rightarrow> u64 \<Rightarrow> u64 \<Rightarrow> radix_heap \<Rightarrow> vm_state \<Rightarrow> vm_state res" where
  "pmo_init p ty len paddr kva nodes s =
    (let o0 = \<lparr>pmo_radix = None, pmo_start = 0, pmo_size = ROUND_UP len PAGE_SIZE, pmo_type = ty\<rparr>;
         put = (\<lambda>pm. Inr (s\<lparr>pmos := (pmos s)(p \<mapsto> pm)\<rparr>)) in
     if ty = PMO_DATA then put (o0\<lparr>pmo_start := virt_to_phys kva\<rparr>)
     else if ty = PMO_FILE \<or> ty = PMO_ANONYM \<or> ty = PMO_SHM
     then bind_res (new_radix True) (\<lambda>r. bind_res (init_radix r nodes) (\<lambda>rh. put (o0\<lparr>pmo_radix := Some rh\<rparr>)))
     else if ty = PMO_DEVICE then put (o0\<lparr>pmo_start := paddr\<rparr>)
     else if ty = PMO_FORBID then put o0
     else Inl Bug_On)"

definition commit_page_to_pmo :: "nat \<Rightarrow> u64 \<Rightarrow> u64 \<Rightarrow> vm_state \<Rightarrow> vm_state res" where
  "commit_page_to_pmo p index pa s = bind_res (deref (pmos s) p) (\<lambda>pmo.
    bug_on (pmo_type pmo \<noteq> PMO_ANONYM \<and> pmo_type pmo \<noteq> PMO_SHM \<and> pmo_type pmo \<noteq> PMO_FILE)
      (case pmo_radix pmo of None \<Rightarrow> Inl Bad_Access | Some (r, h) \<Rightarrow>
        bind_res (radix_add r index (unat pa) h) (\<lambda>(ret, r1, h1). bug_on (ret \<noteq> 0)
          (Inr (s\<lparr>pmos := (pmos s)(p \<mapsto> pmo\<lparr>pmo_radix := Some (r1, h1)\<rparr>)\<rparr>)))))"

definition get_page_from_pmo :: "nat \<Rightarrow> u64 \<Rightarrow> vm_state \<Rightarrow> u64 res" where
  "get_page_from_pmo p index s = bind_res (deref (pmos s) p) (\<lambda>pmo.
    case pmo_radix pmo of None \<Rightarrow> Inl Bad_Access | Some (r, h) \<Rightarrow> bind_res (radix_get r index h) (\<lambda>pa. Inr (of_nat pa)))"

definition memset_page :: "u64 \<Rightarrow> vm_state \<Rightarrow> vm_state res" where
  "memset_page kva s = (if kva = 0 then Inl Bad_Access
    else Inr (s\<lparr>user_mem := (\<lambda>a. if a - kva < PAGE_SIZE then 0 else user_mem s a)\<rparr>))"

definition map_fault_page :: "u64 \<Rightarrow> u64 \<Rightarrow> u64 \<Rightarrow> vm_state \<Rightarrow> vm_state res" where
  "map_fault_page fault_addr pa perm s = bind_res
    (with_pgtbl (\<lambda>p. map_range_in_pgtbl p (ROUND_DOWN fault_addr PAGE_SIZE) pa PAGE_SIZE perm) s) (\<lambda>(_, s1). Inr s1)"

text \<open>
  The page is allocated and cleared. When there is no page left, \<^verbatim>\<open>virt_to_phys\<close> of the null
  pointer is not 0, so that the check does not catch it and the null pointer is cleared.
\<close>

definition new_pmo_page :: "nat \<Rightarrow> u64 \<Rightarrow> vm_state \<Rightarrow> (u64 \<times> vm_state) res" where
  "new_pmo_page p index s = (case get_page (pts s) of (kva, h1) \<Rightarrow>
    let pa = virt_to_phys kva in bug_on (pa = 0)
      (bind_res (memset_page (phys_to_virt pa) (s\<lparr>pts := h1\<rparr>)) (\<lambda>s1.
       bind_res (commit_page_to_pmo p index pa s1) (\<lambda>s2. Inr (pa, s2)))))"

text \<open>Without a region the function returns with \<^verbatim>\<open>vmspace_lock\<close> held.\<close>

definition handle_trans_fault :: "u64 \<Rightarrow> vm_state \<Rightarrow> (s32 \<times> vm_state) res" where
  "handle_trans_fault fault_addr s = bind_res (lock_vmspace s) (\<lambda>s1.
    bind_res (find_vmr_for_va fault_addr s1) (\<lambda>found. case found of None \<Rightarrow> Inr (- ENOMAPPING, s1) | Some v \<Rightarrow>
    bind_res (deref (vmrs s1) v) (\<lambda>vmr. let p = vmr_pmo vmr in bind_res (deref (pmos s1) p) (\<lambda>pmo.
      if pmo_type pmo = PMO_FILE \<or> pmo_type pmo = PMO_ANONYM \<or> pmo_type pmo = PMO_SHM
      then let offset = ROUND_DOWN fault_addr PAGE_SIZE - vmr_start vmr;
               past_file = offset \<ge> pmo_size pmo \<and> pmo_type pmo = PMO_FILE;
               perm = if past_file then VMR_READ OR VMR_WRITE OR VMR_EXEC else vmr_perm vmr;
               index = offset div PAGE_SIZE
           in bug_on (\<not> past_file \<and> offset \<ge> pmo_size pmo)
             (bind_res (get_page_from_pmo p index s1) (\<lambda>pa.
              bind_res (if pa = 0 then new_pmo_page p index s1 else Inr (pa, s1)) (\<lambda>(pa1, s2).
              bind_res (map_fault_page fault_addr pa1 perm s2) (\<lambda>s3. Inr (0, unlock_vmspace s3)))))
      else Inl Bug_On))))"

definition GET_ESR_EL1_FSC :: "u64 \<Rightarrow> u64" where "GET_ESR_EL1_FSC esr = esr AND 0x3f"

text \<open>Translation faults of level 0 to 3 have the codes 4 to 7; every other fault is a \<^verbatim>\<open>BUG_ON\<close>.\<close>

definition do_page_fault :: "u64 \<Rightarrow> u64 \<Rightarrow> vm_state \<Rightarrow> vm_state res" where
  "do_page_fault esr fault_addr s =
    (if GET_ESR_EL1_FSC esr \<in> {4, 5, 6, 7}
     then bind_res (handle_trans_fault fault_addr s) (\<lambda>(ret, s1). bug_on (ret \<noteq> 0) (Inr s1))
     else Inl Bug_On)"

section \<open>System calls on the own address space\<close>

text \<open>
  The calls look up the address space of the caller with \<^verbatim>\<open>obj_get\<close> and give the reference back
  before they return; what they do in between is modelled here.
\<close>

definition PROT_READ :: u64 where "PROT_READ = 1"
definition PROT_WRITE :: u64 where "PROT_WRITE = 2"
definition PROT_EXEC :: u64 where "PROT_EXEC = 4"
definition EACCES :: s32 where "EACCES = 13"

definition get_vmr_prot :: "u64 \<Rightarrow> u64" where
  "get_vmr_prot prot =
    (let r1 = if prot AND PROT_READ \<noteq> 0 then VMR_READ else 0;
         r2 = if prot AND PROT_WRITE \<noteq> 0 then r1 OR VMR_WRITE else r1
     in if prot AND PROT_EXEC \<noteq> 0 then r2 OR VMR_EXEC else r2)"

definition valid_prot :: "u64 \<Rightarrow> u64 \<Rightarrow> bool" where
  "valid_prot vmr_prot target_prot =
    (\<not> (target_prot AND PROT_READ \<noteq> 0 \<and> vmr_prot AND PROT_READ = 0) \<and>
     \<not> (target_prot AND PROT_WRITE \<noteq> 0 \<and> vmr_prot AND PROT_WRITE = 0) \<and>
     \<not> (target_prot AND PROT_EXEC \<noteq> 0 \<and> vmr_prot AND PROT_EXEC = 0))"

definition sys_handle_munmap :: "u64 \<Rightarrow> u64 \<Rightarrow> vm_state \<Rightarrow> (s32 \<times> vm_state) res" where
  "sys_handle_munmap addr len s =
    (if addr mod PAGE_SIZE \<noteq> 0 \<or> len mod PAGE_SIZE \<noteq> 0 then Inr (- EINVAL, s) else vmspace_munmap_with_addr addr len s)"

definition sys_shmdt :: "u64 \<Rightarrow> vm_state \<Rightarrow> (s32 \<times> vm_state) res" where
  "sys_shmdt shmaddr s = vmspace_unmap_shm_vmr shmaddr s"

text \<open>The part of \<^verbatim>\<open>sys_handle_brk\<close> for an address other than 0.\<close>

definition brk_enlarge :: "u64 \<Rightarrow> vm_state \<Rightarrow> (u64 \<times> vm_state) res" where
  "brk_enlarge addr s = (if heap_lock (space s) then Inl Deadlock else
    case heap_vmr (space s) of None \<Rightarrow> Inl Bad_Access | Some v \<Rightarrow>
    bind_res (deref (vmrs s) v) (\<lambda>vmr.
      if addr \<ge> vmr_start vmr + vmr_size vmr
      then let len = addr - (vmr_start vmr + vmr_size vmr) in
        bind_res (deref (pmos s) (vmr_pmo vmr)) (\<lambda>pmo.
          Inr (addr, (upd_vmr v (vmr\<lparr>vmr_size := vmr_size vmr + len\<rparr>) s)
            \<lparr>pmos := (pmos s)(vmr_pmo vmr \<mapsto> pmo\<lparr>pmo_size := pmo_size pmo + len\<rparr>)\<rparr>))
      else Inl Bug_On))"

lemma find_vmr_in_covers:
  "find_vmr_in vs a s = Inr (Some v) \<Longrightarrow> v \<in> set vs \<and> (\<exists>r. vmrs s v = Some r \<and> vmr_start r \<le> a \<and> a < vmr_start r + vmr_size r)"
  by (induction vs) (auto simp: res_simps split: if_splits)

lemma find_vmr_size: "find_vmr_for_va a s = Inr (Some v) \<Longrightarrow> vmrs s v = Some r \<Longrightarrow> vmr_size r \<noteq> 0"
  using find_vmr_in_covers [of "vmr_list (space s)" a s v] by (auto simp: find_vmr_for_va_def)

text \<open>
  The two loops of \<^verbatim>\<open>sys_handle_mprotect\<close>. The first ends with a value to return, or with what is
  left of the signed length; the second sets the permissions.
\<close>

function mprotect_check :: "u64 \<Rightarrow> int \<Rightarrow> u64 \<Rightarrow> vm_state \<Rightarrow> (s32 + int) res" where
  "mprotect_check va remaining target_prot s =
    (if remaining \<le> 0 then Inr (Inr remaining)
     else bind_res (find_vmr_for_va va s) (\<lambda>found. case found of None \<Rightarrow> Inr (Inl (- EACCES)) | Some v \<Rightarrow>
       bind_res (deref (vmrs s) v) (\<lambda>vmr.
         if \<not> valid_prot (vmr_perm vmr) target_prot then Inr (Inl (- EACCES))
         else if remaining < uint (vmr_size vmr) then Inr (Inl 0)
         else mprotect_check (va + vmr_size vmr) (remaining - uint (vmr_size vmr)) target_prot s)))"
  by pat_completeness auto
termination
proof (relation "measure (\<lambda>(_, n, _). nat n)", simp, goal_cases)
  case (1 va remaining target_prot s found v vmr)
  then have "vmr_size vmr \<noteq> 0" using find_vmr_size [of va s v vmr] by (simp add: deref_eq_Inr)
  then have "0 < uint (vmr_size vmr)" by (simp add: word_neq_0_conv word_less_def)
  then show ?case using 1 by simp
qed

function mprotect_vmrs :: "u64 \<Rightarrow> int \<Rightarrow> u64 \<Rightarrow> vm_state \<Rightarrow> vm_state res" where
  "mprotect_vmrs va remaining target_prot s =
    (if remaining \<le> 0 then Inr s
     else bind_res (find_vmr_for_va va s) (\<lambda>found. case found of None \<Rightarrow> Inl Bad_Access | Some v \<Rightarrow>
       bind_res (deref (vmrs s) v) (\<lambda>vmr.
         mprotect_vmrs (va + vmr_size vmr) (remaining - uint (vmr_size vmr)) target_prot (upd_vmr v (vmr\<lparr>vmr_perm := target_prot\<rparr>) s))))"
  by pat_completeness auto
termination
proof (relation "measure (\<lambda>(_, n, _). nat n)", simp, goal_cases)
  case (1 va remaining target_prot s found v vmr)
  then have "vmr_size vmr \<noteq> 0" using find_vmr_size [of va s v vmr] by (simp add: deref_eq_Inr)
  then have "0 < uint (vmr_size vmr)" by (simp add: word_neq_0_conv word_less_def)
  then show ?case using 1 by simp
qed

declare mprotect_check.simps [simp del] mprotect_vmrs.simps [simp del]

definition sys_handle_mprotect :: "u64 \<Rightarrow> u64 \<Rightarrow> u64 \<Rightarrow> vm_state \<Rightarrow> (s32 \<times> vm_state) res" where
  "sys_handle_mprotect addr len prot s =
    (if addr mod PAGE_SIZE \<noteq> 0 \<or> len mod PAGE_SIZE \<noteq> 0 then Inr (- EINVAL, s)
     else if len = 0 then Inr (0, s)
     else let target_prot = get_vmr_prot prot in
       bind_res (lock_vmspace s) (\<lambda>s1. bind_res (mprotect_check addr (sint len) target_prot s1) (\<lambda>out. case out of
         Inl ret \<Rightarrow> Inr (ret, unlock_vmspace s1)
       | Inr remaining \<Rightarrow> bug_on (remaining \<noteq> 0)
           (bind_res (mprotect_vmrs addr (sint len) target_prot s1) (\<lambda>s2.
            bind_res (with_pgtbl (\<lambda>p. mprotect_in_pgtbl p addr len target_prot) s2) (\<lambda>(_, s3).
              Inr (0, unlock_vmspace s3)))))))"

text \<open>
  The kernel address that \<^verbatim>\<open>read_write_pmo\<close> copies to or from, or the error it returns.
\<close>

definition rw_pmo_addr :: "nat \<Rightarrow> u64 \<Rightarrow> u64 \<Rightarrow> vm_state \<Rightarrow> ((s32 + u64) \<times> vm_state) res" where
  "rw_pmo_addr p offset sz s = bind_res (deref (pmos s) p) (\<lambda>pmo.
    if pmo_type pmo \<noteq> PMO_DATA \<and> pmo_type pmo \<noteq> PMO_ANONYM then Inr (Inl (- EINVAL), s)
    else if offset + sz < offset \<or> offset + sz > pmo_size pmo then Inr (Inl (- EINVAL), s)
    else if pmo_type pmo = PMO_DATA then Inr (Inr (phys_to_virt (pmo_start pmo) + offset), s)
    else let index = ROUND_DOWN offset PAGE_SIZE div PAGE_SIZE in
      bind_res (get_page_from_pmo p index s) (\<lambda>pa.
        if pa = 0 then (case get_page (pts s) of (kva, h1) \<Rightarrow> bug_on (kva = 0)
          (bind_res (memset_page kva (s\<lparr>pts := h1\<rparr>)) (\<lambda>s1.
           bind_res (commit_page_to_pmo p index (virt_to_phys kva) s1) (\<lambda>s2. Inr (Inr kva, s2)))))
        else Inr (Inr (phys_to_virt pa), s)))"

end
