(* ===== verification/Vmspace_Props.thy ===== *)
theory Vmspace_Props
  imports Vmspace
begin

text \<open>
  Properties of address spaces: regions never overlap, page faults bring in the pages of memory
  objects on demand, and what a partial unmapping does to the pages that remain.
\<close>

section \<open>Regions\<close>

definition covers :: "vmregion \<Rightarrow> u64 \<Rightarrow> bool" where
  "covers r a = (vmr_start r \<le> a \<and> a < vmr_start r + vmr_size r)"

definition paged :: "u64 \<Rightarrow> bool" where
  "paged x = (4096 dvd unat x)"

definition regions_ok :: "vm_state \<Rightarrow> bool" where
  "regions_ok s = (distinct (vmr_list (space s)) \<and> distinct (vmr_pool s) \<and> set (vmr_list (space s)) \<inter> set (vmr_pool s) = {} \<and>
    (\<forall>v \<in> set (vmr_list (space s)). \<exists>r. vmrs s v = Some r \<and> paged (vmr_start r) \<and> paged (vmr_size r)) \<and>
    (\<forall>v \<in> set (vmr_list (space s)). \<forall>w \<in> set (vmr_list (space s)). \<forall>r q a.
      vmrs s v = Some r \<and> vmrs s w = Some q \<and> covers r a \<and> covers q a \<longrightarrow> v = w) \<and>
    (\<forall>p pmo. pmos s p = Some pmo \<longrightarrow> paged (pmo_size pmo)) \<and>
    paged (user_current_mmap_addr (space s)) \<and> paged (user_current_heap (space s)))"

lemma dvd_word: "4096 dvd (2 ^ 64 :: nat)"
  using le_imp_power_dvd [of 12 64 "2 :: nat"] by simp

lemma paged_add: "paged x \<Longrightarrow> paged y \<Longrightarrow> paged (x + y)"
  using dvd_word by (simp add: paged_def unat_word_ariths dvd_mod)

lemma paged_sub: "paged x \<Longrightarrow> paged y \<Longrightarrow> y \<le> x \<Longrightarrow> paged (x - y)"
  by (simp add: paged_def unat_sub)

lemma paged_0 [simp]: "paged 0"
  by (simp add: paged_def)

lemma paged_mod: "x mod PAGE_SIZE = 0 \<longleftrightarrow> paged x"
  by (simp add: paged_def PAGE_SIZE_def word_unat_eq_iff unat_mod dvd_eq_mod_eq_0)

lemma paged_ROUND_DOWN: "paged (ROUND_DOWN x PAGE_SIZE)"
  using unat_ROUND_DOWN [of x 12] by (simp add: paged_def PAGE_SIZE_def)

lemma paged_ROUND_UP: "paged (ROUND_UP x PAGE_SIZE)"
  by (simp add: ROUND_UP_DOWN paged_ROUND_DOWN)

lemma paged_PAGE_SIZE: "paged PAGE_SIZE"
  by (simp add: paged_def PAGE_SIZE_def)

text \<open>
  The check compares the last byte of the new region with the first byte of the old one. For regions
  of whole pages the two are never the same.
\<close>

lemma checked_disjoint:
  assumes p: "paged (vmr_start r)" "paged (vmr_size r)" "paged (vmr_start q)"
    and c: "vmr_start r \<ge> vmr_start q + vmr_size q \<or> vmr_start r + vmr_size r - 1 \<le> vmr_start q"
    and a: "covers r a" "covers q a"
  shows False
proof (cases "vmr_start r \<ge> vmr_start q + vmr_size q")
  case True
  then show ?thesis using a by (auto simp: covers_def)
next
  case False
  define e where "e = vmr_start r + vmr_size r"
  have e: "a < e" "paged e" using a paged_add [OF p(1,2)] by (auto simp: covers_def e_def)
  have e1: "1 \<le> e" using e(1) by (auto simp: word_le_nat_alt word_less_nat_alt)
  have "a \<le> e - 1" using e(1) e1 by (auto simp: word_le_nat_alt word_less_nat_alt unat_sub)
  moreover have "e - 1 \<le> vmr_start q" "vmr_start q \<le> a" using c False a by (auto simp: e_def covers_def)
  ultimately have "vmr_start q = e - 1" by simp
  then have "4096 dvd unat e - 1" "4096 dvd unat e" "1 \<le> unat e"
    using p(3) e(2) e1 by (auto simp: paged_def unat_sub word_le_nat_alt)
  then show ?thesis by (metis dvd_diff_nat diff_diff_cancel nat_dvd_1_iff_1 numeral_eq_one_iff semiring_norm(83))
qed

lemma intersects_any_False:
  "intersects_any ns ne vs s = Inr False \<Longrightarrow> w \<in> set vs \<Longrightarrow> \<exists>q. vmrs s w = Some q \<and> (ns \<ge> vmr_start q + vmr_size q \<or> ne \<le> vmr_start q)"
  by (induction vs) (auto simp: res_simps Let_def split: if_splits)

lemma add_vmr_ok:
  assumes i: "regions_ok s" and v: "v \<notin> set (vmr_list (space s))" "v \<notin> set (vmr_pool s)"
    and r: "vmrs s v = Some r" "paged (vmr_start r)" "paged (vmr_size r)" and a: "add_vmr_to_vmspace v s = Inr (ret, s')"
  shows "regions_ok s' \<and> ret = 0 \<and> s' = upd_space (vmr_list_update (\<lambda>l. v # l)) s"
proof -
  have c: "check_vmr_intersect v s = Inr False" and s': "s' = upd_space (vmr_list_update (\<lambda>l. v # l)) s" "ret = 0"
    using a by (auto simp: add_vmr_to_vmspace_def res_simps)
  have d: "\<not> (covers r x \<and> covers q x)" if "w \<in> set (vmr_list (space s))" "vmrs s w = Some q" for w q x
  proof (cases "vmr_size r = 0")
    case False
    then have n: "intersects_any (vmr_start r) (vmr_start r + vmr_size r - 1) (vmr_list (space s)) s = Inr False"
      using c r(1) by (simp add: check_vmr_intersect_def)
    have "paged (vmr_start q)" using i that by (auto simp: regions_ok_def)
    then show ?thesis using intersects_any_False [OF n that(1)] that(2) checked_disjoint [OF r(2,3)] by auto
  qed (auto simp: covers_def)
  have "regions_ok s'" using i v r d unfolding regions_ok_def s' upd_space_def by auto
  then show ?thesis using s' by simp
qed

lemma del_vmr_ok:
  assumes i: "regions_ok s" and v: "v \<in> set (vmr_list (space s))"
  shows "regions_ok (del_vmr_from_vmspace v s)"
proof -
  have "distinct (vmr_list (space s))" using i by (simp add: regions_ok_def)
  then have "set (remove1 v (vmr_list (space s))) = set (vmr_list (space s)) - {v}" by (rule set_remove1_eq)
  then show ?thesis using i v
    unfolding regions_ok_def del_vmr_from_vmspace_def free_vmregion_def upd_space_def is_vmr_in_vmspace_def by (auto simp: distinct_remove1)
qed

text \<open>What the invariant looks at.\<close>

definition region_view :: "vm_state \<Rightarrow> nat list \<times> nat list \<times> (nat \<Rightarrow> (u64 \<times> u64) option) \<times> (nat \<Rightarrow> u64 option) \<times> u64 \<times> u64" where
  "region_view s = (vmr_list (space s), vmr_pool s, \<lambda>v. map_option (\<lambda>r. (vmr_start r, vmr_size r)) (vmrs s v),
    \<lambda>p. map_option pmo_size (pmos s p), user_current_mmap_addr (space s), user_current_heap (space s))"

lemma covers_view: "(vmr_start r, vmr_size r) = (vmr_start q, vmr_size q) \<Longrightarrow> covers r = covers q"
  by (simp add: covers_def fun_eq_iff)

lemma regions_ok_view:
  assumes e: "region_view s' = region_view s" and i: "regions_ok s"
  shows "regions_ok s'"
proof -
  have l: "vmr_list (space s') = vmr_list (space s)" "vmr_pool s' = vmr_pool s" "user_current_mmap_addr (space s') = user_current_mmap_addr (space s)"
    "user_current_heap (space s') = user_current_heap (space s)" using e by (simp_all add: region_view_def)
  have v: "map_option (\<lambda>r. (vmr_start r, vmr_size r)) (vmrs s' w) = map_option (\<lambda>r. (vmr_start r, vmr_size r)) (vmrs s w)" for w
    using e by (simp add: region_view_def fun_eq_iff)
  have p: "map_option pmo_size (pmos s' w) = map_option pmo_size (pmos s w)" for w using e by (simp add: region_view_def fun_eq_iff)
  have v1: "\<exists>q. vmrs s w = Some q \<and> vmr_start q = vmr_start r \<and> vmr_size q = vmr_size r" if "vmrs s' w = Some r" for w r
    using v [of w] that by (cases "vmrs s w") auto
  have v2: "\<exists>q. vmrs s' w = Some q \<and> vmr_start q = vmr_start r \<and> vmr_size q = vmr_size r" if "vmrs s w = Some r" for w r
    using v [of w] that by (cases "vmrs s' w") auto
  have p1: "\<exists>q. pmos s w = Some q \<and> pmo_size q = pmo_size r" if "pmos s' w = Some r" for w r
    using p [of w] that by (cases "pmos s w") auto
  have "v = w" if "v \<in> set (vmr_list (space s))" "w \<in> set (vmr_list (space s))" "vmrs s' v = Some r" "vmrs s' w = Some q" "covers r a" "covers q a" for v w r q a
  proof -
    note p = that
    obtain r' q' where "vmrs s v = Some r'" "vmrs s w = Some q'" "covers r' a" "covers q' a"
      using v1 [OF p(3)] v1 [OF p(4)] p(5,6) by (auto simp: covers_def)
    then show ?thesis using i p(1,2) unfolding regions_ok_def by blast
  qed
  moreover have "\<exists>r. vmrs s' v = Some r \<and> paged (vmr_start r) \<and> paged (vmr_size r)" if "v \<in> set (vmr_list (space s))" for v
    using i that v2 unfolding regions_ok_def by metis
  moreover have "paged (pmo_size pmo)" if "pmos s' p = Some pmo" for p pmo
    using i p1 [OF that] unfolding regions_ok_def by metis
  ultimately show ?thesis using i l unfolding regions_ok_def by auto
qed

section \<open>Operations keep regions apart\<close>

named_theorems view_simps \<open>operations that do not touch what the region invariant looks at\<close>

lemma view_updates [view_simps]:
  "region_view (s\<lparr>pts := h\<rparr>) = region_view s" "region_view (s\<lparr>user_mem := m\<rparr>) = region_view s"
  "region_view (unlock_vmspace s) = region_view s"
  "lock_vmspace s = Inr s1 \<Longrightarrow> region_view s1 = region_view s"
  "with_pgtbl f s = Inr (ret, s1) \<Longrightarrow> region_view s1 = region_view s"
  by (auto simp: region_view_def unlock_vmspace_def lock_vmspace_def with_pgtbl_def upd_space_def res_simps split: if_splits)

lemma vmr_fields:
  "with_pgtbl f s = Inr (ret, s1) \<Longrightarrow> vmrs s1 = vmrs s \<and> pmos s1 = pmos s \<and> space s1 = space s \<and> vmr_pool s1 = vmr_pool s"
  "lock_vmspace s = Inr s1 \<Longrightarrow> vmrs s1 = vmrs s \<and> pmos s1 = pmos s \<and> vmr_pool s1 = vmr_pool s \<and> pts s1 = pts s \<and> user_mem s1 = user_mem s \<and>
    vmr_list (space s1) = vmr_list (space s) \<and> pgtbl_lock (space s1) = pgtbl_lock (space s) \<and> pgtbl (space s1) = pgtbl (space s) \<and>
    user_current_mmap_addr (space s1) = user_current_mmap_addr (space s)"
  by (auto simp: with_pgtbl_def lock_vmspace_def upd_space_def res_simps split: if_splits)

lemma new_vmr:
  assumes i: "regions_ok s" and a: "alloc_vmregion s = (Some v, s1)"
  shows "v \<notin> set (vmr_list (space s1))" "v \<notin> set (vmr_pool s1)" "regions_ok s1"
proof -
  have s1: "vmr_pool s = v # vmr_pool s1" "space s1 = space s" "vmrs s1 = vmrs s" "pmos s1 = pmos s"
    using a by (auto simp: alloc_vmregion_def split: list.splits)
  then show "v \<notin> set (vmr_list (space s1))" "v \<notin> set (vmr_pool s1)" "regions_ok s1" using i by (auto simp: regions_ok_def)
qed

lemma upd_vmr_ok:
  assumes "regions_ok s" "v \<notin> set (vmr_list (space s))"
  shows "regions_ok (upd_vmr v r s)"
  using assms unfolding regions_ok_def upd_vmr_def by auto

text \<open>A new region is filled in, added under the lock, and stays when it meets no other.\<close>

lemma add_locked_ok:
  assumes i: "regions_ok s2" and v: "v \<notin> set (vmr_list (space s2))" "v \<notin> set (vmr_pool s2)"
    and r: "vmrs s2 v = Some r" "paged (vmr_start r)" "paged (vmr_size r)"
    and l: "lock_vmspace s2 = Inr s3" and a: "add_vmr_to_vmspace v s3 = Inr (ret, s4)"
  shows "regions_ok s4 \<and> ret = 0 \<and> space s4 = (space s3)\<lparr>vmr_list := v # vmr_list (space s3)\<rparr>"
proof -
  have f: "vmrs s3 = vmrs s2" "vmr_pool s3 = vmr_pool s2" "vmr_list (space s3) = vmr_list (space s2)" using vmr_fields(2) [OF l] by auto
  have "regions_ok s3" using regions_ok_view [OF view_updates(4) [OF l] i] .
  then have "regions_ok s4 \<and> ret = 0 \<and> s4 = upd_space (vmr_list_update (\<lambda>l. v # l)) s3"
    using add_vmr_ok [OF _ _ _ _ r(2,3) a] v r(1) f by auto
  then show ?thesis by (auto simp: upd_space_def)
qed

lemma map_range_regions:
  assumes i: "regions_ok s" and m: "vmspace_map_range va len flags p s = Inr (ret, s')" and len: "paged len"
  shows "regions_ok s'"
proof -
  obtain pmo where pmo: "pmos s p = Some pmo" using m by (auto simp: vmspace_map_range_def res_simps)
  show ?thesis
  proof (cases "alloc_vmregion s")
    case (Pair o1 s1)
    show ?thesis
    proof (cases o1)
      case None
      then have "s1 = s" using Pair by (auto simp: alloc_vmregion_def split: list.splits)
      then show ?thesis using i m pmo Pair None by (auto simp: vmspace_map_range_def res_simps Let_def)
    next
      case (Some v)
      define r where "r = \<lparr>vmr_start = ROUND_DOWN va PAGE_SIZE, vmr_size = (if len < PAGE_SIZE then PAGE_SIZE else len),
         vmr_perm = (if pmo_type pmo = PMO_DEVICE then flags OR VMR_DEVICE else flags), vmr_pmo = p\<rparr>"
      have pr: "paged (vmr_start r)" "paged (vmr_size r)" using len by (simp_all add: r_def paged_ROUND_DOWN paged_PAGE_SIZE)
      note n = new_vmr [OF i Pair [unfolded Some]]
      obtain s3 ret1 s4 where c: "lock_vmspace (upd_vmr v r s1) = Inr s3" "add_vmr_to_vmspace v s3 = Inr (ret1, s4)"
        "(if ret1 < 0 then Inr (ret1, free_vmregion v (unlock_vmspace s4))
         else if pmo_type pmo = PMO_DATA \<or> pmo_type pmo = PMO_DEVICE
         then bind_res (fill_page_table v (unlock_vmspace s4)) (\<lambda>(_, s6). Inr (0, s6))
         else Inr (0, unlock_vmspace s4)) = Inr (ret, s')"
        using m pmo Pair Some by (auto simp: vmspace_map_range_def res_simps Let_def r_def)
      have k: "regions_ok s4" "ret1 = 0"
        using add_locked_ok [OF upd_vmr_ok [OF n(3,1)] _ _ _ pr c(1,2)] n by (auto simp: upd_vmr_def)
      have "region_view s' = region_view s4" using c(3) k(2)
        by (auto simp: res_simps fill_page_table_def view_simps split: if_splits)
      then show ?thesis using k(1) by (rule regions_ok_view)
    qed
  qed
qed

lemma mmap_regions:
  assumes i: "regions_ok s" and m: "vmspace_mmap_with_pmo p len perm s = Inr (ret, s')"
  shows "regions_ok s'"
proof (cases "alloc_vmregion s")
  case (Pair o1 s1)
  show ?thesis
  proof (cases o1)
    case None
    then have "s1 = s" using Pair by (auto simp: alloc_vmregion_def split: list.splits)
    then show ?thesis using i m Pair None by (auto simp: vmspace_mmap_with_pmo_def)
  next
    case (Some v)
    obtain s2 pmo ret1 s3 where c: "lock_vmspace s1 = Inr s2" "paged len" "pmos s2 p = Some pmo"
      "add_vmr_to_vmspace v (upd_vmr v \<lparr>vmr_start = user_current_mmap_addr (space s2), vmr_size = len, vmr_perm = perm, vmr_pmo = p\<rparr>
                (upd_space (user_current_mmap_addr_update (\<lambda>a. a + len)) s2)) = Inr (ret1, s3)"
      "(if ret1 < 0 then Inr (- 1, free_vmregion v (unlock_vmspace s3)) else Inr (user_current_mmap_addr (space s2), unlock_vmspace s3)) = (Inr (ret, s') :: (u64 \<times> vm_state) res)"
      using m Pair Some by (auto simp: vmspace_mmap_with_pmo_def res_simps Let_def paged_mod)
    define r where "r = \<lparr>vmr_start = user_current_mmap_addr (space s2), vmr_size = len, vmr_perm = perm, vmr_pmo = p\<rparr>"
    define s2' where "s2' = upd_vmr v r (upd_space (user_current_mmap_addr_update (\<lambda>a. a + len)) s2)"
    note n = new_vmr [OF i Pair [unfolded Some]]
    note f = vmr_fields(2) [OF c(1)]
    have i2: "regions_ok s2" using regions_ok_view [OF view_updates(4) [OF c(1)] n(3)] .
    then have pr: "paged (vmr_start r)" "paged (vmr_size r)" using c(2) by (simp_all add: r_def regions_ok_def)
    have v: "v \<notin> set (vmr_list (space s2))" "v \<notin> set (vmr_pool s2)" using n f by simp_all
    have "paged (user_current_mmap_addr (space s2) + len)" using paged_add pr by (simp add: r_def)
    then have "regions_ok s2'" using i2 v unfolding regions_ok_def s2'_def upd_vmr_def upd_space_def by auto
    then have k: "regions_ok s3" "ret1 = 0"
      using add_vmr_ok [of s2' v r ret1 s3] v pr c(4) by (auto simp: s2'_def r_def upd_vmr_def upd_space_def)
    have "region_view s' = region_view s3" using c(5) k(2) by (auto simp: view_simps)
    then show ?thesis using k(1) by (rule regions_ok_view)
  qed
qed

lemma init_heap_regions:
  assumes i: "regions_ok s" and m: "init_heap_vmr va p s = Inr (ret, s')" and va: "paged va"
  shows "regions_ok s'"
proof (cases "alloc_vmregion s")
  case (Pair o1 s1)
  show ?thesis
  proof (cases o1)
    case None
    then have "s1 = s" using Pair by (auto simp: alloc_vmregion_def split: list.splits)
    then show ?thesis using i m Pair None by (auto simp: init_heap_vmr_def)
  next
    case (Some v)
    define r where "r = \<lparr>vmr_start = va, vmr_size = 0, vmr_perm = VMR_READ OR VMR_WRITE, vmr_pmo = p\<rparr>"
    have pr: "paged (vmr_start r)" "paged (vmr_size r)" using va by (simp_all add: r_def)
    note n = new_vmr [OF i Pair [unfolded Some]]
    obtain s2 ret1 s3 where c: "lock_vmspace (upd_vmr v r s1) = Inr s2" "add_vmr_to_vmspace v s2 = Inr (ret1, s3)"
      "(if ret1 < 0 then Inr (None, free_vmregion v (unlock_vmspace s3)) else Inr (Some v, unlock_vmspace s3)) = (Inr (ret, s') :: (nat option \<times> vm_state) res)"
      using m Pair Some by (auto simp: init_heap_vmr_def res_simps Let_def r_def)
    have k: "regions_ok s3" "ret1 = 0" using add_locked_ok [OF upd_vmr_ok [OF n(3,1)] _ _ _ pr c(1,2)] n by (auto simp: upd_vmr_def)
    have "region_view s' = region_view s3" using c(3) k(2) by (auto simp: view_simps)
    then show ?thesis using k(1) by (rule regions_ok_view)
  qed
qed

lemma find_vmr_covers:
  "find_vmr_for_va a s = Inr (Some v) \<Longrightarrow> v \<in> set (vmr_list (space s)) \<and> (\<exists>r. vmrs s v = Some r \<and> covers r a)"
  using find_vmr_in_covers [of "vmr_list (space s)" a s v] by (auto simp: find_vmr_for_va_def covers_def)

text \<open>Cutting off the beginning of a region.\<close>

lemma covers_no_wrap:
  assumes "covers r a"
  shows "unat (vmr_start r) + unat (vmr_size r) < 2 ^ 64"
proof (rule ccontr)
  assume "\<not> ?thesis"
  moreover have lt: "unat x < 2 ^ 64" for x :: u64 using unsigned_less [of x, where ?'a = nat] by simp
  moreover have "unat (vmr_start r) + unat (vmr_size r) - 2 ^ 64 < 2 ^ 64" using lt [of "vmr_size r"] lt [of "vmr_start r"] by simp
  ultimately have "unat (vmr_start r + vmr_size r) = unat (vmr_start r) + unat (vmr_size r) - 2 ^ 64"
    by (simp add: unat_word_ariths le_mod_geq)
  then have "vmr_start r + vmr_size r \<le> vmr_start r"
    using lt [of "vmr_size r"] by (simp add: word_le_nat_alt)
  then show False using assms by (auto simp: covers_def)
qed

lemma covers_shrink:
  assumes a: "covers r a" and l: "len < vmr_size r" and c: "covers (r\<lparr>vmr_size := vmr_size r - len, vmr_start := vmr_start r + len\<rparr>) x"
  shows "covers r x"
proof -
  have "unat (vmr_start r) + unat len < 2 ^ 64" using covers_no_wrap [OF a] l by (simp add: word_less_nat_alt)
  then have "unat (vmr_start r + len) = unat (vmr_start r) + unat len" by (rule unat_add_lt)
  then have "vmr_start r \<le> vmr_start r + len" by (simp add: word_le_nat_alt)
  moreover have "vmr_start r + len + (vmr_size r - len) = vmr_start r + vmr_size r" by simp
  ultimately show ?thesis using c by (auto simp: covers_def)
qed

lemma shrink_ok:
  assumes i: "regions_ok s" and v: "v \<in> set (vmr_list (space s))" "vmrs s v = Some r" "covers r a" and l: "len < vmr_size r" "paged len"
  shows "regions_ok (upd_vmr v (r\<lparr>vmr_size := vmr_size r - len, vmr_start := vmr_start r + len\<rparr>) s)"
proof -
  let ?r = "r\<lparr>vmr_size := vmr_size r - len, vmr_start := vmr_start r + len\<rparr>"
  have "paged (vmr_start r)" "paged (vmr_size r)" using i v by (auto simp: regions_ok_def)
  then have p: "paged (vmr_start ?r)" "paged (vmr_size ?r)" using l by (auto intro: paged_add paged_sub)
  have c: "covers ?r x \<Longrightarrow> covers r x" for x using covers_shrink [OF v(3) l(1)] .
  have d: "u = w" if "u \<in> set (vmr_list (space s))" "w \<in> set (vmr_list (space s))" "vmrs s u = Some q" "vmrs s w = Some q'" "covers q x" "covers q' x" for u w q q' x
    using i that unfolding regions_ok_def by blast
  show ?thesis using i v p c d unfolding regions_ok_def upd_vmr_def
    by (auto split: if_splits)
qed

lemma unmap_vmrs_regions:
  "\<lbrakk>regions_ok s; paged len; unmap_vmrs fuel va len s = Inr (ret, s')\<rbrakk> \<Longrightarrow> regions_ok s'"
proof (induction fuel arbitrary: va len s)
  case 0
  then show ?case by (auto simp: unmap_vmrs.simps split: if_splits)
next
  case (Suc fuel)
  consider "len = 0" | "len \<noteq> 0" "find_vmr_for_va va s = Inr None" | v where "len \<noteq> 0" "find_vmr_for_va va s = Inr (Some v)"
    using Suc.prems(3) by (cases "find_vmr_for_va va s") (auto simp: unmap_vmrs.simps split: if_splits)
  then show ?case
  proof cases
    case 3
    then obtain r where v: "v \<in> set (vmr_list (space s))" "vmrs s v = Some r" "covers r va" using find_vmr_covers by blast
    show ?thesis
    proof (cases "vmr_size r > len")
      case True
      let ?s = "upd_vmr v (r\<lparr>vmr_size := vmr_size r - len, vmr_start := vmr_start r + len\<rparr>) s"
      have "\<exists>x. with_pgtbl (\<lambda>p. unmap_range_in_pgtbl p va len) ?s = Inr (x, s')"
        using Suc.prems(3) 3 v(2) True by (auto simp: unmap_vmrs.simps [of "Suc fuel"] res_simps)
      then show ?thesis using regions_ok_view view_updates(5) shrink_ok [OF Suc.prems(1) v True Suc.prems(2)] by blast
    next
      case False
      obtain x s1 where s1: "with_pgtbl (\<lambda>p. unmap_range_in_pgtbl p va len) s = Inr (x, s1)"
        and m: "bind_res (deref (vmrs (del_vmr_from_vmspace v s1)) v)
          (\<lambda>vmr1. unmap_vmrs fuel (va + vmr_size vmr1) (len - vmr_size vmr1) (del_vmr_from_vmspace v s1)) = Inr (ret, s')"
        using Suc.prems(3) 3 v(2) False by (auto simp: unmap_vmrs.simps [of "Suc fuel"] res_simps Let_def)
      have f: "vmrs s1 = vmrs s" "space s1 = space s" using vmr_fields(1) [OF s1] by auto
      have i1: "regions_ok (del_vmr_from_vmspace v s1)"
        using del_vmr_ok regions_ok_view [OF view_updates(5) [OF s1] Suc.prems(1)] v(1) f by simp
      have "vmrs (del_vmr_from_vmspace v s1) v = Some r"
        using f v(2) by (simp add: del_vmr_from_vmspace_def free_vmregion_def upd_space_def)
      moreover have "paged (len - vmr_size r)" using Suc.prems(1,2) v(1,2) False by (intro paged_sub) (auto simp: regions_ok_def)
      ultimately show ?thesis using Suc.IH [OF i1] m by auto
    qed
  qed (use Suc.prems in \<open>auto simp: unmap_vmrs.simps\<close>)
qed

lemma unmap_range_regions:
  assumes i: "regions_ok s" and m: "vmspace_unmap_range va len s = Inr (ret, s')"
  shows "regions_ok s'"
proof -
  obtain s1 found where s1: "lock_vmspace s = Inr s1" "find_vmr_for_va va s1 = Inr found" using m by (auto simp: vmspace_unmap_range_def res_simps)
  have i1: "regions_ok s1" using regions_ok_view [OF view_updates(4) [OF s1(1)] i] .
  show ?thesis
  proof (cases found)
    case None
    then show ?thesis using m s1 i1 by (simp add: vmspace_unmap_range_def)
  next
    case (Some v)
    then have "v \<in> set (vmr_list (space s1))" using find_vmr_covers s1(2) by blast
    then have d: "regions_ok (del_vmr_from_vmspace v s1)" using del_vmr_ok i1 by blast
    have "region_view s' = region_view (del_vmr_from_vmspace v s1)"
      using m s1 Some by (auto simp: vmspace_unmap_range_def res_simps Let_def view_simps split: if_splits)
    then show ?thesis using d by (rule regions_ok_view)
  qed
qed

lemma munmap_regions:
  assumes i: "regions_ok s" and m: "sys_handle_munmap va len s = Inr (ret, s')"
  shows "regions_ok s'"
proof (cases "paged va \<and> paged len")
  case True
  then obtain s1 s2 where c: "lock_vmspace s = Inr s1" "unmap_vmrs (Suc (length (vmr_list (space s1)))) va len s1 = Inr (ret, s2)" "s' = unlock_vmspace s2"
    using m by (auto simp: sys_handle_munmap_def vmspace_munmap_with_addr_def paged_mod res_simps)
  have "regions_ok s2" using unmap_vmrs_regions [OF regions_ok_view [OF view_updates(4) [OF c(1)] i] _ c(2)] True by blast
  then show ?thesis using regions_ok_view view_updates(3) c(3) by blast
qed (use i m in \<open>auto simp: sys_handle_munmap_def paged_mod\<close>)

lemma shmdt_regions:
  assumes i: "regions_ok s" and m: "sys_shmdt va s = Inr (ret, s')"
  shows "regions_ok s'"
proof -
  obtain s1 found where s1: "lock_vmspace s = Inr s1" "find_vmr_for_va va s1 = Inr found"
    using m by (auto simp: sys_shmdt_def vmspace_unmap_shm_vmr_def res_simps)
  have i1: "regions_ok s1" using regions_ok_view [OF view_updates(4) [OF s1(1)] i] .
  show ?thesis
  proof (cases found)
    case None
    then have "region_view s' = region_view s1" using m s1 by (auto simp: sys_shmdt_def vmspace_unmap_shm_vmr_def view_simps)
    then show ?thesis using i1 by (rule regions_ok_view)
  next
    case (Some v)
    then obtain x s2 where s2: "\<exists>a b. with_pgtbl (\<lambda>p. unmap_range_in_pgtbl p a b) s1 = Inr (x, s2)" "s' = unlock_vmspace (del_vmr_from_vmspace v s2)"
      using m s1 by (auto simp: sys_shmdt_def vmspace_unmap_shm_vmr_def res_simps)
    have "v \<in> set (vmr_list (space s1))" using find_vmr_covers s1(2) Some by blast
    then have "v \<in> set (vmr_list (space s2))" "regions_ok s2" using s2(1) vmr_fields(1) regions_ok_view [OF _ i1] view_updates(5) by metis+
    then show ?thesis using del_vmr_ok regions_ok_view view_updates(3) s2(2) by metis
  qed
qed

lemma fault_view [view_simps]:
  "memset_page k s = Inr s1 \<Longrightarrow> region_view s1 = region_view s"
  "commit_page_to_pmo p i pa s = Inr s1 \<Longrightarrow> region_view s1 = region_view s"
  "map_fault_page a pa perm s = Inr s1 \<Longrightarrow> region_view s1 = region_view s"
proof -
  show "memset_page k s = Inr s1 \<Longrightarrow> region_view s1 = region_view s" by (auto simp: memset_page_def view_simps split: if_splits)
  show "commit_page_to_pmo p i pa s = Inr s1 \<Longrightarrow> region_view s1 = region_view s"
    by (auto simp: commit_page_to_pmo_def res_simps region_view_def fun_eq_iff split: option.splits)
  show "map_fault_page a pa perm s = Inr s1 \<Longrightarrow> region_view s1 = region_view s" by (auto simp: map_fault_page_def res_simps view_simps)
qed

lemma new_page_view [view_simps]: "new_pmo_page p i s = Inr (pa, s1) \<Longrightarrow> region_view s1 = region_view s"
  by (auto simp: new_pmo_page_def res_simps view_simps Let_def split: prod.splits)

lemma page_fault_view:
  assumes "do_page_fault esr a s = Inr s'"
  shows "region_view s' = region_view s"
proof -
  obtain ret where h: "handle_trans_fault a s = Inr (ret, s')" using assms by (auto simp: do_page_fault_def res_simps split: if_splits)
  obtain s1 found where s1: "lock_vmspace s = Inr s1" "find_vmr_for_va a s1 = Inr found" using h by (auto simp: handle_trans_fault_def res_simps)
  have "region_view s' = region_view s1"
  proof (cases found)
    case (Some v)
    then show ?thesis using h s1 by (auto simp: handle_trans_fault_def res_simps Let_def view_simps split: if_splits)
  qed (use h s1 in \<open>auto simp: handle_trans_fault_def\<close>)
  then show ?thesis using view_updates(4) [OF s1(1)] by simp
qed

lemma mprotect_vmrs_view: "mprotect_vmrs va n t s = Inr s' \<Longrightarrow> region_view s' = region_view s"
proof (induction va n t s rule: mprotect_vmrs.induct)
  case (1 va n t s)
  show ?case
  proof (cases "n \<le> 0")
    case True
    then show ?thesis using 1(2) by (simp add: mprotect_vmrs.simps)
  next
    case False
    then obtain v r where v: "find_vmr_for_va va s = Inr (Some v)" "vmrs s v = Some r"
      "mprotect_vmrs (va + vmr_size r) (n - uint (vmr_size r)) t (upd_vmr v (r\<lparr>vmr_perm := t\<rparr>) s) = Inr s'"
      using 1(2) by (subst (asm) mprotect_vmrs.simps) (auto simp: res_simps split: option.splits)
    have "region_view (upd_vmr v (r\<lparr>vmr_perm := t\<rparr>) s) = region_view s" using v(2) by (auto simp: region_view_def upd_vmr_def fun_eq_iff)
    then show ?thesis using 1(1) [OF False v(1) _ _ v(3)] v(2) by simp
  qed
qed

lemma mprotect_view:
  assumes "sys_handle_mprotect va len prot s = Inr (ret, s')"
  shows "region_view s' = region_view s"
proof (cases "(va mod PAGE_SIZE \<noteq> 0 \<or> len mod PAGE_SIZE \<noteq> 0) \<or> len = 0")
  case False
  then obtain s1 out where s1: "lock_vmspace s = Inr s1" "mprotect_check va (sint len) (get_vmr_prot prot) s1 = Inr out"
    using assms by (auto simp: sys_handle_mprotect_def res_simps Let_def)
  have "region_view s' = region_view s1"
  proof (cases out)
    case (Inr n)
    then obtain s2 x s3 where "mprotect_vmrs va (sint len) (get_vmr_prot prot) s1 = Inr s2"
      "with_pgtbl (\<lambda>p. mprotect_in_pgtbl p va len (get_vmr_prot prot)) s2 = Inr (x, s3)" "s' = unlock_vmspace s3"
      using assms s1 False by (auto simp: sys_handle_mprotect_def res_simps Let_def)
    then show ?thesis using mprotect_vmrs_view by (auto simp: view_simps)
  qed (use assms s1 False in \<open>auto simp: sys_handle_mprotect_def view_simps\<close>)
  then show ?thesis using view_updates(4) [OF s1(1)] by simp
qed (use assms in \<open>auto simp: sys_handle_mprotect_def split: if_splits\<close>)

lemma pmo_init_regions:
  assumes i: "regions_ok s" and m: "pmo_init p ty len paddr kva nodes s = Inr s'"
  shows "regions_ok s'"
proof -
  obtain pmo where s': "s' = s\<lparr>pmos := (pmos s)(p \<mapsto> pmo)\<rparr>" and z: "pmo_size pmo = ROUND_UP len PAGE_SIZE"
    using m by (auto simp: pmo_init_def res_simps Let_def split: if_splits)
  have "paged (pmo_size pm)" if "pmos s' q = Some pm" for q pm
    using i that z paged_ROUND_UP [of len] by (auto simp: s' regions_ok_def split: if_splits)
  then show ?thesis using i by (simp add: regions_ok_def s')
qed

lemma rw_pmo_view:
  assumes "rw_pmo_addr p offset sz s = Inr (ret, s')"
  shows "region_view s' = region_view s"
  using assms by (auto simp: rw_pmo_addr_def res_simps Let_def view_simps split: if_splits prod.splits)

text \<open>
  The operations on an address space. A memory object is mapped with its own size, as the callers of
  \<^verbatim>\<open>vmspace_map_range\<close> do. \<^verbatim>\<open>brk\<close> is not among them: it enlarges the heap without the check.
\<close>

inductive vm_step :: "vm_state \<Rightarrow> vm_state \<Rightarrow> bool" where
  step_pmo: "pmo_init p ty len paddr kva nodes s = Inr s' \<Longrightarrow> vm_step s s'"
| step_map: "pmos s p = Some pmo \<Longrightarrow> vmspace_map_range va (pmo_size pmo) flags p s = Inr (ret, s') \<Longrightarrow> vm_step s s'"
| step_unmap: "vmspace_unmap_range va len s = Inr (ret, s') \<Longrightarrow> vm_step s s'"
| step_mmap: "vmspace_mmap_with_pmo p len perm s = Inr (addr, s') \<Longrightarrow> vm_step s s'"
| step_munmap: "sys_handle_munmap va len s = Inr (ret, s') \<Longrightarrow> vm_step s s'"
| step_shmdt: "sys_shmdt va s = Inr (ret, s') \<Longrightarrow> vm_step s s'"
| step_heap: "init_heap_vmr (user_current_heap (space s)) p s = Inr (v, s') \<Longrightarrow> vm_step s s'"
| step_fault: "do_page_fault esr va s = Inr s' \<Longrightarrow> vm_step s s'"
| step_mprotect: "sys_handle_mprotect va len prot s = Inr (ret, s') \<Longrightarrow> vm_step s s'"
| step_rw: "rw_pmo_addr p offset sz s = Inr (out, s') \<Longrightarrow> vm_step s s'"

lemma vm_step_regions: "vm_step s s' \<Longrightarrow> regions_ok s \<Longrightarrow> regions_ok s'"
proof (induction rule: vm_step.induct)
  case (step_map s p pmo va flags ret s')
  then have "paged (pmo_size pmo)" by (simp add: regions_ok_def)
  then show ?case using map_range_regions step_map by blast
next
  case (step_heap s p v s')
  then have "paged (user_current_heap (space s))" by (simp add: regions_ok_def)
  then show ?case using init_heap_regions step_heap by blast
qed (blast intro: pmo_init_regions unmap_range_regions mmap_regions munmap_regions shmdt_regions
  regions_ok_view page_fault_view mprotect_view rw_pmo_view)+

lemma vm_run_regions: "vm_step\<^sup>*\<^sup>* s s' \<Longrightarrow> regions_ok s \<Longrightarrow> regions_ok s'"
  by (induction rule: rtranclp_induct) (auto intro: vm_step_regions)

lemma vmspace_init_regions:
  assumes "vmspace_init s = Inr (ret, s')" "distinct (vmr_pool s)" "pmos s = Map.empty"
  shows "regions_ok s'"
proof -
  have "paged MMAP_START" "paged HEAP_START" by (simp_all add: paged_def MMAP_START_def HEAP_START_def)
  then show ?thesis using assms
    by (auto simp: vmspace_init_def reset_history_cpus_def upd_space_def regions_ok_def res_simps split: prod.splits)
qed

lemma find_vmr_in_None:
  "find_vmr_in vs a s = Inr None \<Longrightarrow> v \<in> set vs \<Longrightarrow> vmrs s v = Some r \<Longrightarrow> \<not> (vmr_start r \<le> a \<and> a < vmr_start r + vmr_size r)"
  by (induction vs) (auto simp: res_simps split: if_splits)

lemma find_vmr_in_ok: "\<forall>v \<in> set vs. vmrs s v \<noteq> None \<Longrightarrow> \<exists>found. find_vmr_in vs a s = Inr found"
  by (induction vs) auto

lemma find_vmr_unique:
  assumes i: "regions_ok s"
  shows "find_vmr_for_va a s = Inr (Some v) \<longleftrightarrow> v \<in> set (vmr_list (space s)) \<and> (\<exists>r. vmrs s v = Some r \<and> covers r a)"
proof
  assume v: "v \<in> set (vmr_list (space s)) \<and> (\<exists>r. vmrs s v = Some r \<and> covers r a)"
  have "\<forall>v \<in> set (vmr_list (space s)). vmrs s v \<noteq> None" using i by (auto simp: regions_ok_def)
  then obtain found where f: "find_vmr_for_va a s = Inr found" using find_vmr_in_ok by (metis find_vmr_for_va_def)
  show "find_vmr_for_va a s = Inr (Some v)"
  proof (cases found)
    case None
    then show ?thesis using find_vmr_in_None [of "vmr_list (space s)" a s v] f v by (auto simp: find_vmr_for_va_def covers_def)
  next
    case (Some w)
    then obtain q where "w \<in> set (vmr_list (space s))" "vmrs s w = Some q" "covers q a" using f find_vmr_covers by blast
    then have "w = v" using i v unfolding regions_ok_def by blast
    then show ?thesis using f Some by simp
  qed
qed (use find_vmr_covers in blast)


definition demo_vm :: vm_state where
  "demo_vm = \<lparr>vmrs = Map.empty, vmr_pool = [1, 2, 3], pmos = Map.empty,
    pts = \<lparr>ptps = Map.empty, free_pgs = (KBASE + PAGE_SIZE) # demo_pages 6\<rparr>, user_mem = (\<lambda>_. 0xAA),
    space = \<lparr>vmr_list = [], pgtbl = 0, vmspace_lock = False, pgtbl_lock = False, heap_lock = False, heap_vmr = None,
      user_current_heap = 0, user_current_mmap_addr = 0, ran_on = []\<rparr>\<rparr>"

definition demo_nodes :: radix_heap where
  "demo_nodes = \<lparr>rnodes = Map.empty, rnext = 1, ravail = 60\<rparr>"

text \<open>A space with an anonymous object of four pages, mapped at the beginning of the mmap area.\<close>

definition demo_map :: "u64 \<Rightarrow> vm_state res" where
  "demo_map len = bind_res (vmspace_init demo_vm) (\<lambda>(_, s1).
    bind_res (pmo_init 7 PMO_ANONYM len 0 0 demo_nodes s1) (\<lambda>s2.
    bind_res (vmspace_mmap_with_pmo 7 len (VMR_READ OR VMR_WRITE) s2) (\<lambda>(_, s3). Inr s3)))"


section \<open>Page faults\<close>

text \<open>The frame of a page of a memory object.\<close>

definition pmo_page :: "vm_state \<Rightarrow> nat \<Rightarrow> u64 \<Rightarrow> nat option" where
  "pmo_page s p i = (case pmos s p of None \<Rightarrow> None | Some pmo \<Rightarrow>
    case pmo_radix pmo of None \<Rightarrow> None | Some (r, h) \<Rightarrow> radix_map r h i)"

text \<open>
  Frames of memory objects are pages that are neither free nor page tables, and no two pages of
  objects share one. Physical address 0 is never given out.
\<close>

definition taken :: "pt_heap \<Rightarrow> u64 \<Rightarrow> bool" where
  "taken h k = (k \<notin> set (free_pgs h) \<and> ptps h k = None)"

definition frames_ok :: "vm_state \<Rightarrow> bool" where
  "frames_ok s = (pt_inv (pgtbl (space s)) (pts s) \<and> KBASE \<notin> set (free_pgs (pts s)) \<and>
    (\<forall>p pmo r h. pmos s p = Some pmo \<and> pmo_radix pmo = Some (r, h) \<longrightarrow> radix_ok r h) \<and>
    (\<forall>p i f. pmo_page s p i = Some f \<longrightarrow> (\<exists>k. page_ok k \<and> f = unat (virt_to_phys k) \<and> taken (pts s) k)) \<and>
    (\<forall>p i q j f. pmo_page s p i = Some f \<and> pmo_page s q j = Some f \<longrightarrow> p = q \<and> i = j))"

lemma write_pte_taken: "write_pte p i v h = Inr h1 \<Longrightarrow> taken h k \<Longrightarrow> taken h1 k"
  by (auto simp: write_pte_def taken_def res_simps)

lemma write_pte_free: "write_pte p i v h = Inr h1 \<Longrightarrow> free_pgs h1 = free_pgs h"
  by (auto simp: write_pte_def res_simps)

lemma next_ptp_taken: "get_next_ptp c l va al h = Inr (ret, out, h1) \<Longrightarrow> taken h k \<Longrightarrow> taken h1 k \<and> set (free_pgs h1) \<subseteq> set (free_pgs h)"
  by (auto simp: get_next_ptp_def get_page_def res_simps Let_def taken_def write_pte_def split: if_splits list.splits)

lemma map_ptes_taken: "map_ptes i l3 fl va pa cnt h = Inr (va1, pa1, cnt1, h1) \<Longrightarrow> taken h k \<Longrightarrow> taken h1 k \<and> free_pgs h1 = free_pgs h"
proof (induction i l3 fl va pa cnt h rule: map_ptes.induct)
  case (1 i l3 fl va pa cnt h)
  show ?case
  proof (cases "i < PTP_ENTRIES")
    case True
    then obtain h2 where h2: "write_pte l3 i (page_pte pa fl) h = Inr h2"
      "(if cnt - 1 = 0 then Inr (va + PAGE_SIZE, pa + PAGE_SIZE, cnt - 1, h2)
       else map_ptes (i + 1) l3 fl (va + PAGE_SIZE) (pa + PAGE_SIZE) (cnt - 1) h2) = Inr (va1, pa1, cnt1, h1)"
      using 1(2) by (subst (asm) map_ptes.simps) (auto simp: res_simps)
    have k: "taken h2 k" "free_pgs h2 = free_pgs h" using write_pte_taken [OF h2(1) 1(3)] write_pte_free [OF h2(1)] by auto
    show ?thesis using 1(1) [OF True h2(1)] h2(2) k by (cases "cnt - 1 = 0") auto
  next
    case False
    then show ?thesis using 1(2,3) by (simp add: map_ptes.simps)
  qed
qed

lemma map_loop_taken:
  "map_loop fuel pg fl va pa cnt h = Inr h1 \<Longrightarrow> taken h k \<Longrightarrow> taken h1 k \<and> set (free_pgs h1) \<subseteq> set (free_pgs h)"
proof (induction fuel arbitrary: va pa cnt h)
  case 0
  then show ?case by (simp add: map_loop.simps split: if_splits)
next
  case (Suc fuel)
  show ?case
  proof (cases "cnt = 0")
    case True
    then show ?thesis using Suc.prems by (simp add: map_loop.simps)
  next
    case False
    obtain l1 h2 l2 h3 l3 h4 va1 pa1 cnt1 h5 where c: "next_alloc pg 0 va h = Inr (l1, h2)" "next_alloc l1 1 va h2 = Inr (l2, h3)"
      "next_alloc l2 2 va h3 = Inr (l3, h4)" "map_ptes (ptp_index 3 va) l3 fl va pa cnt h4 = Inr (va1, pa1, cnt1, h5)"
      "map_loop fuel pg fl va1 pa1 cnt1 h5 = Inr h1"
      using Suc.prems(1) False by (subst (asm) map_loop.simps) (auto simp: res_simps)
    have n: "taken h'' k \<and> set (free_pgs h'') \<subseteq> set (free_pgs h')" if "next_alloc q l va h' = Inr (x, h'')" "taken h' k" for q l h' x h''
      using that next_ptp_taken by (fastforce simp: next_alloc_def res_simps split: option.splits)
    note t = n [OF c(1) Suc.prems(2)]
    note t2 = n [OF c(2) conjunct1 [OF t]]
    note t3 = n [OF c(3) conjunct1 [OF t2]]
    note t4 = map_ptes_taken [OF c(4) conjunct1 [OF t3]]
    show ?thesis using Suc.IH [OF c(5) conjunct1 [OF t4]] t t2 t3 t4 by auto
  qed
qed

lemma pt_inv_pop: "pt_inv pg h \<Longrightarrow> free_pgs h = k # ks \<Longrightarrow> pt_inv pg (h\<lparr>free_pgs := ks\<rparr>) \<and> page_ok k \<and> taken (h\<lparr>free_pgs := ks\<rparr>) k"
proof -
  have "ptslot (h\<lparr>free_pgs := ks\<rparr>) = ptslot h" "entry (h\<lparr>free_pgs := ks\<rparr>) = entry h" by (simp_all add: ptslot_def entry_def fun_eq_iff)
  then show "pt_inv pg h \<Longrightarrow> free_pgs h = k # ks \<Longrightarrow> pt_inv pg (h\<lparr>free_pgs := ks\<rparr>) \<and> page_ok k \<and> taken (h\<lparr>free_pgs := ks\<rparr>) k"
    unfolding pt_inv_def tables_ok_def taken_def by auto
qed

lemma get_page_ok:
  assumes i: "frames_ok s" and p: "pmos s p = Some pmo" "pmo_radix pmo = Some (r, h)"
  shows "get_page_from_pmo p j s = Inr (case pmo_page s p j of None \<Rightarrow> 0 | Some f \<Rightarrow> of_nat f)"
proof -
  have "radix_ok r h" using i p unfolding frames_ok_def by blast
  then show ?thesis using radix_ops [of r h j] p by (auto simp: get_page_from_pmo_def pmo_page_def split: option.splits)
qed

lemma pmo_page_word:
  assumes i: "frames_ok s" and p: "pmo_page s p j = Some f"
  obtains k where "page_ok k" "f = unat (virt_to_phys k)" "taken (pts s) k" "(of_nat f :: u64) = virt_to_phys k" "virt_to_phys k \<noteq> 0"
proof -
  obtain k where k: "page_ok k" "f = unat (virt_to_phys k)" "taken (pts s) k" using i p unfolding frames_ok_def by blast
  have "f \<noteq> 0" using p by (auto simp: pmo_page_def radix_map_def Let_def split: option.splits if_splits)
  then have "virt_to_phys k \<noteq> 0" using k(2) by auto
  then show ?thesis using that [OF k] k(2) by simp
qed

lemma new_page_ok:
  assumes i: "frames_ok s" and p: "pmos s p = Some pmo" "pmo_radix pmo = Some (r, h)" "pmo_type pmo \<in> {PMO_FILE, PMO_ANONYM, PMO_SHM}"
    and n: "pmo_page s p j = None" and k: "free_pgs (pts s) = k # ks" and a: "16 \<le> ravail h"
  obtains s' where "new_pmo_page p j s = Inr (virt_to_phys k, s')" "frames_ok s'" "space s' = space s" "vmrs s' = vmrs s"
    "pts s' = (pts s)\<lparr>free_pgs := ks\<rparr>" "\<forall>q i. pmo_page s' q i = (if q = p \<and> i = j then Some (unat (virt_to_phys k)) else pmo_page s q i)"
    "user_mem s' = (\<lambda>b. if b - k < PAGE_SIZE then 0 else user_mem s b)"
proof -
  have ok: "radix_ok r h" and inv: "pt_inv (pgtbl (space s)) (pts s)" using i p unfolding frames_ok_def by blast+
  have none: "radix_map r h j = None" using n p by (simp add: pmo_page_def)
  have pop: "pt_inv (pgtbl (space s)) ((pts s)\<lparr>free_pgs := ks\<rparr>)" "page_ok k" "taken ((pts s)\<lparr>free_pgs := ks\<rparr>) k"
    using pt_inv_pop [OF inv k] by auto
  have k0: "k \<noteq> 0" "virt_to_phys k \<noteq> 0" using pop(2) i k by (auto simp: page_ok_def frames_ok_def virt_to_phys_def)
  then have v0: "unat (virt_to_phys k) \<noteq> 0" by (simp add: unat_eq_0)
  obtain ret r1 h1 where add: "radix_add r j (unat (virt_to_phys k)) h = Inr (ret, r1, h1)" "radix_ok r1 h1"
    "ret = 0 \<longrightarrow> radix_map r1 h1 = (radix_map r h)(j := Some (unat (virt_to_phys k)))"
    using radix_ops [OF ok, of j "unat (virt_to_phys k)"] none v0 by (auto simp: ENOMEM_def)
  have ret: "ret = 0" using radix_add_served [OF add(1)] ok a by (simp add: radix_ok_def)
  define s' where "s' = s\<lparr>pts := (pts s)\<lparr>free_pgs := ks\<rparr>, user_mem := (\<lambda>b. if b - k < PAGE_SIZE then 0 else user_mem s b),
    pmos := (pmos s)(p \<mapsto> pmo\<lparr>pmo_radix := Some (r1, h1)\<rparr>)\<rparr>"
  have e: "new_pmo_page p j s = Inr (virt_to_phys k, s')"
    using p k k0 add(1) ret by (auto simp: new_pmo_page_def get_page_def memset_page_def commit_page_to_pmo_def Let_def s'_def cong: if_cong)
  have pg: "pmo_page s' q i = (if q = p \<and> i = j then Some (unat (virt_to_phys k)) else pmo_page s q i)" for q i
    using add(3) ret p by (auto simp: pmo_page_def s'_def)
  have old: "\<exists>l. page_ok l \<and> f = unat (virt_to_phys l) \<and> taken (pts s') l \<and> l \<noteq> k" if f: "pmo_page s q i = Some f" for q i f
  proof -
    obtain l where l: "page_ok l" "f = unat (virt_to_phys l)" "taken (pts s) l" using pmo_page_word [OF i f] by metis
    then show ?thesis using k by (intro exI [of _ l]) (auto simp: taken_def s'_def)
  qed
  have new: "f \<noteq> unat (virt_to_phys k)" if f: "pmo_page s q i = Some f" for q i f
    using old [OF f] by (auto simp: virt_to_phys_def word_unat_eq_iff [symmetric])
  have inj: "q = q' \<and> i = i'" if "pmo_page s q i = Some f" "pmo_page s q' i' = Some f" for q i q' i' f
    using assms(1) that unfolding frames_ok_def by blast
  have rd: "radix_ok r2 h2" if "pmos s' q = Some pm" "pmo_radix pm = Some (r2, h2)" for q pm r2 h2
    using that add(2) i unfolding frames_ok_def s'_def by (auto split: if_splits)
  have tk: "taken (pts s') k" using pop(3) by (simp add: s'_def)
  have "frames_ok s'" unfolding frames_ok_def
  proof (intro conjI allI impI)
    show "pt_inv (pgtbl (space s')) (pts s')" "KBASE \<notin> set (free_pgs (pts s'))" using pop(1) i k by (auto simp: s'_def frames_ok_def)
    show "\<exists>k. page_ok k \<and> f = unat (virt_to_phys k) \<and> taken (pts s') k" if "pmo_page s' q i = Some f" for q i f
      using that pop(2) tk by (auto simp: pg split: if_splits dest: old)
    show "q = q'" "i = i'" if "pmo_page s' q i = Some f \<and> pmo_page s' q' i' = Some f" for q i q' i' f
      using that new inj by (auto simp: pg split: if_splits)
  qed (use rd in blast)
  then show ?thesis using that [OF e] pg by (simp add: s'_def)
qed

lemma vpn_ROUND_DOWN: "vpn (ROUND_DOWN a PAGE_SIZE) = vpn a"
  using unat_ROUND_DOWN [of a 12] by (simp add: vpn_def PAGE_SIZE_def)

lemma map_fault_ok:
  assumes i: "frames_ok s" and l: "\<not> pgtbl_lock (space s)" "3 \<le> length (free_pgs (pts s))" and a: "unat a < 2 ^ 48" and k: "page_ok k"
  obtains s' e where "map_fault_page a (virt_to_phys k) perm s = Inr s'" "frames_ok s'" "space s' = space s" "pmos s' = pmos s"
    "user_mem s' = user_mem s" "query_in_pgtbl (pgtbl (space s)) a (pts s') = Inr (0, Some (virt_to_phys k + (a AND mask 12), e))"
    "\<forall>w. vpn w \<noteq> vpn a \<longrightarrow> pte_of (pts s') (pgtbl (space s)) w = pte_of (pts s) (pgtbl (space s)) w"
proof -
  let ?pg = "pgtbl (space s)" and ?va = "ROUND_DOWN a PAGE_SIZE"
  have inv: "pt_inv ?pg (pts s)" using i by (simp add: frames_ok_def)
  then have r: "?pg \<noteq> 0" using pt.shaped_root by (auto simp: pt_inv_def)
  have c: "total_page_cnt PAGE_SIZE = 1" by (simp add: total_page_cnt_def PAGE_SIZE_def)
  have "unat ?va = unat a div 4096 * 4096" using unat_ROUND_DOWN [of a 12] by (simp add: PAGE_SIZE_def)
  moreover have "unat a div 4096 < 2 ^ 36" using a by (simp add: less_mult_imp_div_less)
  ultimately have b: "unat ?va + 1 * 4096 \<le> 2 ^ 48" by simp
  have f: "3 * 1 \<le> length (free_pgs (pts s))" using l(2) by simp
  obtain h' where h': "map_loop 1 ?pg perm ?va (virt_to_phys k) 1 (pts s) = Inr h'" "pt_inv ?pg h'"
    "\<forall>v. pte_of h' ?pg v = (if in_range ?va 1 v then page_pte (frame_of (virt_to_phys k) ?va v) perm else pte_of (pts s) ?pg v)"
    using map_loop_ok [OF inv r order_refl f b, of perm "virt_to_phys k"] by blast
  define s' where "s' = s\<lparr>pts := h'\<rparr>"
  have e: "map_fault_page a (virt_to_phys k) perm s = Inr s'"
    using h'(1) l(1) c r by (simp add: map_fault_page_def with_pgtbl_def map_range_in_pgtbl_def s'_def)
  have rng: "in_range ?va 1 w \<longleftrightarrow> vpn w = vpn a" for w by (auto simp: in_range_def vpn_ROUND_DOWN)
  have "pte_of h' ?pg a = page_pte (virt_to_phys k) perm" using h'(3) rng by (simp add: frame_of_def vpn_ROUND_DOWN)
  moreover have "pa_page (virt_to_phys k) = virt_to_phys k" using k by (simp add: page_ok_def)
  ultimately obtain x where q: "query_in_pgtbl ?pg a h' = Inr (0, Some (virt_to_phys k + (a AND mask 12), x))"
    using query_ok [OF h'(2), of a] page_pte_facts(1,3) [of "virt_to_phys k" perm] by auto
  have pg: "pmo_page s' = pmo_page s" by (simp add: pmo_page_def s'_def fun_eq_iff)
  have tk: "taken (pts s) m \<Longrightarrow> taken (pts s') m" for m using map_loop_taken [OF h'(1)] by (simp add: s'_def)
  have "set (free_pgs h') \<subseteq> set (free_pgs (pts s))" if "taken (pts s) 0" using map_loop_taken [OF h'(1) that] by blast
  moreover have "taken (pts s) 0" using inv by (auto simp: taken_def pt_inv_def page_ok_def)
  ultimately have "frames_ok s'" using i h'(2) tk unfolding frames_ok_def pg by (auto simp: s'_def) blast+
  then show ?thesis using that [OF e] q h'(3) rng by (simp add: s'_def)
qed

text \<open>
  C39: Demand paging. A translation fault at an address of a region over an anonymous, shared or file
  object, within the object and with memory left, returns and resolves the fault: a lookup of the
  address finds the frame of its page of the object and the offset within the page. A page that
  the object already has keeps its frame; otherwise it gets a fresh frame, filled with zeros. No
  other page of an object and no other entry of the page table changes, and still no two pages of
  objects share a frame and no frame is a page table or free.
\<close>

theorem page_fault_demand:
  assumes i: "frames_ok s" and l: "\<not> vmspace_lock (space s)" "\<not> pgtbl_lock (space s)"
    and v: "find_vmr_for_va a s = Inr (Some v)" "vmrs s v = Some r" "p = vmr_pmo r" "pmos s p = Some pmo" "pmo_radix pmo = Some (t, h)"
    and ty: "pmo_type pmo \<in> {PMO_FILE, PMO_ANONYM, PMO_SHM}"
    and off: "off = ROUND_DOWN a PAGE_SIZE - vmr_start r" "off < pmo_size pmo"
    and mem: "4 \<le> length (free_pgs (pts s))" "16 \<le> ravail h" and a: "unat a < 2 ^ 48" and esr: "GET_ESR_EL1_FSC esr \<in> {4, 5, 6, 7}"
  shows "\<exists>s' k e. do_page_fault esr a s = Inr s' \<and> frames_ok s' \<and> space s' = space s \<and>
    query_in_pgtbl (pgtbl (space s)) a (pts s') = Inr (0, Some (virt_to_phys k + (a AND mask 12), e)) \<and>
    (\<forall>q j. pmo_page s' q j = (if q = p \<and> j = off div PAGE_SIZE then Some (unat (virt_to_phys k)) else pmo_page s q j)) \<and>
    (case pmo_page s p (off div PAGE_SIZE) of Some f \<Rightarrow> f = unat (virt_to_phys k) \<and> user_mem s' = user_mem s
     | None \<Rightarrow> \<forall>b. user_mem s' b = (if b - k < PAGE_SIZE then 0 else user_mem s b)) \<and>
    (\<forall>w. vpn w \<noteq> vpn a \<longrightarrow> pte_of (pts s') (pgtbl (space s)) w = pte_of (pts s) (pgtbl (space s)) w)"
proof -
  define s1 where "s1 = upd_space (vmspace_lock_update (\<lambda>_. True)) s"
  have pg1: "pmo_page s1 = pmo_page s" by (simp add: pmo_page_def s1_def upd_space_def fun_eq_iff)
  have s1: "lock_vmspace s = Inr s1" "pts s1 = pts s" "pmos s1 = pmos s" "vmrs s1 = vmrs s" "user_mem s1 = user_mem s" "pgtbl (space s1) = pgtbl (space s)"
    "\<not> pgtbl_lock (space s1)" using l by (simp_all add: lock_vmspace_def s1_def upd_space_def)
  have i1: "frames_ok s1" using i pg1 s1 unfolding frames_ok_def by simp
  have fv: "find_vmr_in vs a s1 = find_vmr_in vs a s" for vs by (induction vs) (simp_all add: s1(4) cong: if_cong)
  have f1: "find_vmr_for_va a s1 = Inr (Some v)" using v(1) fv by (simp add: find_vmr_for_va_def s1_def upd_space_def)
  let ?j = "off div PAGE_SIZE"
  have ns: "\<not> pmo_size pmo \<le> ROUND_DOWN a PAGE_SIZE - vmr_start r" using off by simp
  have ty': "pmo_type pmo = PMO_FILE \<or> pmo_type pmo = PMO_ANONYM \<or> pmo_type pmo = PMO_SHM" using ty by simp
  define pa :: u64 where "pa = (case pmo_page s p ?j of None \<Rightarrow> 0 | Some f \<Rightarrow> of_nat f)"
  have g: "get_page_from_pmo (vmr_pmo r) ((ROUND_DOWN a PAGE_SIZE - vmr_start r) div PAGE_SIZE) s1 = Inr pa"
    using get_page_ok [OF i1, of p pmo t h ?j] v s1(3) off(1) by (simp add: pa_def pg1)
  have h: "handle_trans_fault a s = bind_res (if pa = 0 then new_pmo_page p ?j s1 else Inr (pa, s1)) (\<lambda>(pa1, s2).
      bind_res (map_fault_page a pa1 (vmr_perm r) s2) (\<lambda>s3. Inr (0, unlock_vmspace s3)))"
    using s1(1,3,4) f1 v(2-4) ty' ns g off(1) by (simp add: handle_trans_fault_def Let_def)
  obtain s2 k where s2: "(if pa = 0 then new_pmo_page p ?j s1 else Inr (pa, s1)) = Inr (virt_to_phys k, s2)" "frames_ok s2" "space s2 = space s1"
    "page_ok k" "3 \<le> length (free_pgs (pts s2))" "\<And>w. pte_of (pts s2) (pgtbl (space s)) w = pte_of (pts s) (pgtbl (space s)) w"
    "\<forall>q i. pmo_page s2 q i = (if q = p \<and> i = ?j then Some (unat (virt_to_phys k)) else pmo_page s q i)"
    "case pmo_page s p ?j of Some f \<Rightarrow> f = unat (virt_to_phys k) \<and> user_mem s2 = user_mem s
     | None \<Rightarrow> \<forall>b. user_mem s2 b = (if b - k < PAGE_SIZE then 0 else user_mem s b)"
  proof (cases "pmo_page s p ?j")
    case None
    obtain k ks where k: "free_pgs (pts s) = k # ks" "3 \<le> length ks" using mem(1) by (cases "free_pgs (pts s)") auto
    have "pmo_page s1 p ?j = None" "pmos s1 p = Some pmo" "free_pgs (pts s1) = k # ks" using None pg1 s1 v(4) k by simp_all
    note new = new_page_ok [OF i1 this(2) v(5) ty this(1,3) mem(2)]
    obtain s2 where n: "new_pmo_page p ?j s1 = Inr (virt_to_phys k, s2)" "frames_ok s2" "space s2 = space s1" "vmrs s2 = vmrs s1" "pts s2 = (pts s1)\<lparr>free_pgs := ks\<rparr>"
      "\<forall>q i. pmo_page s2 q i = (if q = p \<and> i = ?j then Some (unat (virt_to_phys k)) else pmo_page s1 q i)"
      "user_mem s2 = (\<lambda>b. if b - k < PAGE_SIZE then 0 else user_mem s1 b)" by (rule new)
    have "page_ok k" using i k(1) by (auto simp: frames_ok_def pt_inv_def)
    moreover have "ptslot (pts s2) = ptslot (pts s)" "entry (pts s2) = entry (pts s)"
      using n(5) s1(2) by (simp_all add: ptslot_def entry_def fun_eq_iff)
    then have "pte_of (pts s2) x w = pte_of (pts s) x w" for x w by (simp add: pte_of_def)
    ultimately show ?thesis using that [of k s2] n None k(2) pg1 s1(2,5) by (simp add: pa_def)
  next
    case (Some f)
    obtain k where k: "page_ok k" "f = unat (virt_to_phys k)" "(of_nat f :: u64) = virt_to_phys k" "virt_to_phys k \<noteq> 0"
      using pmo_page_word [OF i Some] by metis
    then show ?thesis using that [of k s1] Some i1 pg1 s1 mem(1) by (auto simp: pa_def)
  qed
  have "\<not> pgtbl_lock (space s2)" using s2(3) s1(7) by simp
  note mapped = map_fault_ok [OF s2(2) this s2(5) a s2(4), of "vmr_perm r"]
  obtain s3 e where s3: "map_fault_page a (virt_to_phys k) (vmr_perm r) s2 = Inr s3" "frames_ok s3" "space s3 = space s2" "pmos s3 = pmos s2"
    "user_mem s3 = user_mem s2" "query_in_pgtbl (pgtbl (space s2)) a (pts s3) = Inr (0, Some (virt_to_phys k + (a AND mask 12), e))"
    "\<forall>w. vpn w \<noteq> vpn a \<longrightarrow> pte_of (pts s3) (pgtbl (space s2)) w = pte_of (pts s2) (pgtbl (space s2)) w" by (rule mapped)
  define s' where "s' = unlock_vmspace s3"
  have f: "pts s' = pts s3" "pmos s' = pmos s3" "user_mem s' = user_mem s3" "pgtbl (space s') = pgtbl (space s3)"
    by (simp_all add: s'_def unlock_vmspace_def upd_space_def)
  have sp: "space s' = space s" using s3(3) s2(3) l(1) by (simp add: s'_def unlock_vmspace_def upd_space_def s1_def)
  have pg: "pmo_page s' = pmo_page s2" using f(2) s3(4) by (simp add: pmo_page_def fun_eq_iff)
  have pg3: "pmo_page s3 = pmo_page s2" using s3(4) by (simp add: pmo_page_def fun_eq_iff)
  have "frames_ok s'" using s3(2) f pg pg3 unfolding frames_ok_def by simp
  moreover have "do_page_fault esr a s = Inr s'" using esr h s2(1) s3(1) by (simp add: do_page_fault_def s'_def)
  moreover have "pgtbl (space s2) = pgtbl (space s)" using s2(3) s1(6) by simp
  ultimately show ?thesis using s3(5-7) s2(6-8) f sp pg by (intro exI [of _ s'] exI [of _ k] exI [of _ e]) (simp split: option.splits)
qed

definition demo_space :: vm_state where
  "demo_space = \<lparr>vmrs = [1 \<mapsto> \<lparr>vmr_start = MMAP_START, vmr_size = 0x4000, vmr_perm = VMR_READ OR VMR_WRITE, vmr_pmo = 7\<rparr>], vmr_pool = [2, 3],
    pmos = [7 \<mapsto> \<lparr>pmo_radix = Some (\<lparr>root = 1, radix_locked = False, value_deleter = False\<rparr>, snd (kzalloc_node demo_nodes)),
      pmo_start = 0, pmo_size = 0x4000, pmo_type = PMO_ANONYM\<rparr>],
    pts = demo_pt 6, user_mem = (\<lambda>_. 0xAA),
    space = \<lparr>vmr_list = [1], pgtbl = KBASE + PAGE_SIZE, vmspace_lock = False, pgtbl_lock = False, heap_lock = False, heap_vmr = None,
      user_current_heap = HEAP_START, user_current_mmap_addr = MMAP_START + 0x4000, ran_on = replicate PLAT_CPU_NUM False\<rparr>\<rparr>"

lemma demo_map_space: "demo_map 0x4000 = Inr demo_space"
proof -
  have u: "ROUND_UP 0x4000 PAGE_SIZE = 0x4000" "0x4000 mod PAGE_SIZE = 0" "KBASE + PAGE_SIZE \<noteq> 0"
    by (simp_all add: ROUND_UP_def PAGE_SIZE_def KBASE_def)
  show ?thesis
    by (simp add: demo_map_def demo_vm_def demo_space_def demo_pt_def demo_nodes_def vmspace_init_def get_page_def upd_space_def reset_history_cpus_def
        pmo_init_def pmo_types new_radix_def init_radix_def kzalloc_node_def vmspace_mmap_with_pmo_def alloc_vmregion_def lock_vmspace_def
        unlock_vmspace_def add_vmr_to_vmspace_def check_vmr_intersect_def upd_vmr_def u Let_def)
qed

lemma demo_space_frames: "frames_ok demo_space \<and> (\<forall>p i. pmo_page demo_space p i = None)"
proof -
  have h: "heap_ok demo_nodes" "new_radix_node demo_nodes = (Some 1, snd (kzalloc_node demo_nodes))"
    by (simp_all add: heap_ok_def new_radix_node_def kzalloc_node_def demo_nodes_def)
  have r: "tree_ok 1 (snd (kzalloc_node demo_nodes))" "\<forall>js. js \<noteq> [] \<longrightarrow> foldl (slot (snd (kzalloc_node demo_nodes))) 1 js = 0"
    using new_root [OF h] by auto
  have "radix_digits k \<noteq> []" for k by (simp add: radix_digits_def)
  then have z: "foldl (slot (snd (kzalloc_node demo_nodes))) 1 (radix_digits k) = 0" for k using r(2) by blast
  have e: "pmo_page demo_space p i = None" for p i using z [of i] by (simp add: pmo_page_def demo_space_def radix_map_def)
  have "KBASE \<notin> set (demo_pages 6)" by (simp add: demo_pages_def KBASE_def PAGE_SIZE_def upt_rec)
  moreover have "pt_inv (pgtbl (space demo_space)) (pts demo_space)" using demo_pt_inv by (simp add: demo_space_def)
  ultimately have "frames_ok demo_space" using r(1) e
    by (simp add: frames_ok_def) (simp add: demo_space_def demo_pt_def radix_ok_def tree_ok_def)
  then show ?thesis using e by blast
qed

theorem page_fault_demand_witness:
  "\<exists>s' k e. do_page_fault 7 0x700000002010 demo_space = Inr s' \<and>
    query_in_pgtbl (KBASE + PAGE_SIZE) 0x700000002010 (pts s') = Inr (0, Some (virt_to_phys k + 0x10, e)) \<and> user_mem s' (k + 5) = 0"
proof -
  let ?a = "0x700000002010 :: u64" and ?r = "\<lparr>vmr_start = MMAP_START, vmr_size = 0x4000, vmr_perm = VMR_READ OR VMR_WRITE, vmr_pmo = 7\<rparr>"
  let ?t = "\<lparr>root = 1, radix_locked = False, value_deleter = False\<rparr>" and ?h = "snd (kzalloc_node demo_nodes)"
  let ?o = "\<lparr>pmo_radix = Some (?t, ?h), pmo_start = 0, pmo_size = 0x4000, pmo_type = PMO_ANONYM\<rparr>"
  have l: "\<not> vmspace_lock (space demo_space)" "\<not> pgtbl_lock (space demo_space)" by (simp_all add: demo_space_def)
  have v: "find_vmr_for_va ?a demo_space = Inr (Some 1)" "vmrs demo_space 1 = Some ?r" "7 = vmr_pmo ?r" "pmos demo_space 7 = Some ?o"
    "pmo_radix ?o = Some (?t, ?h)" "pmo_type ?o \<in> {PMO_FILE, PMO_ANONYM, PMO_SHM}"
    by (simp_all add: find_vmr_for_va_def demo_space_def MMAP_START_def)
  have off: "0x2000 = ROUND_DOWN ?a PAGE_SIZE - vmr_start ?r" "0x2000 < pmo_size ?o"
    by (simp_all add: ROUND_DOWN_def PAGE_SIZE_def MMAP_START_def)
  have m: "4 \<le> length (free_pgs (pts demo_space))" "16 \<le> ravail ?h" "unat ?a < 2 ^ 48" "GET_ESR_EL1_FSC 7 \<in> {4, 5, 6, 7}"
    by (simp_all add: demo_space_def demo_pt_def demo_pages_def kzalloc_node_def demo_nodes_def GET_ESR_EL1_FSC_def)
  have n: "pmo_page demo_space 7 (0x2000 div PAGE_SIZE) = None" "?a AND mask 12 = 0x10" "pgtbl (space demo_space) = KBASE + PAGE_SIZE"
    "(k + 5) - k < PAGE_SIZE" for k
    using demo_space_frames by (simp_all add: mask_eq_exp_minus_1 demo_space_def PAGE_SIZE_def)
  obtain s' k e where "do_page_fault 7 ?a demo_space = Inr s'"
    "query_in_pgtbl (KBASE + PAGE_SIZE) ?a (pts s') = Inr (0, Some (virt_to_phys k + 0x10, e))"
    "\<forall>b. user_mem s' b = (if b - k < PAGE_SIZE then 0 else user_mem demo_space b)"
    using page_fault_demand [OF conjunct1 [OF demo_space_frames] l v off m] n(1-3) by auto
  then show ?thesis using n(4) [of k] by (intro exI [of _ s'] exI [of _ k] exI [of _ e]) simp
qed

lemma returnsE:
  assumes "case x of Inl _ \<Rightarrow> False | Inr y \<Rightarrow> P y"
  obtains y where "x = Inr y" "P y"
  using assms by (auto split: sum.splits)


section \<open>Error paths\<close>

lemma lock_vmspace_free: "\<not> vmspace_lock (space s) \<Longrightarrow> lock_vmspace s = Inr (upd_space (vmspace_lock_update (\<lambda>_. True)) s)"
  by (simp add: lock_vmspace_def)

lemma find_vmr_locked [simp]: "find_vmr_for_va a (upd_space (vmspace_lock_update g) s) = find_vmr_for_va a s"
proof -
  have "find_vmr_in vs a (upd_space (vmspace_lock_update g) s) = find_vmr_in vs a s" for vs
    by (induction vs) (simp_all add: upd_space_def cong: if_cong)
  then show ?thesis by (simp add: find_vmr_for_va_def) (simp add: upd_space_def)
qed

text \<open>Unmapping where there is no region leaves the lock held, and every later operation spins.\<close>

lemma unmap_unknown_keeps_lock:
  assumes "\<not> vmspace_lock (space s)" "find_vmr_for_va va s = Inr None"
  shows "\<exists>s'. vmspace_unmap_range va len s = Inr (- 1, s') \<and> (\<forall>a. handle_trans_fault a s' = Inl Deadlock)"
  using assms by (simp add: vmspace_unmap_range_def lock_vmspace_free) (simp add: handle_trans_fault_def lock_vmspace_def upd_space_def)

text \<open>An access of a program outside its regions stops the kernel.\<close>

lemma fault_outside_stops:
  assumes "\<not> vmspace_lock (space s)" "find_vmr_for_va a s = Inr None"
  shows "do_page_fault esr a s = Inl Bug_On"
  using assms by (simp add: do_page_fault_def handle_trans_fault_def lock_vmspace_free ENOMAPPING_def)

text \<open>Without a free page the check after the allocation passes and the null page is cleared.\<close>

lemma fault_without_pages: "free_pgs (pts s) = [] \<Longrightarrow> new_pmo_page p j s = Inl Bad_Access"
  by (simp add: new_pmo_page_def get_page_def memset_page_def) (simp add: virt_to_phys_def KBASE_def)

text \<open>Reading and writing an anonymous object ignores the offset within the page.\<close>

lemma rw_pmo_ignores_offset:
  assumes i: "frames_ok s" and p: "pmos s p = Some pmo" "pmo_radix pmo = Some (r, h)" "pmo_type pmo = PMO_ANONYM"
    and o: "offset \<le> offset + sz" "offset + sz \<le> pmo_size pmo"
    and k: "pmo_page s p (ROUND_DOWN offset PAGE_SIZE div PAGE_SIZE) = Some f"
  shows "rw_pmo_addr p offset sz s = Inr (Inr (phys_to_virt (of_nat f)), s)"
proof -
  obtain l where "(of_nat f :: u64) = virt_to_phys l" "virt_to_phys l \<noteq> 0" using pmo_page_word [OF i k] by metis
  then show ?thesis using get_page_ok [OF i p(1,2), of "ROUND_DOWN offset PAGE_SIZE div PAGE_SIZE"] p o k
    by (simp add: rw_pmo_addr_def pmo_types not_less)
qed

text \<open>Destroying a space with regions follows the link of a region that has been freed.\<close>

lemma destroy_never_returns: "vmr_list (space s) \<noteq> [] \<Longrightarrow> destroy_vmspace s \<noteq> Inr x"
  by (auto simp: destroy_vmspace_def res_simps split: list.splits)

section \<open>Fuel\<close>

text \<open>The walks over the page tables and over the regions never run out of fuel.\<close>

lemma next_ptp_returns: "get_next_ptp c l va al h \<noteq> Inl No_Return"
  by (auto simp: get_next_ptp_def write_pte_def deref_def bug_on_def res_simps Let_def split: if_splits option.splits prod.splits)

lemma change_ptes_progress: "change_ptes upd i l3 va cnt h = Inr (va1, cnt1, h1) \<Longrightarrow> i < PTP_ENTRIES \<Longrightarrow> cnt1 \<le> cnt - 1"
proof (induction upd i l3 va cnt h rule: change_ptes.induct)
  case (1 upd i l3 va cnt h)
  obtain pg h2 where c: "ptps h l3 = Some pg" "write_pte l3 i (upd (pg i)) h = Inr h2"
    "(if cnt - 1 = 0 then Inr (va + PAGE_SIZE, cnt - 1, h2)
      else change_ptes upd (i + 1) l3 (va + PAGE_SIZE) (cnt - 1) h2) = Inr (va1, cnt1, h1)"
    using 1(2,3) by (subst (asm) change_ptes.simps) (auto simp: res_simps)
  show ?case
  proof (cases "cnt - 1 = 0 \<or> \<not> i + 1 < PTP_ENTRIES")
    case True
    then show ?thesis using c(3) by (auto simp: change_ptes.simps [of upd "Suc i"] split: if_splits)
  next
    case False
    have d: "deref (ptps h) l3 = Inr pg" using c(1) by simp
    show ?thesis using 1(1) [of pg h2, OF 1(3) d c(2)] c(3) False by auto
  qed
qed

lemma change_ptes_returns: "change_ptes upd i l3 va cnt h \<noteq> Inl No_Return"
proof (induction upd i l3 va cnt h rule: change_ptes.induct)
  case (1 upd i l3 va cnt h)
  then show ?case
    by (subst change_ptes.simps) (auto simp: write_pte_def deref_def res_simps split: option.splits)
qed

lemma change_loop_returns: "cnt \<le> int fuel \<Longrightarrow> change_loop fuel upd pg va cnt h \<noteq> Inl No_Return"
proof (induction fuel arbitrary: va cnt h)
  case 0
  then show ?case by (simp add: change_loop.simps)
next
  case (Suc fuel)
  have skip: "change_loop fuel upd pg va' (cnt - int n) h' \<noteq> Inl No_Return" if "1 \<le> n" for n va' h'
    using Suc.IH [of "cnt - int n"] Suc.prems that by simp
  have pages: "1 \<le> L0_PER_ENTRY_PAGES" "1 \<le> L1_PER_ENTRY_PAGES" "1 \<le> L2_PER_ENTRY_PAGES"
    by (simp_all add: L0_PER_ENTRY_PAGES_def L1_PER_ENTRY_PAGES_def L2_PER_ENTRY_PAGES_def)
  have leaf: "bind_res (change_ptes upd (ptp_index 3 va) l3 va cnt h) (\<lambda>(va1, cnt1, h1). change_loop fuel upd pg va1 cnt1 h1) \<noteq> Inl No_Return" for l3
    using change_ptes_progress [of upd "ptp_index 3 va" l3 va cnt h] change_ptes_returns Suc by (fastforce simp: res_simps)
  show ?case
    using skip [OF pages(1)] skip [OF pages(2)] skip [OF pages(3)] leaf next_ptp_returns
    by (subst change_loop.simps) (auto simp: res_simps Let_def split: option.splits)
qed

lemma map_ptes_progress: "map_ptes i l3 fl va pa cnt h = Inr (va1, pa1, cnt1, h1) \<Longrightarrow> i < PTP_ENTRIES \<Longrightarrow> cnt1 \<le> cnt - 1"
proof (induction i l3 fl va pa cnt h rule: map_ptes.induct)
  case (1 i l3 fl va pa cnt h)
  obtain h2 where c: "write_pte l3 i (page_pte pa fl) h = Inr h2"
    "(if cnt - 1 = 0 then Inr (va + PAGE_SIZE, pa + PAGE_SIZE, cnt - 1, h2)
      else map_ptes (i + 1) l3 fl (va + PAGE_SIZE) (pa + PAGE_SIZE) (cnt - 1) h2) = Inr (va1, pa1, cnt1, h1)"
    using 1(2,3) by (subst (asm) map_ptes.simps) (auto simp: res_simps)
  show ?case
  proof (cases "cnt - 1 = 0 \<or> \<not> i + 1 < PTP_ENTRIES")
    case True
    then show ?thesis using c(2) by (auto simp: map_ptes.simps [of "Suc i"] split: if_splits)
  next
    case False
    then show ?thesis using 1(1) [of h2, OF 1(3) c(1)] c(2) by auto
  qed
qed

lemma map_ptes_returns: "map_ptes i l3 fl va pa cnt h \<noteq> Inl No_Return"
proof (induction i l3 fl va pa cnt h rule: map_ptes.induct)
  case (1 i l3 fl va pa cnt h)
  then show ?case by (subst map_ptes.simps) (auto simp: write_pte_def deref_def res_simps split: option.splits)
qed

lemma map_loop_returns: "cnt \<le> fuel \<Longrightarrow> map_loop fuel pg fl va pa cnt h \<noteq> Inl No_Return"
proof (induction fuel arbitrary: va pa cnt h)
  case 0
  then show ?case by (simp add: map_loop.simps)
next
  case (Suc fuel)
  have alloc: "next_alloc c l a g \<noteq> Inl No_Return" for c l a g
    using next_ptp_returns by (auto simp: next_alloc_def bug_on_def res_simps split: if_splits option.splits)
  have leaf: "bind_res (map_ptes (ptp_index 3 va) l3 fl va pa cnt g) (\<lambda>(va1, pa1, cnt1, h1). map_loop fuel pg fl va1 pa1 cnt1 h1) \<noteq> Inl No_Return" for l3 g
    using map_ptes_progress [of "ptp_index 3 va" l3 fl va pa cnt g] map_ptes_returns Suc by (fastforce simp: res_simps)
  show ?case using leaf alloc by (subst map_loop.simps) (auto simp: res_simps)
qed

lemma unmap_returns: "with_pgtbl (\<lambda>p. unmap_range_in_pgtbl p va len) s \<noteq> Inl No_Return"
  using change_loop_returns by (auto simp: with_pgtbl_def unmap_range_in_pgtbl_def res_simps)

lemma find_vmr_returns: "find_vmr_for_va a s \<noteq> Inl No_Return"
proof -
  have "find_vmr_in vs a s \<noteq> Inl No_Return" for vs by (induction vs) (auto simp: deref_def res_simps split: option.splits if_splits)
  then show ?thesis by (simp add: find_vmr_for_va_def)
qed

lemma unmap_vmrs_returns:
  "length (vmr_list (space s)) < fuel \<Longrightarrow> unmap_vmrs fuel va len s \<noteq> Inl No_Return"
proof (induction fuel arbitrary: va len s)
  case (Suc fuel)
  show ?case
  proof
    assume n: "unmap_vmrs (Suc fuel) va len s = Inl No_Return"
    then obtain v where v: "len \<noteq> 0" "find_vmr_for_va va s = Inr (Some v)"
      using find_vmr_returns [of va s] by (cases "find_vmr_for_va va s") (auto simp: unmap_vmrs.simps [of "Suc fuel"] split: if_splits option.splits)
    then obtain r where r: "v \<in> set (vmr_list (space s))" "vmrs s v = Some r" using find_vmr_covers by blast
    have "\<not> vmr_size r > len" using n v r(2) unmap_returns
      by (auto simp: unmap_vmrs.simps [of "Suc fuel"] deref_def bug_on_def res_simps split: option.splits if_splits)
    then obtain x s1 va' len' where s1: "with_pgtbl (\<lambda>p. unmap_range_in_pgtbl p va len) s = Inr (x, s1)"
      "unmap_vmrs fuel va' len' (del_vmr_from_vmspace v s1) = Inl No_Return"
      using n v r(2) unmap_returns
      by (auto simp: unmap_vmrs.simps [of "Suc fuel"] deref_def res_simps Let_def split: option.splits)
    have "vmr_list (space (del_vmr_from_vmspace v s1)) = remove1 v (vmr_list (space s))"
      using vmr_fields(1) [OF s1(1)] r(1) by (simp add: del_vmr_from_vmspace_def free_vmregion_def upd_space_def is_vmr_in_vmspace_def)
    then have "length (vmr_list (space (del_vmr_from_vmspace v s1))) < fuel"
      using r(1) Suc.prems length_pos_if_in_set [OF r(1)] by (simp add: length_remove1 del: length_greater_0_conv)
    then show False using Suc.IH s1(2) by blast
  qed
qed simp

end
