(* ===== verification/Spec2Isabelle.thy ===== *)
theory Spec2Isabelle
  imports Prelude Kernel_List Bitops Buddy Slab Kmalloc Sched Round_Robin Fpu Cap_Spec Timer_Props Notification_Props
    Locks Radix Page_Map Vmspace_Props
begin

text \<open>
  A verification development for the ChCore microkernel, the C program under
  \<^verbatim>\<open>src/flex-ipc/chcore/kernel\<close>. All file names below are relative to that directory. The configuration
  is the aarch64 kernel for the Raspberry Pi 3 with four CPUs.

  \<^bold>\<open>The program.\<close> The kernel manages memory, schedules threads and gives processes access to
  kernel objects through numbers in a table. Memory is handed out in blocks of pages by the buddy
  allocator, in small slots by the slab allocator on top of it, and \<^verbatim>\<open>kmalloc\<close> chooses between the
  two. Address spaces consist of regions over memory objects; a page fault looks up the region, takes
  the page from the radix tree of the object or allocates it, and enters it into the page table.
  Threads stand in per-CPU ready queues of one of two policies; the timer interrupt ends time slices
  and wakes sleepers; notifications block and wake threads, and interrupt objects are built on them.
  Every object has a reference count, which the slots of the tables and the system calls in progress
  hold. Spin locks protect the shared structures.

  \<^bold>\<open>How the code is modelled.\<close> A C function is a HOL function that takes the state it works on and
  returns its result with the new state, or the way in which it stops without returning: a failed
  \<^verbatim>\<open>BUG_ON\<close>, a spin on a lock nobody releases, an access outside every object, a loop that never
  ends (\<open>kfail\<close> in \<open>Prelude\<close>). Returned error codes are ordinary values. Structs are records, machine
  integers are words of their width, pointers are natural numbers or addresses into explicit heaps.
  What runs at once on several CPUs is a step relation or a sequence of steps, with the interleavings
  that the locks of the code allow; in the sequential parts a lock is a flag.

  \<^bold>\<open>The theories.\<close>
  \<^item> \<open>Prelude\<close>: results, error numbers (\<^verbatim>\<open>include/common/errno.h\<close>), rounding macros
    (\<^verbatim>\<open>include/common/macro.h\<close>) and shared lemmas.
  \<^item> \<open>Kernel_List\<close>: the intrusive lists of \<^verbatim>\<open>include/common/list.h\<close> on a heap of links, with the sequence
    a well-formed list stands for. \<open>Bitops\<close>: the bitmaps of \<^verbatim>\<open>include/common/bitops.h\<close>; the word-wise
    search equals the first matching bit.
  \<^item> \<open>Buddy\<close>: \<^verbatim>\<open>mm/buddy.c\<close>. The locale \<open>page_allocator\<close> states what an allocator of blocks promises; the
    buddy allocator refines it, finds a block whenever an aligned run is free, merges all free
    buddies, and no frame is ever in two blocks.
  \<^item> \<open>Slab\<close>: \<^verbatim>\<open>mm/slab.c\<close>. Slots are disjoint from all slots in use; frees take exactly one slot out of
    use; double frees are detected. \<open>Kmalloc\<close>: \<^verbatim>\<open>mm/kmalloc.c\<close>, \<^verbatim>\<open>mm/mm.c\<close> and the memory map; objects of
    the two allocators never overlap, and initialisation establishes the invariants.
  \<^item> \<open>Threads\<close>, \<open>Sched_Core\<close>: \<^verbatim>\<open>include/object/thread.h\<close>, \<^verbatim>\<open>include/sched/sched.h\<close>, \<^verbatim>\<open>sched/sched.c\<close> and the
    contexts. \<open>Ready_Queues\<close> holds the contract of \<^verbatim>\<open>struct sched_ops\<close> as the locale \<open>ready_queues\<close>;
    \<open>Sched_RR\<close> (\<^verbatim>\<open>sched/policy_rr.c\<close>) and \<open>Sched_PBRR\<close> (\<^verbatim>\<open>sched/policy_pbrr.c\<close>) interpret it.
    \<open>Sched_Smp\<close> extends it to \<open>idle_policy\<close> and proves the invariant of four CPUs that schedule at
    once; \<open>Sched\<close> interprets it from boot on: no kernel stack is used by two CPUs and rescheduling
    always ends. \<open>Round_Robin\<close>: the policy is fair on one CPU, and what a nested interrupt does to
    \<^verbatim>\<open>finish_switch\<close>. \<open>Fpu\<close>: the lazy switch of \<^verbatim>\<open>arch/aarch64/sched/fpu.c\<close> is invisible to threads.
  \<^item> \<open>Slot_Table\<close>, \<open>Kernel_State\<close>, \<open>Capability\<close>, \<open>Cap_Spec\<close>: \<^verbatim>\<open>object/cap_group.c\<close> and
    \<^verbatim>\<open>object/capability.c\<close>. New numbers are fresh; copying, freeing and revoking refine operations on
    maps from numbers to objects; in every reachable state each number leads to a living object and
    each reference count is right.
  \<^item> \<open>Timer\<close>, \<open>Timer_Props\<close>: \<^verbatim>\<open>irq/timer.c\<close>. Sleep lists stay sorted, and the interrupt wakes exactly the
    threads that are due. \<open>Notification\<close>, \<open>Notification_Props\<close>: \<^verbatim>\<open>ipc/notification.c\<close>, \<^verbatim>\<open>object/irq.c\<close>.
    Notifications are counting semaphores with a fair queue; the direct switch does not ask whether
    the kernel stack of its target is free.
  \<^item> \<open>Locks\<close>: \<^verbatim>\<open>arch/aarch64/sync/ticket.c\<close> and \<^verbatim>\<open>rwlock.c\<close> instruction by instruction, with the exclusive
    monitors. Both interpret the locale \<open>lock_protocol\<close>: mutual exclusion in every interleaving, first
    come first served for the ticket lock.
  \<^item> \<open>Pointer_Tree\<close>: trees of arrays of pointers, the locale \<open>pointer_tree\<close>, interpreted by \<open>Radix\<close>
    (\<^verbatim>\<open>lib/radix.c\<close>, a map from keys to values) and by \<open>Page_Map\<close> over \<open>Page_Table\<close>
    (\<^verbatim>\<open>arch/aarch64/mm/page_table.c\<close>): mapping, unmapping and protection change exactly the entries of
    their range, and lookups return what was mapped.
  \<^item> \<open>Vmspace\<close>, \<open>Vmspace_Props\<close>: \<^verbatim>\<open>mm/vmregion.c\<close>, \<^verbatim>\<open>mm/pgfault_handler.c\<close>, \<^verbatim>\<open>arch/aarch64/irq/pgfault.c\<close> and
    parts of \<^verbatim>\<open>object/memory.c\<close>. Regions never overlap; faults bring in the right page and nothing
    else changes.

  \<^bold>\<open>Defects.\<close> Some theorems state what the code does where that is not what it means to do: a nested
  interrupt frees the stack of a running thread, revoking a ready thread leaves it in its queue, the
  direct switch shares a stack, unmapping skips pages behind a hole, a partial unmapping makes two
  pages share a frame. Further lemmas show wrapped sizes, locks that stay held and checks that
  never fail; they stand beside the operations they are about.

  \<^bold>\<open>Bounds and fuel.\<close> Loops are structural or have a termination proof, except the following. The
  walks over page tables take the number of pages as fuel, because every round handles at least one;
  the recursion of \<^verbatim>\<open>unmap_vmrs\<close> takes one more than the number of regions, because every call deletes
  one; both are shown never to run out. Walks along chains of slots and the search for a free number
  are partial functions, for which not returning is a value of its own, and they are shown to
  return. Sixteen tree nodes serve any insertion into a radix tree and three pages any mapping of a
  page, and the theorems ask for these when they claim success.

  \<^bold>\<open>Simplifications.\<close> The parts are verified against each other's contracts, not in one state: the
  page tables, the regions and the radix trees draw their memory from lists of what the allocator is
  going to return. A freed region keeps its fields except the link, as \<^verbatim>\<open>kfree\<close> leaves it, because the
  code reads them. System calls that fetch the caller's own address space take and give back one
  reference; the model starts after the fetch. TLB and cache maintenance have no effect on the state.

  \<^bold>\<open>Not modelled.\<close> Thread-migrating calls between processes (\<^verbatim>\<open>ipc/connection.c\<close>) and the creation and
  recycling of processes and threads (\<^verbatim>\<open>object/recycle.c\<close>, most of \<^verbatim>\<open>object/thread.c\<close>) rest on user memory
  and on register contents set up in assembly. The boot path, exception vectors, console output, the
  readers of ELF and CPIO images and device access are assembly or input and output. The ports to
  x86_64 and the hikey970 board are other builds. Outside the kernel directory the repository holds
  user-level servers, drivers and bundled third-party libraries, course exercises on other operating
  systems and a coroutine library; they are separate programs.
\<close>

end
